(* ===== verification/Chain_Prelude.thy ===== *)
theory Chain_Prelude
  imports Main "HOL-Library.Word" "HOL-Library.Product_Lexorder" "HOL-Library.List_Lexorder"
begin

text \<open>
  Shared vocabulary of the development: machine integers, chain exceptions as error values,
  the error monad the operations are written in, 256-bit digests, and the ordered containers
  (\<open>flat_map\<close>, \<open>flat_set\<close>) as sorted lists.
\<close>

unbundle bit_operations_syntax

section \<open>Machine integers\<close>

type_synonym u8 = "8 word"
type_synonym u16 = "16 word"
type_synonym u32 = "32 word"
type_synonym u64 = "64 word"
type_synonym u128 = "128 word"

lemma unat_less_exp: "unat (w :: 'a::len word) < 2 ^ LENGTH('a)"
  by (rule unsigned_less)

lemma unat_u16_less: "unat (w :: u16) < 65536"
  using unat_less_exp [of w] by simp

lemma unat_u32_less: "unat (w :: u32) < 4294967296"
  using unat_less_exp [of w] by simp

lemma unat_u64_less: "unat (w :: u64) < 18446744073709551616"
  using unat_less_exp [of w] by simp

text \<open>Values of \<^verbatim>\<open>name\<close> (and of \<^verbatim>\<open>account_name\<close>, \<^verbatim>\<open>permission_name\<close>, \<^verbatim>\<open>action_name\<close>) are one \<^verbatim>\<open>uint64_t\<close>.\<close>

type_synonym name_value = u64
type_synonym account_name = name_value
type_synonym permission_name = name_value

section \<open>Errors as values\<close>

text \<open>
  One constructor per exception class that a modelled operation throws. The constructor
  \<open>undefined_behaviour\<close> marks a C++ operation whose result the language leaves undefined
  (a shift by the width or more, signed overflow, a read past the end of a container).
\<close>

datatype chain_error =
    name_type_exception
  | symbol_type_exception
  | asset_type_exception
  | overflow_exception
  | underflow_exception
  | parse_error_exception
  | block_validate_exception
  | unlinkable_block_exception
  | wrong_producer
  | wrong_signing_key
  | no_block_signatures
  | producer_double_confirm
  | producer_schedule_exception
  | invalid_block_header_extension
  | invalid_block_extension
  | ill_formed_additional_block_signatures_extension
  | bad_variant_access
  | fork_database_exception
  | fork_db_block_not_found
  | database_exception
  | protocol_feature_exception
  | protocol_feature_validation_exception
  | ill_formed_protocol_feature_activation
  | rate_limiting_state_inconsistent
  | resource_limit_exception
  | tx_cpu_usage_exceeded
  | tx_net_usage_exceeded
  | block_resource_exhausted
  | transaction_exception
  | ram_usage_exceeded
  | permission_query_exception
  | authorization_exception
  | invalid_permission
  | unsatisfied_authorization
  | tx_irrelevant_sig
  | assert_exception
  | out_of_range
  | logic_error
  | undefined_behaviour

type_synonym 'a result = "chain_error + 'a"

text \<open>\<open>sys_assert\<close> is the macro \<^verbatim>\<open>SYS_ASSERT\<close>; \<open>ebind\<close> sequences fallible steps.\<close>

definition sys_assert :: "bool \<Rightarrow> chain_error \<Rightarrow> unit result" where
  "sys_assert c e = (if c then Inr () else Inl e)"

definition ebind :: "'a result \<Rightarrow> ('a \<Rightarrow> 'b result) \<Rightarrow> 'b result" where
  "ebind m f = (case m of Inl e \<Rightarrow> Inl e | Inr x \<Rightarrow> f x)"

fun efold :: "('a \<Rightarrow> 's \<Rightarrow> 's result) \<Rightarrow> 'a list \<Rightarrow> 's \<Rightarrow> 's result" where
  "efold f [] s = Inr s"
| "efold f (x # xs) s = ebind (f x s) (efold f xs)"

lemma ebind_simps [simp]:
  "ebind (Inl e) f = Inl e"
  "ebind (Inr x) f = f x"
  by (simp_all add: ebind_def)

lemma ebind_Inr_iff: "ebind m f = Inr y \<longleftrightarrow> (\<exists>x. m = Inr x \<and> f x = Inr y)"
  by (cases m) auto

lemma ebind_Inl_iff:
  "ebind m f = Inl e \<longleftrightarrow> m = Inl e \<or> (\<exists>x. m = Inr x \<and> f x = Inl e)"
  by (cases m) auto

lemma ebind_cong [fundef_cong]:
  "m = m' \<Longrightarrow> (\<And>x. m' = Inr x \<Longrightarrow> f x = g x) \<Longrightarrow> ebind m f = ebind m' g"
  by (cases m') auto

lemma sys_assert_simps [simp]:
  "sys_assert c e = Inr u \<longleftrightarrow> c"
  "sys_assert c e = Inl e' \<longleftrightarrow> \<not> c \<and> e' = e"
  "sys_assert True e = Inr ()"
  "sys_assert False e = Inl e"
  by (auto simp: sys_assert_def)

lemma ebind_sys_assert:
  "ebind (sys_assert c e) f = (if c then f () else Inl e)"
  by (simp add: sys_assert_def)

lemma ebind_sys_assert_Inr_iff [simp]:
  "ebind (sys_assert c e) f = Inr y \<longleftrightarrow> c \<and> f () = Inr y"
  by (simp add: sys_assert_def)

lemma efold_invariant:
  assumes "efold f xs s = Inr s'" and "P s"
    and "\<And>x s s'. x \<in> set xs \<Longrightarrow> P s \<Longrightarrow> f x s = Inr s' \<Longrightarrow> P s'"
  shows "P s'"
  using assms
proof (induction xs arbitrary: s)
  case Nil
  then show ?case by simp
next
  case (Cons x xs)
  from Cons.prems(1) obtain t where "f x s = Inr t" "efold f xs t = Inr s'"
    by (auto simp: ebind_Inr_iff)
  with Cons.prems(2,3) Cons.IH show ?case by (metis list.set_intros)
qed

section \<open>Memory layout\<close>

text \<open>The bytes of an unsigned integer in memory, least significant first.\<close>

type_synonym bytes = "u8 list"

fun le_bytes :: "nat \<Rightarrow> 'a::len word \<Rightarrow> bytes" where
  "le_bytes 0 w = []"
| "le_bytes (Suc n) w = ucast w # le_bytes n (drop_bit 8 w)"

fun le_word :: "bytes \<Rightarrow> 'a::len word" where
  "le_word [] = 0"
| "le_word (b # bs) = ucast b OR push_bit 8 (le_word bs)"

lemma length_le_bytes [simp]: "length (le_bytes n w) = n"
  by (induction n arbitrary: w) auto

lemma le_word_bytes: "le_word (le_bytes n w) = take_bit (8 * n) (w :: 'a::len word)"
proof (induction n arbitrary: w)
  case 0
  then show ?case by simp
next
  case (Suc n)
  have "ucast (ucast w :: u8) OR push_bit 8 (take_bit (8 * n) (drop_bit 8 w)) = take_bit (8 * Suc n) w"
    by (rule bit_word_eqI)
      (auto simp: bit_or_iff bit_push_bit_iff bit_take_bit_iff bit_drop_bit_eq bit_ucast_iff)
  then show ?case by (simp add: Suc.IH)
qed

lemma le_word_bytes_full:
  "LENGTH('a) = 8 * n \<Longrightarrow> le_word (le_bytes n w) = (w :: 'a::len word)"
  by (metis le_word_bytes take_bit_length_eq)

lemma le_bytes_8_inject [simp]: "le_bytes 8 (v :: u64) = le_bytes 8 w \<longleftrightarrow> v = w"
  by (metis le_word_bytes_full [of 8, where 'a = 64, simplified])

section \<open>Digests\<close>

text \<open>
  \<^verbatim>\<open>fc::sha256\<close> is an array \<^verbatim>\<open>_hash\<close> of four 64-bit words. Computing a hash is a parameter of
  the operations that hash (the hash itself is a third-party routine).
\<close>

datatype sha256 = SHA256 (h0: u64) (h1: u64) (h2: u64) (h3: u64)

type_synonym digest_type = sha256
type_synonym block_id_type = sha256

definition zero_digest :: digest_type where
  "zero_digest = SHA256 0 0 0 0"

definition sha256_data :: "sha256 \<Rightarrow> bytes" where
  "sha256_data d = le_bytes 8 (h0 d) @ le_bytes 8 (h1 d) @ le_bytes 8 (h2 d) @ le_bytes 8 (h3 d)"

text \<open>
  Two orders are in use. \<^verbatim>\<open>operator<\<close> is \<^verbatim>\<open>memcmp\<close>, the lexicographic order of the 32 bytes; it
  orders the sets and maps of digests and is the order of the type here. \<^verbatim>\<open>sha256_less\<close> of
  types.hpp compares the four words as integers.
\<close>

definition sha256_memcmp_less :: "sha256 \<Rightarrow> sha256 \<Rightarrow> bool" where
  "sha256_memcmp_less a b \<longleftrightarrow> sha256_data a < sha256_data b"

definition sha256_less :: "sha256 \<Rightarrow> sha256 \<Rightarrow> bool" where
  "sha256_less a b \<longleftrightarrow> (h0 a, h1 a, h2 a, h3 a) < (h0 b, h1 b, h2 b, h3 b)"

lemma length_sha256_data [simp]: "length (sha256_data d) = 32"
  by (simp add: sha256_data_def)

lemma sha256_data_inject [simp]: "sha256_data a = sha256_data b \<longleftrightarrow> a = b"
  by (cases a; cases b) (simp add: sha256_data_def)

instantiation sha256 :: linorder
begin

definition less_sha256 :: "sha256 \<Rightarrow> sha256 \<Rightarrow> bool" where
  "less_sha256 a b = sha256_memcmp_less a b"

definition less_eq_sha256 :: "sha256 \<Rightarrow> sha256 \<Rightarrow> bool" where
  "less_eq_sha256 a b \<longleftrightarrow> sha256_data a \<le> sha256_data b"

instance
  by standard
    (auto simp: less_eq_sha256_def less_sha256_def sha256_memcmp_less_def less_le_not_le dest: antisym)

end

section \<open>Ordered containers\<close>

text \<open>
  \<^verbatim>\<open>flat_map\<close> and \<^verbatim>\<open>std::map\<close> are association lists with strictly ascending keys, \<^verbatim>\<open>flat_set\<close> and
  \<^verbatim>\<open>std::set\<close> strictly ascending lists. \<open>fm_assign\<close> is \<^verbatim>\<open>m[k] = v\<close>, \<open>fm_emplace\<close> is \<^verbatim>\<open>insert\<close> or
  \<^verbatim>\<open>emplace\<close> (an existing entry wins, and the flag says whether the entry was added).
\<close>

fun fm_assign :: "'k::linorder \<Rightarrow> 'v \<Rightarrow> ('k \<times> 'v) list \<Rightarrow> ('k \<times> 'v) list" where
  "fm_assign k v [] = [(k, v)]"
| "fm_assign k v ((k', v') # m) =
     (if k < k' then (k, v) # (k', v') # m
      else if k = k' then (k, v) # m
      else (k', v') # fm_assign k v m)"

definition fm_find :: "'k \<Rightarrow> ('k \<times> 'v) list \<Rightarrow> 'v option" where
  "fm_find k m = map_of m k"

definition fm_emplace :: "'k::linorder \<Rightarrow> 'v \<Rightarrow> ('k \<times> 'v) list \<Rightarrow> bool \<times> ('k \<times> 'v) list" where
  "fm_emplace k v m = (case fm_find k m of None \<Rightarrow> (True, fm_assign k v m) | Some _ \<Rightarrow> (False, m))"

fun fm_erase :: "'k \<Rightarrow> ('k \<times> 'v) list \<Rightarrow> ('k \<times> 'v) list" where
  "fm_erase k [] = []"
| "fm_erase k ((k', v') # m) = (if k = k' then m else (k', v') # fm_erase k m)"

definition fm_wf :: "('k::linorder \<times> 'v) list \<Rightarrow> bool" where
  "fm_wf m \<longleftrightarrow> sorted_wrt (<) (map fst m)"

fun fs_insert :: "'a::linorder \<Rightarrow> 'a list \<Rightarrow> 'a list" where
  "fs_insert x [] = [x]"
| "fs_insert x (y # ys) =
     (if x < y then x # y # ys else if x = y then y # ys else y # fs_insert x ys)"

definition fs_wf :: "'a::linorder list \<Rightarrow> bool" where
  "fs_wf xs \<longleftrightarrow> sorted_wrt (<) xs"

lemma fm_wf_simps [simp]:
  "fm_wf []"
  "fm_wf ((k, v) # m) \<longleftrightarrow> (\<forall>k' \<in> fst ` set m. k < k') \<and> fm_wf m"
  by (auto simp: fm_wf_def)

lemma fs_wf_simps [simp]:
  "fs_wf []"
  "fs_wf (x # xs) \<longleftrightarrow> (\<forall>y \<in> set xs. x < y) \<and> fs_wf xs"
  by (auto simp: fs_wf_def)

lemma fst_set_fm_assign [simp]: "fst ` set (fm_assign k v m) = insert k (fst ` set m)"
  by (induction k v m rule: fm_assign.induct) auto

lemma fm_wf_assign [simp]: "fm_wf m \<Longrightarrow> fm_wf (fm_assign k v m)"
  by (induction k v m rule: fm_assign.induct) auto

lemma fm_find_simps [simp]:
  "fm_find k [] = None"
  "fm_find k ((k', v) # m) = (if k = k' then Some v else fm_find k m)"
  by (auto simp: fm_find_def)

lemma fm_find_None_iff: "fm_find k m = None \<longleftrightarrow> k \<notin> fst ` set m"
  by (simp add: fm_find_def map_of_eq_None_iff)

lemma fm_find_Some_in: "fm_find k m = Some v \<Longrightarrow> (k, v) \<in> set m"
  by (simp add: fm_find_def map_of_SomeD)

lemma fm_wf_distinct: "fm_wf m \<Longrightarrow> distinct (map fst m)"
  by (auto simp: fm_wf_def strict_sorted_iff)

lemma fm_find_eq_Some_iff: "fm_wf m \<Longrightarrow> fm_find k m = Some v \<longleftrightarrow> (k, v) \<in> set m"
  by (simp add: fm_find_def fm_wf_distinct)

lemma fm_find_assign: "fm_wf m \<Longrightarrow> fm_find k' (fm_assign k v m) = (if k' = k then Some v else fm_find k' m)"
  by (induction k v m rule: fm_assign.induct) (auto simp: fm_find_None_iff)

lemma fm_erase_subset: "set (fm_erase k m) \<subseteq> set m"
  by (induction k m rule: fm_erase.induct) auto

lemma fm_wf_erase [simp]: "fm_wf m \<Longrightarrow> fm_wf (fm_erase k m)"
  using fm_erase_subset by (induction k m rule: fm_erase.induct) fastforce+

lemma fm_find_below: "\<forall>x \<in> set m. (k :: 'k::linorder) < fst x \<Longrightarrow> fm_find k m = None"
  by (cases "fm_find k m") (auto dest!: fm_find_Some_in)

lemma fm_find_erase: "fm_wf m \<Longrightarrow> fm_find k' (fm_erase k m) = (if k' = k then None else fm_find k' m)"
  by (induction k m rule: fm_erase.induct) (auto simp: fm_find_below)

lemma set_fs_insert [simp]: "set (fs_insert x xs) = insert x (set xs)"
  by (induction x xs rule: fs_insert.induct) auto

lemma fs_wf_insert [simp]: "fs_wf xs \<Longrightarrow> fs_wf (fs_insert x xs)"
  by (induction x xs rule: fs_insert.induct) auto

lemma fs_wf_distinct: "fs_wf xs \<Longrightarrow> distinct xs"
  by (induction xs) auto

lemma fs_insert_last: "fs_wf (xs @ [x]) \<Longrightarrow> fs_insert x xs = xs @ [x]"
  by (induction xs) (auto simp: fs_wf_def)

lemma fm_assign_last: "fm_wf (m @ [(k, v)]) \<Longrightarrow> fm_assign k v m = m @ [(k, v)]"
  by (induction m) (auto simp: fm_wf_def)

subsection \<open>The interface clients rely on\<close>

text \<open>
  What a client of an ordered map uses: an invariant the operations keep, and what \<open>find\<close> returns
  after each of them.
\<close>

locale ordered_map =
  fixes find :: "'k \<Rightarrow> 'm \<Rightarrow> 'v option"
    and assign :: "'k \<Rightarrow> 'v \<Rightarrow> 'm \<Rightarrow> 'm"
    and wf :: "'m \<Rightarrow> bool"
  assumes find_assign: "wf m \<Longrightarrow> find k' (assign k v m) = (if k' = k then Some v else find k' m)"
    and wf_assign: "wf m \<Longrightarrow> wf (assign k v m)"
begin

text \<open>Building a map by assigning to the keys of a list in order: each key gets the value of the function, and no other key changes.\<close>

lemma wf_fold_assign: "wf m \<Longrightarrow> wf (fold (\<lambda>x. assign (key x) (f (key x))) xs m)"
  by (induction xs arbitrary: m) (simp_all add: wf_assign)

lemma find_fold_assign:
  "wf m \<Longrightarrow> find k (fold (\<lambda>x. assign (key x) (f (key x))) xs m) =
    (if k \<in> key ` set xs then Some (f k) else find k m)"
  by (induction xs arbitrary: m) (auto simp: find_assign wf_assign)

end

interpretation flat_map: ordered_map fm_find fm_assign fm_wf
  by unfold_locales (simp_all add: fm_find_assign)

end
