(* ===== verification/Chain_Name.thy ===== *)
theory Chain_Name
  imports Chain_Prelude
begin

text \<open>
  Account, permission and action names (name.hpp, name.cpp): the encoding of up to 13 characters
  in a 64-bit word, its inverse, the normalisation check of \<^verbatim>\<open>name::set\<close> and the prefix of a
  dotted name. The routine \<^verbatim>\<open>boost::algorithm::trim_right_if\<close> is a parameter \<open>trim\<close>, with its
  documented behaviour as the hypothesis \<open>trim_right_law\<close>.
\<close>

section \<open>Definitions\<close>

definition char_to_symbol :: "char \<Rightarrow> u64" where
  "char_to_symbol c =
     (let n = (of_char c :: nat) in
      if 97 \<le> n \<and> n \<le> 122 then of_nat (n - 97 + 6)
      else if 49 \<le> n \<and> n \<le> 53 then of_nat (n - 49 + 1)
      else 0)"

fun string_to_uint64_loop :: "nat \<Rightarrow> u64 \<Rightarrow> string \<Rightarrow> u64" where
  "string_to_uint64_loop i n [] = n"
| "string_to_uint64_loop i n (c # cs) =
     (if i < 12
      then string_to_uint64_loop (Suc i)
             (n OR push_bit (64 - 5 * (i + 1)) (char_to_symbol c AND 0x1f)) cs
      else if i = 12 then n OR (char_to_symbol c AND 0x0f)
      else n)"

definition string_to_uint64_t :: "string \<Rightarrow> u64" where
  "string_to_uint64_t str = string_to_uint64_loop 0 0 str"

definition charmap :: string where
  "charmap = ''.12345abcdefghijklmnopqrstuvwxyz''"

function to_string_loop :: "nat \<Rightarrow> u64 \<Rightarrow> string \<Rightarrow> string" where
  "to_string_loop i tmp str =
     (if i \<le> 12
      then to_string_loop (i + 1) (drop_bit (if i = 0 then 4 else 5) tmp)
             (str[12 - i := charmap ! unat (tmp AND (if i = 0 then 0x0f else 0x1f))])
      else str)"
  by pat_completeness auto
termination
  by (relation "measure (\<lambda>(i, _, _). 13 - i)") auto

type_synonym trim_right_if = "(char \<Rightarrow> bool) \<Rightarrow> string \<Rightarrow> string"

definition is_dot :: "char \<Rightarrow> bool" where
  "is_dot c \<longleftrightarrow> c = CHR ''.''"

definition name_to_string :: "trim_right_if \<Rightarrow> name_value \<Rightarrow> string" where
  "name_to_string trim v = trim is_dot (to_string_loop 0 v (replicate 13 CHR ''.''))"

definition name_set :: "trim_right_if \<Rightarrow> string \<Rightarrow> name_value result" where
  "name_set trim str =
     ebind (sys_assert (length str \<le> 13) name_type_exception) (\<lambda>_.
     let value = string_to_uint64_t str in
     ebind (sys_assert (name_to_string trim value = str) name_type_exception) (\<lambda>_.
     Inr value))"

function name_prefix_loop :: "u64 \<Rightarrow> nat \<Rightarrow> bool \<Rightarrow> u64 \<Rightarrow> u64" where
  "name_prefix_loop v offset not_dot_character_seen msk =
     (if offset \<le> 59 then
        (let c = drop_bit offset v AND msk in
         if c = 0 \<and> not_dot_character_seen then push_bit offset (drop_bit offset v)
         else name_prefix_loop v (if offset = 0 then offset + 4 else offset + 5)
                (not_dot_character_seen \<or> c \<noteq> 0)
                (if offset = 0 then 0x1f else msk))
      else v)"
  by pat_completeness auto
termination
  by (relation "measure (\<lambda>(_, offset, _, _). 60 - offset)") auto

definition name_prefix :: "name_value \<Rightarrow> name_value" where
  "name_prefix v = name_prefix_loop v 0 False 0xf"

declare to_string_loop.simps [simp del] name_prefix_loop.simps [simp del]

section \<open>Specification\<close>

text \<open>The documented behaviour of \<^verbatim>\<open>trim_right_if\<close>: drop the longest suffix that satisfies the predicate.\<close>

definition trim_right_law :: "trim_right_if \<Rightarrow> bool" where
  "trim_right_law trim \<longleftrightarrow> (\<forall>P s. trim P s = rev (dropWhile P (rev s)))"

definition trim_right_ref :: trim_right_if where
  "trim_right_ref P s = rev (dropWhile P (rev s))"

text \<open>The strings \<^verbatim>\<open>name::set\<close> accepts.\<close>

definition name_string_ok :: "string \<Rightarrow> bool" where
  "name_string_ok s \<longleftrightarrow>
     length s \<le> 13 \<and> set s \<subseteq> set charmap \<and>
     (length s = 13 \<longrightarrow> unat (char_to_symbol (s ! 12)) < 16) \<and>
     (s \<noteq> [] \<longrightarrow> \<not> is_dot (last s))"

text \<open>The prefix of a dotted name on its string form: everything before the last dot.\<close>

definition string_prefix :: "string \<Rightarrow> string" where
  "string_prefix s =
     (case dropWhile (\<lambda>c. \<not> is_dot c) (rev s) of
        [] \<Rightarrow> s
      | _ # r \<Rightarrow> rev (dropWhile is_dot r))"

section \<open>Symbols and characters\<close>

lemma trim_right_law_ref: "trim_right_law trim_right_ref"
  by (simp add: trim_right_law_def trim_right_ref_def)

lemma length_charmap [simp]: "length charmap = 32"
  by (simp add: charmap_def)

lemma charmap_symbols: "map (\<lambda>c. unat (char_to_symbol c)) charmap = [0..<32]"
  by code_simp

lemma char_to_symbol_charmap:
  assumes "n < 32"
  shows "unat (char_to_symbol (charmap ! n)) = n"
  using assms charmap_symbols [THEN arg_cong, of "\<lambda>xs. xs ! n"] by (simp del: upt.simps)

lemma char_to_symbol_less: "unat (char_to_symbol c) < 32"
proof -
  have "unat (of_nat n :: u64) < 32" if "n < 32" for n
    using that by (simp add: unat_of_nat)
  then show ?thesis
    unfolding char_to_symbol_def Let_def by (auto simp del: of_nat_add of_nat_diff of_nat_Suc)
qed

lemma charmap_char_to_symbol:
  "c \<in> set charmap \<Longrightarrow> charmap ! unat (char_to_symbol c) = c"
  by (auto simp: in_set_conv_nth char_to_symbol_charmap)

lemma char_to_symbol_dot [simp]: "char_to_symbol CHR ''.'' = 0"
  by (simp add: char_to_symbol_def)

lemma and_31 [simp]: "(x :: u64) AND 31 = take_bit 5 x"
  by (simp add: take_bit_eq_mask mask_eq_exp_minus_1)

lemma and_15 [simp]: "(x :: u64) AND 15 = take_bit 4 x"
  by (simp add: take_bit_eq_mask mask_eq_exp_minus_1)

lemma take_bit_char_to_symbol [simp]: "take_bit 5 (char_to_symbol c) = char_to_symbol c"
  using char_to_symbol_less [of c]
  by (simp add: take_bit_eq_mod word_unat_eq_iff unat_mod)

lemma bit_char_to_symbol: "bit (char_to_symbol c) n \<Longrightarrow> n < 5"
  by (metis bit_take_bit_iff take_bit_char_to_symbol)

section \<open>The encoding loop, bit by bit\<close>

lemma slot_of_bit:
  fixes m i :: nat
  assumes "m < 64" "i < 12"
  shows "59 - 5 * i \<le> m \<and> m - (59 - 5 * i) < 5 \<longleftrightarrow> 4 \<le> m \<and> (63 - m) div 5 = i"
proof -
  have "(63 - m) div 5 = i \<longleftrightarrow> 5 * i \<le> 63 - m \<and> 63 - m < 5 * i + 5"
    by (auto simp: div_nat_eqI)
  with assms show ?thesis by arith
qed

text \<open>The character position that bit \<open>m\<close> belongs to, and the bit within its symbol.\<close>

definition name_slot :: "nat \<Rightarrow> nat" where
  "name_slot m = (if m < 4 then 12 else (63 - m) div 5)"

definition name_slot_bit :: "nat \<Rightarrow> nat" where
  "name_slot_bit m = (if m < 4 then m else m - (59 - 5 * ((63 - m) div 5)))"

lemma bit_string_to_uint64_loop:
  assumes "m < 64"
  shows "bit (string_to_uint64_loop i n cs) m \<longleftrightarrow>
     bit n m \<or>
     (i \<le> name_slot m \<and> name_slot m < i + length cs \<and>
      bit (char_to_symbol (cs ! (name_slot m - i))) (name_slot_bit m))"
proof (induction cs arbitrary: i n)
  case Nil
  then show ?case by auto
next
  case (Cons c cs)
  have shift: "64 - 5 * (i + 1) = 59 - 5 * i" by simp
  consider "i < 12" "name_slot m = i" | "i < 12" "name_slot m \<noteq> i" | "i = 12" | "12 < i"
    by linarith
  then show ?case
  proof cases
    case 1
    then have "4 \<le> m" "(63 - m) div 5 = i" by (auto simp: name_slot_def split: if_splits)
    with 1 assms slot_of_bit [of m i] show ?thesis
      by (simp add: Cons.IH shift bit_or_iff bit_push_bit_iff name_slot_bit_def)
  next
    case 2
    then have "\<not> (4 \<le> m \<and> (63 - m) div 5 = i)" by (auto simp: name_slot_def split: if_splits)
    with 2 assms slot_of_bit [of m i] have "\<not> bit (push_bit (59 - 5 * i) (char_to_symbol c)) m"
      by (auto simp: bit_push_bit_iff dest: bit_char_to_symbol)
    with 2 show ?thesis
      by (auto simp: Cons.IH shift bit_or_iff nth_Cons' Suc_le_eq)
  next
    case 3
    then show ?thesis
      by (auto simp: bit_or_iff bit_take_bit_iff name_slot_def name_slot_bit_def split: if_splits)
  next
    case 4
    then have "\<not> i \<le> name_slot m" by (auto simp: name_slot_def)
    with 4 show ?thesis by simp
  qed
qed

lemma bit_string_to_uint64_t:
  assumes "m < 64"
  shows "bit (string_to_uint64_t cs) m \<longleftrightarrow>
     name_slot m < length cs \<and> bit (char_to_symbol (cs ! name_slot m)) (name_slot_bit m)"
  using bit_string_to_uint64_loop [OF assms, of 0 0 cs] by (simp add: string_to_uint64_t_def)

lemma string_to_uint64_t_append_dots:
  "string_to_uint64_t (cs @ replicate k CHR ''.'') = string_to_uint64_t cs"
  by (rule bit_word_eqI) (auto simp: bit_string_to_uint64_t nth_append)

section \<open>The decoding loop, digit by digit\<close>

text \<open>\<open>name_digit v k\<close> is the symbol number of the \<open>k\<close>-th character, counted from the left.\<close>

definition name_digit :: "u64 \<Rightarrow> nat \<Rightarrow> u64" where
  "name_digit v k = (if k = 12 then take_bit 4 v else take_bit 5 (drop_bit (59 - 5 * k) v))"

definition name_chars :: "u64 \<Rightarrow> string" where
  "name_chars v = map (\<lambda>k. charmap ! unat (name_digit v k)) [0..<13]"

lemma length_name_chars [simp]: "length (name_chars v) = 13"
  by (simp add: name_chars_def)

lemma to_string_loop_step:
  assumes "0 < i" "i \<le> 12"
  shows "to_string_loop i tmp str =
     to_string_loop (Suc i) (drop_bit 5 tmp) (str[12 - i := charmap ! unat (take_bit 5 tmp)])"
  using assms by (subst to_string_loop.simps) simp

lemma to_string_loop_later:
  "0 < i \<Longrightarrow> i \<le> 13 \<Longrightarrow> length str = 13 \<Longrightarrow>
   to_string_loop i (drop_bit (5 * i - 1) v) str =
     map (\<lambda>k. charmap ! unat (name_digit v k)) [0..<13 - i] @ drop (13 - i) str"
proof (induction "13 - i" arbitrary: i str)
  case 0
  then have "i = 13" by simp
  with 0 show ?case by (subst to_string_loop.simps) simp
next
  case (Suc k)
  then have i: "0 < i" "i \<le> 12" and k: "13 - i = Suc k" by auto
  let ?str = "str[12 - i := charmap ! unat (take_bit 5 (drop_bit (5 * i - 1) v))]"
  have "to_string_loop i (drop_bit (5 * i - 1) v) str =
      to_string_loop (Suc i) (drop_bit (5 * Suc i - 1) v) ?str"
    using i by (simp add: to_string_loop_step)
  also have "\<dots> = map (\<lambda>k. charmap ! unat (name_digit v k)) [0..<13 - Suc i] @ drop (13 - Suc i) ?str"
    using Suc i by (intro Suc.hyps(1)) auto
  also have "drop (13 - Suc i) ?str = (?str ! (12 - i)) # drop (13 - i) str"
  proof -
    have "13 - Suc i = 12 - i" "13 - i = Suc (12 - i)" using i by simp_all
    moreover have "12 - i < length ?str" using Suc.prems i by simp
    ultimately show ?thesis by (simp add: Cons_nth_drop_Suc [symmetric] del: Suc_diff_le)
  qed
  also have "?str ! (12 - i) = charmap ! unat (name_digit v (12 - i))"
  proof -
    have "59 - 5 * (12 - i) = 5 * i - 1" "12 - i \<noteq> 12" using i by arith+
    moreover have "12 - i < length str" using Suc.prems i by simp
    ultimately show ?thesis by (simp add: name_digit_def)
  qed
  finally have step: "to_string_loop i (drop_bit (5 * i - 1) v) str =
      map (\<lambda>k. charmap ! unat (name_digit v k)) [0..<13 - Suc i] @
      charmap ! unat (name_digit v (12 - i)) # drop (13 - i) str" .
  show ?case
  proof -
    have "13 - Suc i = 12 - i" "[0..<13 - i] = [0..<12 - i] @ [12 - i]"
      using i by (simp_all add: upt_Suc_append [symmetric] Suc_diff_le [symmetric] del: upt.simps)
    with step show ?thesis by simp
  qed
qed

lemma to_string_loop_chars: "to_string_loop 0 v (replicate 13 CHR ''.'') = name_chars v"
proof -
  have "to_string_loop 0 v (replicate 13 CHR ''.'') =
      to_string_loop 1 (drop_bit (5 * 1 - 1) v)
        ((replicate 13 CHR ''.'')[12 := charmap ! unat (take_bit 4 v)])"
    by (subst to_string_loop.simps) simp
  also have "\<dots> = map (\<lambda>k. charmap ! unat (name_digit v k)) [0..<12] @ [charmap ! unat (take_bit 4 v)]"
    by (subst to_string_loop_later) (auto simp: numeral_eq_Suc)
  also have "\<dots> = name_chars v"
    by (simp add: name_chars_def name_digit_def numeral_eq_Suc)
  finally show ?thesis .
qed


section \<open>Round trips\<close>

lemma unat_name_digit_less: "unat (name_digit v k) < 32"
proof -
  have "unat (take_bit 4 v) < 16" "unat (take_bit 5 w) < 32" for w :: u64
    using take_bit_nat_less_exp [of 4 "unat v"] take_bit_nat_less_exp [of 5 "unat w"]
    by (simp_all add: unsigned_take_bit_eq)
  then show ?thesis by (auto simp: name_digit_def intro: less_trans)
qed

lemma char_to_symbol_name_digit: "char_to_symbol (charmap ! unat (name_digit v k)) = name_digit v k"
  by (simp add: word_unat_eq_iff char_to_symbol_charmap unat_name_digit_less)

lemma name_slot_less: "name_slot m < 13"
  by (auto simp: name_slot_def)

lemma bit_name_digit_slot:
  assumes "m < 64"
  shows "bit (name_digit v (name_slot m)) (name_slot_bit m) = bit v m"
proof (cases "m < 4")
  case True
  then show ?thesis by (simp add: name_slot_def name_slot_bit_def name_digit_def bit_take_bit_iff)
next
  case False
  define k where "k = (63 - m) div 5"
  have k: "k < 12" using assms False by (auto simp: k_def)
  with assms False slot_of_bit [of m k] have "59 - 5 * k \<le> m" "m - (59 - 5 * k) < 5"
    by (auto simp: k_def)
  with k False show ?thesis
    by (simp add: name_slot_def name_slot_bit_def name_digit_def bit_take_bit_iff bit_drop_bit_eq
        flip: k_def)
qed

lemma string_to_uint64_t_name_chars: "string_to_uint64_t (name_chars v) = v"
proof (rule bit_word_eqI)
  fix m assume "m < LENGTH(64)"
  then have "m < 64" by simp
  then show "bit (string_to_uint64_t (name_chars v)) m = bit v m"
    using name_slot_less [of m]
    by (simp add: bit_string_to_uint64_t name_chars_def char_to_symbol_name_digit
        bit_name_digit_slot del: upt.simps)
qed

lemma trim_dots_decomp:
  "\<exists>k. s = rev (dropWhile is_dot (rev s)) @ replicate k CHR ''.''"
proof -
  have "set (takeWhile is_dot (rev s)) \<subseteq> {CHR ''.''}"
    using set_takeWhileD by (fastforce simp: is_dot_def)
  then have "takeWhile is_dot (rev s) = replicate (length (takeWhile is_dot (rev s))) CHR ''.''"
    by (metis replicate_eqI singletonD subsetD)
  then have "rev (takeWhile is_dot (rev s)) = replicate (length (takeWhile is_dot (rev s))) CHR ''.''"
    by (metis rev_replicate)
  moreover have "s = rev (dropWhile is_dot (rev s)) @ rev (takeWhile is_dot (rev s))"
    by (metis rev_append rev_rev_ident takeWhile_dropWhile_id)
  ultimately show ?thesis by metis
qed

lemma name_to_string_eq:
  "trim_right_law trim \<Longrightarrow> name_to_string trim v = rev (dropWhile is_dot (rev (name_chars v)))"
  by (simp add: name_to_string_def trim_right_law_def to_string_loop_chars)

lemma string_to_uint64_t_name_to_string:
  assumes "trim_right_law trim"
  shows "string_to_uint64_t (name_to_string trim v) = v"
  using trim_dots_decomp [of "name_chars v"] string_to_uint64_t_name_chars [of v]
  by (metis assms name_to_string_eq string_to_uint64_t_append_dots)

lemma length_name_to_string:
  "trim_right_law trim \<Longrightarrow> length (name_to_string trim v) \<le> 13"
  using length_dropWhile_le [of is_dot "rev (name_chars v)"] by (simp add: name_to_string_eq)

lemma bit_name_digit_encoded:
  assumes "k < 13"
  shows "name_digit (string_to_uint64_t s) k =
     (if k < length s then (if k = 12 then take_bit 4 else id) (char_to_symbol (s ! k)) else 0)"
proof (rule bit_word_eqI)
  fix n assume "n < LENGTH(64)"
  show "bit (name_digit (string_to_uint64_t s) k) n =
    bit (if k < length s then (if k = 12 then take_bit 4 else id) (char_to_symbol (s ! k)) else 0) n"
  proof (cases "k = 12")
    case True
    then show ?thesis
      by (auto simp: name_digit_def bit_take_bit_iff bit_string_to_uint64_t name_slot_def
          name_slot_bit_def)
  next
    case False
    with assms have k: "k < 12" by simp
    have "name_slot (59 - 5 * k + n) = k \<and> name_slot_bit (59 - 5 * k + n) = n" if "n < 5"
    proof -
      define m where "m = 59 - 5 * k + n"
      have "m < 64" "59 - 5 * k \<le> m" "m - (59 - 5 * k) = n" using k that by (auto simp: m_def)
      with slot_of_bit [of m k] k that have "4 \<le> m" "(63 - m) div 5 = k" by auto
      with \<open>m - (59 - 5 * k) = n\<close> show ?thesis
        by (simp add: name_slot_def name_slot_bit_def flip: m_def)
    qed
    with k show ?thesis
      by (cases "n < 5") (auto simp: name_digit_def bit_take_bit_iff bit_drop_bit_eq
          bit_string_to_uint64_t dest: bit_char_to_symbol)
  qed
qed

lemma name_chars_encoded:
  assumes "length s \<le> 13" "set s \<subseteq> set charmap"
    "length s = 13 \<longrightarrow> unat (char_to_symbol (s ! 12)) < 16"
  shows "name_chars (string_to_uint64_t s) = s @ replicate (13 - length s) CHR ''.''"
proof (rule nth_equalityI)
  show "length (name_chars (string_to_uint64_t s)) = length (s @ replicate (13 - length s) CHR ''.'')"
    using assms(1) by simp
  fix k assume "k < length (name_chars (string_to_uint64_t s))"
  then have k: "k < 13" by simp
  have dot: "charmap ! 0 = CHR ''.''" by (simp add: charmap_def)
  have top: "take_bit 4 (char_to_symbol (s ! 12)) = char_to_symbol (s ! 12)" if "12 < length s"
  proof -
    have "length s = 13" using that assms(1) by simp
    with assms(3) have "unat (char_to_symbol (s ! 12)) < 16" by simp
    then show ?thesis
      by (simp add: take_bit_eq_mod word_unat_eq_iff unat_mod)
  qed
  have "charmap ! unat (char_to_symbol (s ! k)) = s ! k" if "k < length s"
    using assms(2) that nth_mem by (blast intro: charmap_char_to_symbol)
  then show "name_chars (string_to_uint64_t s) ! k = (s @ replicate (13 - length s) CHR ''.'') ! k"
    using k top dot by (auto simp: name_chars_def bit_name_digit_encoded nth_append simp del: upt.simps)
qed


lemma trim_dots_replicate:
  "s = [] \<or> \<not> is_dot (last s) \<Longrightarrow>
   rev (dropWhile is_dot (rev (s @ replicate k CHR ''.''))) = s"
proof -
  assume last: "s = [] \<or> \<not> is_dot (last s)"
  have "dropWhile is_dot (replicate k CHR ''.'' @ rev s) = dropWhile is_dot (rev s)"
    by (induction k) (auto simp: is_dot_def)
  also have "\<dots> = rev s"
    using last by (cases s rule: rev_cases) auto
  finally show ?thesis by simp
qed

lemma name_chars_charmap: "set (name_chars v) \<subseteq> set charmap"
  by (auto simp: name_chars_def unat_name_digit_less simp del: upt.simps)

lemma name_to_string_ok:
  assumes "trim_right_law trim"
  shows "name_string_ok (name_to_string trim v)"
proof -
  let ?s = "name_to_string trim v"
  obtain k where dec: "name_chars v = ?s @ replicate k CHR ''.''"
    using trim_dots_decomp [of "name_chars v"] by (metis assms name_to_string_eq)
  have "unat (char_to_symbol (?s ! 12)) < 16" if "length ?s = 13"
  proof -
    from dec that have "name_chars v = ?s" by (metis append.right_neutral length_append
          length_name_chars add_cancel_left_right length_0_conv)
    moreover have "name_chars v ! 12 = charmap ! unat (take_bit 4 v)"
      by (simp add: name_chars_def name_digit_def del: upt.simps)
    ultimately have "?s ! 12 = charmap ! unat (take_bit 4 v)" by simp
    then show ?thesis
      using take_bit_nat_less_exp [of 4 "unat v"]
      by (simp add: char_to_symbol_charmap unsigned_take_bit_eq)
  qed
  moreover have "?s \<noteq> [] \<longrightarrow> \<not> is_dot (last ?s)"
    by (metis assms hd_dropWhile hd_rev last_rev name_to_string_eq rev_is_Nil_conv)
  moreover have "set ?s \<subseteq> set charmap"
    using dec name_chars_charmap [of v] by (metis Un_subset_iff set_append)
  ultimately show ?thesis
    using length_name_to_string [OF assms] by (auto simp: name_string_ok_def)
qed


section \<open>The prefix loop\<close>

text \<open>Bit offset of the \<open>k\<close>-th character, and the value with all later characters cleared.\<close>

definition name_offset :: "nat \<Rightarrow> nat" where
  "name_offset k = (if k = 12 then 0 else 59 - 5 * k)"

definition name_clear_from :: "u64 \<Rightarrow> nat \<Rightarrow> u64" where
  "name_clear_from v k = push_bit (name_offset k) (drop_bit (name_offset k) v)"

lemma name_prefix_loop_step:
  assumes "k \<le> 12" "m = (if k = 12 then 15 else 31)"
  shows "name_prefix_loop v (name_offset k) seen m =
    (if name_digit v k = 0 \<and> seen then name_clear_from v k
     else if k = 0 then v
     else name_prefix_loop v (name_offset (k - 1)) (seen \<or> name_digit v k \<noteq> 0) 31)"
proof -
  have "name_offset k \<le> 59" by (simp add: name_offset_def)
  moreover have "drop_bit (name_offset k) v AND m = name_digit v k"
    using assms by (simp add: name_digit_def name_offset_def)
  moreover have "(if name_offset k = 0 then name_offset k + 4 else name_offset k + 5) = name_offset (k - 1)"
    if "k \<noteq> 0"
    using assms(1) that by (auto simp: name_offset_def)
  moreover have "name_prefix_loop v 64 s 31 = v" for s by (subst name_prefix_loop.simps) simp
  ultimately show ?thesis
    using assms
    by (subst name_prefix_loop.simps) (auto simp: Let_def name_clear_from_def name_offset_def)
qed

lemma name_digit_clear_from:
  assumes "k \<le> 12" "j \<le> 12"
  shows "name_digit (name_clear_from v k) j = (if j \<le> k then name_digit v j else 0)"
proof (rule bit_word_eqI)
  fix n assume "n < LENGTH(64)"
  have "bit (name_digit w j) n \<longleftrightarrow> n < (if j = 12 then 4 else 5) \<and> bit w (name_offset j + n)" for w
    by (simp add: name_digit_def name_offset_def bit_take_bit_iff bit_drop_bit_eq)
  moreover have "name_offset k \<le> name_offset j" if "j \<le> k"
    using assms that by (auto simp: name_offset_def)
  moreover have "name_offset j + n < name_offset k" if "k < j" "n < (if j = 12 then 4 else 5)"
    using assms that by (auto simp: name_offset_def split: if_splits)
  ultimately show "bit (name_digit (name_clear_from v k) j) n =
      bit (if j \<le> k then name_digit v j else 0) n"
    by (auto simp: name_clear_from_def bit_push_bit_iff bit_drop_bit_eq not_le
        dest: bit_imp_le_length)
qed

lemma charmap_dot_iff: "n < 32 \<Longrightarrow> is_dot (charmap ! n) \<longleftrightarrow> n = 0"
  using char_to_symbol_charmap [of n] by (auto simp: is_dot_def charmap_def)

lemma name_chars_nth: "k \<le> 12 \<Longrightarrow> name_chars v ! k = charmap ! unat (name_digit v k)"
  by (simp add: name_chars_def del: upt.simps)

lemma is_dot_name_chars: "k \<le> 12 \<Longrightarrow> is_dot (name_chars v ! k) \<longleftrightarrow> name_digit v k = 0"
  by (simp add: name_chars_nth charmap_dot_iff unat_name_digit_less word_unat_eq_iff)

lemma name_chars_clear_from:
  assumes "k \<le> 12" "name_digit v k = 0"
  shows "name_chars (name_clear_from v k) = take k (name_chars v) @ replicate (13 - k) CHR ''.''"
proof (rule nth_equalityI)
  show "length (name_chars (name_clear_from v k)) =
      length (take k (name_chars v) @ replicate (13 - k) CHR ''.'')"
    using assms(1) by simp
  fix j assume "j < length (name_chars (name_clear_from v k))"
  then have j: "j \<le> 12" by simp
  have "charmap ! 0 = CHR ''.''" by (simp add: charmap_def)
  with j assms show "name_chars (name_clear_from v k) ! j =
      (take k (name_chars v) @ replicate (13 - k) CHR ''.'') ! j"
    by (cases "j < k"; cases "j = k")
      (auto simp: name_chars_nth name_digit_clear_from nth_append)
qed

text \<open>What the loop returns, in terms of the characters not yet scanned (reversed).\<close>

definition prefix_chars :: "string \<Rightarrow> string \<Rightarrow> string" where
  "prefix_chars cs u =
     (case dropWhile (\<lambda>c. \<not> is_dot c) u of
        [] \<Rightarrow> cs
      | _ # r \<Rightarrow> rev r @ replicate (13 - length r) CHR ''.'')"

lemma name_prefix_loop_chars:
  "k \<le> 12 \<Longrightarrow> m = (if k = 12 then 15 else 31) \<Longrightarrow>
   name_chars (name_prefix_loop v (name_offset k) seen m) =
     prefix_chars (name_chars v)
       ((if seen then id else dropWhile is_dot) (rev (take (Suc k) (name_chars v))))"
proof (induction k arbitrary: seen m)
  case 0
  have "take (Suc 0) (name_chars v) = [name_chars v ! 0]" by (simp add: take_Suc_conv_app_nth)
  moreover have "name_prefix_loop v (name_offset 0) seen m =
      (if name_digit v 0 = 0 \<and> seen then name_clear_from v 0 else v)"
    using 0 by (simp add: name_prefix_loop_step)
  ultimately show ?case
    using name_chars_clear_from [of 0 v] is_dot_name_chars [of 0 v]
    by (cases "name_digit v 0 = 0"; cases seen) (simp_all add: prefix_chars_def)
next
  case (Suc k)
  have u: "rev (take (Suc (Suc k)) (name_chars v)) =
      name_chars v ! Suc k # rev (take (Suc k) (name_chars v))"
    using Suc.prems by (simp add: take_Suc_conv_app_nth)
  have IH: "name_chars (name_prefix_loop v (name_offset k) s 31) =
      prefix_chars (name_chars v)
        ((if s then id else dropWhile is_dot) (rev (take (Suc k) (name_chars v))))" for s
    using Suc by simp
  have step: "name_prefix_loop v (name_offset (Suc k)) seen m =
      (if name_digit v (Suc k) = 0 \<and> seen then name_clear_from v (Suc k)
       else name_prefix_loop v (name_offset k) (seen \<or> name_digit v (Suc k) \<noteq> 0) 31)"
    using name_prefix_loop_step [of "Suc k" m v seen] Suc.prems by simp
  have dot: "is_dot (name_chars v ! Suc k) \<longleftrightarrow> name_digit v (Suc k) = 0"
    using Suc.prems by (simp add: is_dot_name_chars)
  show ?case
  proof (cases "name_digit v (Suc k) = 0 \<and> seen")
    case True
    with Suc.prems(1) name_chars_clear_from [of "Suc k" v] dot show ?thesis
      unfolding step u by (simp add: prefix_chars_def)
  next
    case False
    then show ?thesis
      unfolding step u by (cases seen) (simp_all add: IH dot prefix_chars_def)
  qed
qed

lemma name_to_string_prefix:
  assumes "trim_right_law trim"
  shows "name_to_string trim (name_prefix v) = string_prefix (name_to_string trim v)"
proof -
  let ?cs = "name_chars v"
  let ?t = "dropWhile is_dot (rev ?cs)"
  define d where "d = dropWhile (\<lambda>c. \<not> is_dot c) ?t"
  have "name_chars (name_prefix v) = prefix_chars ?cs ?t"
    using name_prefix_loop_chars [of 12 15 v False] by (simp add: name_prefix_def name_offset_def)
  moreover have "dropWhile is_dot (replicate n CHR ''.'' @ r) = dropWhile is_dot r" for n r
    by (induction n) (auto simp: is_dot_def)
  moreover have "prefix_chars ?cs ?t = (case d of [] \<Rightarrow> ?cs
      | _ # r \<Rightarrow> rev r @ replicate (13 - length r) CHR ''.'')"
    by (simp only: prefix_chars_def d_def)
  moreover have "string_prefix (rev ?t) = (case d of [] \<Rightarrow> rev ?t | _ # r \<Rightarrow> rev (dropWhile is_dot r))"
    by (simp only: string_prefix_def d_def rev_rev_ident)
  ultimately show ?thesis
    by (cases d) (simp_all add: name_to_string_eq [OF assms])
qed

section \<open>Properties\<close>

text \<open>C39. Every 64-bit value prints to a string that \<^verbatim>\<open>name::set\<close> accepts, and reading it back gives the same value.\<close>

theorem name_value_roundtrip:
  assumes "trim_right_law trim"
  shows "name_set trim (name_to_string trim v) = Inr v"
  using assms
  by (simp add: name_set_def string_to_uint64_t_name_to_string length_name_to_string)

theorem name_value_roundtrip_witness:
  "trim_right_law trim_right_ref \<and>
   name_set trim_right_ref (name_to_string trim_right_ref 0xC75EBA8000000000) = Inr 0xC75EBA8000000000"
  using name_value_roundtrip [OF trim_right_law_ref] trim_right_law_ref by blast

text \<open>C40. \<^verbatim>\<open>name::set\<close> accepts exactly the strings of at most 13 characters over the name alphabet, with no trailing dot and a 13th character among the first 16, and stores the encoded value; any other string is a \<^verbatim>\<open>name_type_exception\<close>.\<close>

theorem name_set_exact:
  assumes "trim_right_law trim"
  shows "name_set trim s =
    (if name_string_ok s then Inr (string_to_uint64_t s) else Inl name_type_exception)"
proof (cases "name_string_ok s")
  case True
  then have "name_to_string trim (string_to_uint64_t s) = s"
    using assms name_chars_encoded [of s] trim_dots_replicate [of s]
    by (auto simp: name_string_ok_def name_to_string_eq)
  with True show ?thesis by (simp add: name_set_def name_string_ok_def)
next
  case False
  then have "name_to_string trim (string_to_uint64_t s) \<noteq> s"
    using name_to_string_ok [OF assms, of "string_to_uint64_t s"] by metis
  with False show ?thesis by (simp add: name_set_def ebind_sys_assert)
qed

theorem name_set_exact_witness:
  "trim_right_law trim_right_ref \<and>
   name_set trim_right_ref ''sysio.any'' = Inr (string_to_uint64_t ''sysio.any'') \<and>
   name_set trim_right_ref ''sysio.'' = Inl name_type_exception"
proof -
  have ok: "name_string_ok ''sysio.any''" "\<not> name_string_ok ''sysio.''"
    by (simp_all add: name_string_ok_def charmap_def is_dot_def)
  show ?thesis
    using name_set_exact [OF trim_right_law_ref] ok trim_right_law_ref by simp
qed

text \<open>The prefix of a name, computed on the 64-bit value, is the part of its string before the last dot (the whole name where it has no dot).\<close>

theorem name_prefix_string:
  assumes "trim_right_law trim"
  shows "name_to_string trim (name_prefix v) = string_prefix (name_to_string trim v)"
  using assms by (rule name_to_string_prefix)

theorem name_prefix_string_witness:
  "trim_right_law trim_right_ref \<and>
   name_to_string trim_right_ref (name_prefix 5) = string_prefix (name_to_string trim_right_ref 5)"
  using name_prefix_string [OF trim_right_law_ref] trim_right_law_ref by blast

end
