(* ===== verification/Merkle.thy ===== *)
theory Merkle
  imports Chain_Prelude
begin

text \<open>
  Merkle roots (merkle.cpp, merkle.hpp) and the incremental Merkle tree of block ids
  (incremental_merkle.hpp). The hash of a canonical pair, \<^verbatim>\<open>digest_type::hash\<close>, is a parameter
  \<open>hash\<close> with no assumption on it. The main result: appending digests one at a time keeps in
  \<^verbatim>\<open>_active_nodes\<close> the roots of the complete subtrees, and the root is the one \<^verbatim>\<open>merkle\<close> computes
  from the whole list.
\<close>

type_synonym pair_hash = "digest_type \<times> digest_type \<Rightarrow> digest_type"

section \<open>Canonical pairs and the batch root\<close>

definition make_canonical_left :: "digest_type \<Rightarrow> digest_type" where
  "make_canonical_left val = SHA256 (h0 val AND 0xFFFFFFFFFFFFFF7F) (h1 val) (h2 val) (h3 val)"

definition make_canonical_right :: "digest_type \<Rightarrow> digest_type" where
  "make_canonical_right val = SHA256 (h0 val OR 0x0000000000000080) (h1 val) (h2 val) (h3 val)"

definition is_canonical_left :: "digest_type \<Rightarrow> bool" where
  "is_canonical_left val \<longleftrightarrow> h0 val AND 0x0000000000000080 = 0"

definition is_canonical_right :: "digest_type \<Rightarrow> bool" where
  "is_canonical_right val \<longleftrightarrow> h0 val AND 0x0000000000000080 \<noteq> 0"

definition make_canonical_pair :: "digest_type \<Rightarrow> digest_type \<Rightarrow> digest_type \<times> digest_type" where
  "make_canonical_pair l r = (make_canonical_left l, make_canonical_right r)"

text \<open>The \<^verbatim>\<open>for\<close> loop of \<^verbatim>\<open>merkle\<close>, overwriting the front half of the deque in place.\<close>

function merkle_for :: "pair_hash \<Rightarrow> nat \<Rightarrow> digest_type list \<Rightarrow> digest_type list" where
  "merkle_for hash i ids =
     (if i < length ids div 2
      then merkle_for hash (Suc i)
             (ids[i := hash (make_canonical_pair (ids ! (2 * i)) (ids ! (2 * i + 1)))])
      else ids)"
  by auto
termination by (relation "measure (\<lambda>(hash, i, ids). length ids div 2 - i)") auto

definition merkle_level :: "pair_hash \<Rightarrow> digest_type list \<Rightarrow> digest_type list" where
  "merkle_level hash ids =
     (let ids = (if length ids mod 2 \<noteq> 0 then ids @ [last ids] else ids);
          ids = merkle_for hash 0 ids
      in take (length ids div 2) ids)"

declare merkle_for.simps [simp del]

lemma length_merkle_for [simp]: "length (merkle_for hash i ids) = length ids"
  by (induction hash i ids rule: merkle_for.induct) (subst merkle_for.simps, simp)

lemma length_merkle_level: "length (merkle_level hash ids) = (length ids + 1) div 2"
  by (simp add: merkle_level_def Let_def) (auto elim!: oddE)

function merkle_while :: "pair_hash \<Rightarrow> digest_type list \<Rightarrow> digest_type list" where
  "merkle_while hash ids =
     (if length ids > 1 then merkle_while hash (merkle_level hash ids) else ids)"
  by auto
termination
  by (relation "measure (\<lambda>(hash, ids). length ids)") (auto simp: length_merkle_level)

declare merkle_while.simps [simp del]

definition merkle :: "pair_hash \<Rightarrow> digest_type list \<Rightarrow> digest_type" where
  "merkle hash ids = (if length ids = 0 then zero_digest else hd (merkle_while hash ids))"

section \<open>The incremental tree\<close>

definition next_power_of_2 :: "u64 \<Rightarrow> u64" where
  "next_power_of_2 value =
     (let value = value - 1;
          value = value OR drop_bit 1 value;
          value = value OR drop_bit 2 value;
          value = value OR drop_bit 4 value;
          value = value OR drop_bit 8 value;
          value = value OR drop_bit 16 value;
          value = value OR drop_bit 32 value
      in value + 1)"

definition clz_power_2 :: "u64 \<Rightarrow> int" where
  "clz_power_2 value =
     (let lz = 64;
          lz = (if value \<noteq> 0 then lz - 1 else lz);
          lz = (if value AND 0x00000000FFFFFFFF \<noteq> 0 then lz - 32 else lz);
          lz = (if value AND 0x0000FFFF0000FFFF \<noteq> 0 then lz - 16 else lz);
          lz = (if value AND 0x00FF00FF00FF00FF \<noteq> 0 then lz - 8 else lz);
          lz = (if value AND 0x0F0F0F0F0F0F0F0F \<noteq> 0 then lz - 4 else lz);
          lz = (if value AND 0x3333333333333333 \<noteq> 0 then lz - 2 else lz);
          lz = (if value AND 0x5555555555555555 \<noteq> 0 then lz - 1 else lz)
      in lz)"

definition calcluate_max_depth :: "u64 \<Rightarrow> int" where
  "calcluate_max_depth node_count =
     (if node_count = 0 then 0 else clz_power_2 (next_power_of_2 node_count) + 1)"

record incremental_merkle =
  node_count :: u64
  active_nodes :: "digest_type list"

definition empty_incremental_merkle :: incremental_merkle where
  "empty_incremental_merkle = \<lparr>node_count = 0, active_nodes = []\<rparr>"

text \<open>
  The \<^verbatim>\<open>while\<close> loop of \<^verbatim>\<open>append\<close>, by recursion on \<^verbatim>\<open>current_depth\<close>. Reading \<^verbatim>\<open>*active_iter\<close> at
  the end of the container is undefined behaviour.
\<close>

fun append_loop ::
  "pair_hash \<Rightarrow> nat \<Rightarrow> u64 \<Rightarrow> bool \<Rightarrow> digest_type \<Rightarrow> digest_type list \<Rightarrow> digest_type list
   \<Rightarrow> (digest_type \<times> digest_type list) result" where
  "append_loop hash 0 index partial top_node active_iter updated = Inr (top_node, updated)"
| "append_loop hash (Suc depth) index partial top_node active_iter updated =
     (if index AND 1 = 0
      then append_loop hash depth (drop_bit 1 index) True (hash (make_canonical_pair top_node top_node))
             active_iter (if \<not> partial then updated @ [top_node] else updated)
      else (case active_iter of
              [] \<Rightarrow> Inl undefined_behaviour
            | left_value # active_iter \<Rightarrow>
                append_loop hash depth (drop_bit 1 index) partial
                  (hash (make_canonical_pair left_value top_node)) active_iter
                  (if partial then updated @ [left_value] else updated)))"

definition imk_append ::
  "pair_hash \<Rightarrow> digest_type \<Rightarrow> incremental_merkle \<Rightarrow> (digest_type \<times> incremental_merkle) result"
where
  "imk_append hash digest s =
     (let max_depth = calcluate_max_depth (node_count s + 1);
          current_depth = max_depth - 1
      in ebind (append_loop hash (nat current_depth) (node_count s) False digest (active_nodes s) [])
           (\<lambda>(top_node, updated).
             let updated = updated @ [top_node];
                 s' = \<lparr>node_count = node_count s + 1, active_nodes = updated\<rparr>
             in Inr (last (active_nodes s'), s')))"

definition get_root :: "incremental_merkle \<Rightarrow> digest_type" where
  "get_root s = (if node_count s > 0 then last (active_nodes s) else zero_digest)"

text \<open>Appending a list of digests, left to right.\<close>

definition imk_append_all ::
  "pair_hash \<Rightarrow> digest_type list \<Rightarrow> incremental_merkle \<Rightarrow> incremental_merkle result" where
  "imk_append_all hash = efold (\<lambda>x s. ebind (imk_append hash x s) (\<lambda>(root, s'). Inr s'))"

section \<open>Pairing as a list function\<close>

text \<open>\<open>pair_up\<close> hashes the complete pairs of a level and drops an odd last element.\<close>

fun pair_up :: "pair_hash \<Rightarrow> digest_type list \<Rightarrow> digest_type list" where
  "pair_up hash (l # r # ids) = hash (make_canonical_pair l r) # pair_up hash ids"
| "pair_up hash ids = []"

lemma length_pair_up [simp]: "length (pair_up hash ids) = length ids div 2"
  by (induction hash ids rule: pair_up.induct) auto

lemma pair_up_append:
  "even (length xs) \<Longrightarrow> pair_up hash (xs @ ys) = pair_up hash xs @ pair_up hash ys"
  by (induction hash xs rule: pair_up.induct) auto

lemma pair_up_odd_last:
  "even (length xs) \<Longrightarrow> pair_up hash (xs @ [x]) = pair_up hash xs"
  by (simp add: pair_up_append)

lemma pair_up_take_Suc:
  assumes "i < length ids div 2"
  shows "pair_up hash (take (2 * Suc i) ids) =
    pair_up hash (take (2 * i) ids) @ [hash (make_canonical_pair (ids ! (2 * i)) (ids ! (2 * i + 1)))]"
proof -
  have "take (2 * Suc i) ids = take (2 * i) ids @ [ids ! (2 * i), ids ! (2 * i + 1)]"
    using assms by (simp add: take_Suc_conv_app_nth)
  then show ?thesis using assms by (simp add: pair_up_append)
qed

text \<open>Iteration \<open>i\<close> reads positions \<open>2 i\<close> and \<open>2 i + 1\<close>, which earlier iterations have not overwritten.\<close>

lemma merkle_for_invariant:
  assumes "i \<le> length orig div 2"
    and "ids = pair_up hash (take (2 * i) orig) @ drop i orig"
  shows "take (length orig div 2) (merkle_for hash i ids) = pair_up hash (take (2 * (length orig div 2)) orig)"
  using assms
proof (induction "length orig div 2 - i" arbitrary: i ids)
  case 0
  then have "i = length orig div 2" "length ids = length orig" by auto
  with 0 show ?case by (subst merkle_for.simps) simp
next
  case (Suc n)
  then have i: "i < length orig div 2" by simp
  have len: "length ids = length orig" using Suc.prems by auto
  have nth: "ids ! j = orig ! j" if "i \<le> j" "j < length orig" for j
    using Suc.prems that by (simp add: nth_append)
  let ?v = "hash (make_canonical_pair (orig ! (2 * i)) (orig ! (2 * i + 1)))"
  have "ids[i := ?v] = pair_up hash (take (2 * i) orig) @ ?v # drop (Suc i) orig"
    using Suc.prems i by (simp add: list_update_append Cons_nth_drop_Suc [symmetric])
  also have "\<dots> = pair_up hash (take (2 * Suc i) orig) @ drop (Suc i) orig"
    using pair_up_take_Suc [OF i] by simp
  finally have "take (length orig div 2) (merkle_for hash (Suc i) (ids[i := ?v])) =
      pair_up hash (take (2 * (length orig div 2)) orig)"
    using Suc i by (intro Suc.hyps(1)) auto
  moreover have "merkle_for hash i ids = merkle_for hash (Suc i) (ids[i := ?v])"
    using i len nth [of "2 * i"] nth [of "2 * i + 1"] by (subst merkle_for.simps) simp
  ultimately show ?case by simp
qed

lemma merkle_for_pair_up:
  "even (length ids) \<Longrightarrow> take (length ids div 2) (merkle_for hash 0 ids) = pair_up hash ids"
  using merkle_for_invariant [of 0 ids ids hash] by simp

lemma merkle_level_even:
  "even (length ids) \<Longrightarrow> merkle_level hash ids = pair_up hash ids"
  by (simp add: merkle_level_def merkle_for_pair_up)

lemma merkle_level_odd:
  assumes "even (length ids)"
  shows "merkle_level hash (ids @ [x]) = pair_up hash ids @ [hash (make_canonical_pair x x)]"
proof -
  have "Suc (length ids) mod 2 \<noteq> 0" using assms by presburger
  then show ?thesis
    using merkle_for_pair_up [of "ids @ [x, x]" hash] assms
    by (simp add: merkle_level_def Let_def pair_up_append)
qed

lemma merkle_singleton [simp]: "merkle hash [x] = x"
  by (simp add: merkle_def merkle_while.simps [of hash "[x]"])

lemma merkle_step: "1 < length ids \<Longrightarrow> merkle hash ids = merkle hash (merkle_level hash ids)"
  using length_merkle_level [of hash ids]
  by (auto simp: merkle_def merkle_while.simps [of hash ids])

section \<open>Depth of the tree\<close>

fun bit_len :: "nat \<Rightarrow> nat" where
  "bit_len n = (if n = 0 then 0 else Suc (bit_len (n div 2)))"

declare bit_len.simps [simp del]

lemma bit_len_0 [simp]: "bit_len 0 = 0"
  by (simp add: bit_len.simps)

lemma bit_len_pos: "0 < n \<Longrightarrow> bit_len n = Suc (bit_len (n div 2))"
  by (simp add: bit_len.simps [of n])

lemma bit_len_eq_0 [simp]: "bit_len n = 0 \<longleftrightarrow> n = 0"
  by (cases "n = 0") (simp_all add: bit_len_pos)

lemma less_exp_bit_len: "n < 2 ^ bit_len n"
proof (induction n rule: bit_len.induct)
  case (1 n)
  then show ?case by (cases "n = 0") (auto simp: bit_len_pos)
qed

lemma bit_bit_len: "0 < n \<Longrightarrow> bit n (bit_len n - 1)"
proof (induction n rule: bit_len.induct)
  case (1 n)
  show ?case
  proof (cases "n div 2 = 0")
    case True
    with 1 have "n = 1" by arith
    then show ?thesis by (simp add: bit_len_pos bit_0)
  next
    case False
    with 1 have "bit (n div 2) (bit_len (n div 2) - 1)" by simp
    moreover have "bit_len n - 1 = Suc (bit_len (n div 2) - 1)"
      using False 1 by (simp add: bit_len_pos [of n] bit_len_pos [of "n div 2"])
    ultimately show ?thesis by (simp only: bit_Suc)
  qed
qed

lemma exp_bit_len_le: "0 < n \<Longrightarrow> 2 ^ (bit_len n - 1) \<le> n"
  using bit_bit_len [of n] by (metis bit_iff_odd div_less even_zero not_le)

lemma bit_less_bit_len: "bit n i \<Longrightarrow> i < bit_len n"
  using less_exp_bit_len [of n]
  by (metis bit_iff_odd div_less dvd_0_right less_le_trans not_le one_le_numeral power_increasing)

lemma bit_len_unat_le: "bit_len (unat (v :: u64)) \<le> 64"
proof (cases "unat v = 0")
  case False
  then have "bit v (bit_len (unat v) - 1)"
    using bit_bit_len [of "unat v"] by (simp add: bit_unsigned_iff)
  then have "bit_len (unat v) - 1 < 64" using bit_imp_le_length by fastforce
  then show ?thesis by simp
qed simp

text \<open>Each \<^verbatim>\<open>value |= value >> k\<close> doubles the distance over which set bits are smeared downwards.\<close>

lemma smear_step:
  fixes s v :: u64
  assumes "\<And>i. bit s i \<longleftrightarrow> (\<exists>j<k. bit v (i + j))"
  shows "bit (s OR drop_bit k s) i \<longleftrightarrow> (\<exists>j<2 * k. bit v (i + j))"
proof -
  have "(\<exists>j<2 * k. bit v (i + j)) \<longleftrightarrow> (\<exists>j<k. bit v (i + j)) \<or> (\<exists>j<k. bit v (k + i + j))"
  proof (intro iffI; elim disjE exE conjE)
    fix j assume j: "j < 2 * k" "bit v (i + j)"
    show "(\<exists>j<k. bit v (i + j)) \<or> (\<exists>j<k. bit v (k + i + j))"
    proof (cases "j < k")
      case False
      with j have "j - k < k" "bit v (k + i + (j - k))" by (simp_all add: algebra_simps)
      then show ?thesis by blast
    qed (use j in blast)
  next
    fix j assume "j < k" "bit v (k + i + j)"
    then show "\<exists>j<2 * k. bit v (i + j)" by (intro exI [of _ "k + j"]) (simp add: algebra_simps)
  next
    fix j assume "j < k" "bit v (i + j)"
    then show "\<exists>j<2 * k. bit v (i + j)" by (intro exI [of _ j]) simp
  qed
  then show ?thesis by (simp add: bit_or_iff bit_drop_bit_eq assms add.commute add.left_commute)
qed

lemma next_power_of_2_exp:
  assumes "n \<noteq> 0"
  shows "next_power_of_2 n = 2 ^ bit_len (unat (n - 1))"
proof -
  define v where "v = n - 1"
  define s1 where "s1 = v OR drop_bit 1 v"
  define s2 where "s2 = s1 OR drop_bit 2 s1"
  define s3 where "s3 = s2 OR drop_bit 4 s2"
  define s4 where "s4 = s3 OR drop_bit 8 s3"
  define s5 where "s5 = s4 OR drop_bit 16 s4"
  define s6 where "s6 = s5 OR drop_bit 32 s5"
  have "bit v i \<longleftrightarrow> (\<exists>j<1. bit v (i + j))" for i by simp
  from smear_step [of v 1 v, OF this] have 1: "bit s1 i \<longleftrightarrow> (\<exists>j<2. bit v (i + j))" for i by (simp add: s1_def)
  from smear_step [of s1 2 v, OF this] have 2: "bit s2 i \<longleftrightarrow> (\<exists>j<4. bit v (i + j))" for i by (simp add: s2_def)
  from smear_step [of s2 4 v, OF this] have 3: "bit s3 i \<longleftrightarrow> (\<exists>j<8. bit v (i + j))" for i by (simp add: s3_def)
  from smear_step [of s3 8 v, OF this] have 4: "bit s4 i \<longleftrightarrow> (\<exists>j<16. bit v (i + j))" for i by (simp add: s4_def)
  from smear_step [of s4 16 v, OF this] have 5: "bit s5 i \<longleftrightarrow> (\<exists>j<32. bit v (i + j))" for i by (simp add: s5_def)
  from smear_step [of s5 32 v, OF this] have 6: "bit s6 i \<longleftrightarrow> (\<exists>j<64. bit v (i + j))" for i by (simp add: s6_def)
  have top_bit: "bit v j \<Longrightarrow> j < bit_len (unat v)" for j
    using bit_less_bit_len [of "unat v" j] bit_imp_le_length [of v j] by (auto simp: bit_unsigned_iff)
  have "bit s6 i \<longleftrightarrow> i < bit_len (unat v)" for i
  proof
    assume "bit s6 i" then show "i < bit_len (unat v)" using 6 top_bit by fastforce
  next
    assume i: "i < bit_len (unat v)"
    then have "bit v (i + (bit_len (unat v) - 1 - i))"
      using bit_bit_len [of "unat v"] by (cases "unat v = 0") (auto simp: bit_unsigned_iff)
    moreover have "bit_len (unat v) - 1 - i < 64" using i bit_len_unat_le [of v] by simp
    ultimately show "bit s6 i" using 6 by blast
  qed
  then have "s6 = mask (bit_len (unat v))"
    using bit_len_unat_le [of v] by (intro bit_word_eqI) (auto simp: bit_mask_iff)
  then have "s6 + 1 = 2 ^ bit_len (unat v)" by (simp add: mask_eq_exp_minus_1)
  then show ?thesis
    by (simp add: next_power_of_2_def Let_def v_def s1_def s2_def s3_def s4_def s5_def s6_def)
qed

lemma clz_power_2_exp: "k \<le> 64 \<Longrightarrow> clz_power_2 (2 ^ k) = int k"
proof -
  have "list_all (\<lambda>k. clz_power_2 (2 ^ k) = int k) [0..<65]"
    by (simp add: clz_power_2_def upt_conv_Cons)
  then show "k \<le> 64 \<Longrightarrow> clz_power_2 (2 ^ k) = int k" by (auto simp: list_all_iff)
qed

lemma max_depth_bit_len:
  "n \<noteq> 0 \<Longrightarrow> calcluate_max_depth n = int (bit_len (unat (n - 1))) + 1"
  by (simp add: calcluate_max_depth_def next_power_of_2_exp clz_power_2_exp bit_len_unat_le)

section \<open>Appending\<close>

text \<open>
  The complete subtrees of a list of leaves that a later append will need, from the lowest level
  up: one for each set bit of the number of leaves.
\<close>

function left_roots :: "pair_hash \<Rightarrow> digest_type list \<Rightarrow> digest_type list" where
  "left_roots hash ids =
     (if ids = [] then []
      else if odd (length ids) then last ids # left_roots hash (pair_up hash ids)
      else left_roots hash (pair_up hash ids))"
  by auto
termination by (relation "measure (\<lambda>(hash, ids). length ids)") auto

declare left_roots.simps [simp del]

lemma left_roots_Nil [simp]: "left_roots hash [] = []"
  by (simp add: left_roots.simps)

lemma left_roots_even:
  "even (length ids) \<Longrightarrow> left_roots hash ids = left_roots hash (pair_up hash ids)"
  by (cases "ids = []") (simp_all add: left_roots.simps [of hash ids])

lemma left_roots_snoc:
  "even (length ids) \<Longrightarrow> left_roots hash (ids @ [x]) = x # left_roots hash (pair_up hash ids)"
  by (simp add: left_roots.simps [of hash "ids @ [x]"] pair_up_odd_last)

lemma left_roots_single [simp]: "left_roots hash [x] = [x]"
  using left_roots_snoc [of "[]" hash x] by simp

lemmas level_simps =
  left_roots_even left_roots_snoc merkle_level_even merkle_level_odd pair_up_append

lemma merkle_snoc_even:
  assumes "even (length ids)" "ids \<noteq> []"
  shows "merkle hash (ids @ [x]) = merkle hash (pair_up hash ids @ [hash (make_canonical_pair x x)])"
  using assms merkle_step [of "ids @ [x]" hash] by (simp add: merkle_level_odd)

lemma merkle_snoc_odd:
  assumes "even (length ids)"
  shows "merkle hash (ids @ [l, x]) = merkle hash (pair_up hash ids @ [hash (make_canonical_pair l x)])"
  using assms merkle_step [of "ids @ [l, x]" hash] by (simp add: merkle_level_even pair_up_append)

lemma word_and_1_eq_0: "(w :: u64) AND 1 = 0 \<longleftrightarrow> even (unat w)"
  by (simp add: and_one_eq even_iff_mod_2_eq_zero word_unat_eq_iff unat_mod)

text \<open>
  The loop invariant: at each level, \<open>ids\<close> are the complete nodes to the left of the current one,
  \<open>index\<close> is their number, and the unread active nodes start with their left roots.
\<close>

lemma append_loop_correct:
  assumes "unat index = length ids" and "active = left_roots hash ids @ rest"
  shows "\<exists>upd rest'. append_loop hash (bit_len (length ids)) index partial x active updated =
      Inr (merkle hash (ids @ [x]), upd) \<and>
    upd @ [merkle hash (ids @ [x])] =
      updated @ left_roots hash (if partial then ids else ids @ [x]) @ rest'"
  using assms
proof (induction "length ids" arbitrary: ids index partial x active updated rest rule: less_induct)
  case less
  show ?case
  proof (cases "ids = []")
    case True
    then show ?thesis by (cases partial) simp_all
  next
    case False
    then have depth: "bit_len (length ids) = Suc (bit_len (length ids div 2))"
      by (simp add: bit_len_pos)
    have index': "unat (drop_bit 1 index) = length ids div 2"
      using less.prems(1) by (simp add: drop_bit_eq_div unat_div)
    have parity: "index AND 1 = 0 \<longleftrightarrow> even (length ids)"
      using less.prems(1) by (simp add: word_and_1_eq_0)
    show ?thesis
    proof (cases "even (length ids)")
      case True
      have small: "length (pair_up hash ids) < length ids" using False by simp
      show ?thesis
        using less.hyps [OF small, of "drop_bit 1 index" active rest True
            "hash (make_canonical_pair x x)" "if partial then updated else updated @ [x]"]
          less.prems(2) index' True False parity depth
        by (cases partial) (simp_all add: level_simps merkle_snoc_even)
    next
      case False
      obtain ids' l where ids: "ids = ids' @ [l]" using \<open>ids \<noteq> []\<close> by (metis rev_exhaust)
      with False have ev: "even (length ids')" by simp
      then have len: "length ids div 2 = length (pair_up hash ids')" using ids by simp
      then have small: "length (pair_up hash ids') < length ids" using ids by simp
      show ?thesis
        using less.hyps [OF small, of "drop_bit 1 index" "left_roots hash (pair_up hash ids') @ rest" rest
            partial "hash (make_canonical_pair l x)" "if partial then updated @ [l] else updated"]
          less.prems(2) index' ev False parity depth len ids
        by (cases partial) (simp_all add: level_simps merkle_snoc_odd)
    qed
  qed
qed

text \<open>\<open>imk_inv\<close>: what \<^verbatim>\<open>_node_count\<close> and \<^verbatim>\<open>_active_nodes\<close> say of the leaves appended so far.\<close>

definition imk_inv :: "pair_hash \<Rightarrow> digest_type list \<Rightarrow> incremental_merkle \<Rightarrow> bool" where
  "imk_inv hash ids s \<longleftrightarrow>
     unat (node_count s) = length ids \<and>
     (\<exists>rest. active_nodes s = left_roots hash ids @ rest) \<and>
     (ids \<noteq> [] \<longrightarrow> active_nodes s \<noteq> [] \<and> last (active_nodes s) = merkle hash ids)"

lemma imk_inv_empty: "imk_inv hash [] empty_incremental_merkle"
  by (simp add: imk_inv_def empty_incremental_merkle_def)

lemma imk_append_inv:
  assumes "imk_inv hash ids s" and "length ids < 2 ^ 64 - 1"
  obtains s' where "imk_append hash x s = Inr (merkle hash (ids @ [x]), s')"
    and "imk_inv hash (ids @ [x]) s'"
proof -
  from assms(1) obtain rest where s: "unat (node_count s) = length ids"
      "active_nodes s = left_roots hash ids @ rest"
    by (auto simp: imk_inv_def)
  have count: "unat (node_count s + 1) = Suc (length ids)"
    using s(1) assms(2) by (simp add: unat_word_ariths)
  then have "node_count s + 1 \<noteq> 0" by (metis nat.distinct(1) unat_0)
  then have depth: "nat (calcluate_max_depth (node_count s + 1) - 1) = bit_len (length ids)"
    using s(1) by (simp add: max_depth_bit_len)
  obtain upd rest' where
    "append_loop hash (bit_len (length ids)) (node_count s) False x (active_nodes s) [] =
       Inr (merkle hash (ids @ [x]), upd)"
    "upd @ [merkle hash (ids @ [x])] = left_roots hash (ids @ [x]) @ rest'"
    using append_loop_correct [OF s, of False x "[]"] by auto
  moreover from this(2) have "last (left_roots hash (ids @ [x]) @ rest') = merkle hash (ids @ [x])"
    by (metis last_snoc)
  ultimately show ?thesis
    using count by (intro that) (auto simp: imk_append_def depth imk_inv_def Let_def)
qed

lemma imk_append_all_inv:
  assumes "imk_inv hash ids s" and "length ids + length xs < 2 ^ 64"
  shows "\<exists>s'. imk_append_all hash xs s = Inr s' \<and> imk_inv hash (ids @ xs) s'"
  using assms
proof (induction xs arbitrary: ids s)
  case Nil
  then show ?case by (simp add: imk_append_all_def)
next
  case (Cons x xs)
  then obtain s' where "imk_append hash x s = Inr (merkle hash (ids @ [x]), s')"
    and "imk_inv hash (ids @ [x]) s'"
    by (auto intro: imk_append_inv [of hash ids s x])
  with Cons.IH [of "ids @ [x]" s'] Cons.prems(2) show ?case
    by (simp add: imk_append_all_def)
qed

lemma get_root_inv: "imk_inv hash ids s \<Longrightarrow> get_root s = merkle hash ids"
  by (cases "ids = []") (auto simp: imk_inv_def get_root_def merkle_def word_gt_0 unat_eq_0)

section \<open>Properties\<close>

text \<open>C26. The incremental tree and the batch computation agree: appending any list of fewer than 2^64 digests one by one, starting from the empty tree, never reads past the active nodes, and leaves a tree whose root is the Merkle root of the whole list.\<close>

theorem incremental_root_is_merkle:
  assumes "length ids < 2 ^ 64"
  shows "\<exists>s. imk_append_all hash ids empty_incremental_merkle = Inr s \<and>
    get_root s = merkle hash ids \<and> unat (node_count s) = length ids"
  using imk_append_all_inv [OF imk_inv_empty, of ids hash] assms get_root_inv
  by (fastforce simp: imk_inv_def)

text \<open>A pair hash to evaluate examples with.\<close>

definition sample_hash :: pair_hash where
  "sample_hash = (\<lambda>(l, r). SHA256 (3 * h0 l + h0 r) (h1 l + 5 * h1 r) 7 (h3 l))"

theorem incremental_root_is_merkle_witness:
  "\<exists>s. imk_append_all sample_hash [SHA256 1 2 3 4, SHA256 5 6 7 8, SHA256 9 10 11 12]
       empty_incremental_merkle = Inr s \<and>
     get_root s = merkle sample_hash [SHA256 1 2 3 4, SHA256 5 6 7 8, SHA256 9 10 11 12] \<and>
     unat (node_count s) = 3"
  using incremental_root_is_merkle
    [of "[SHA256 1 2 3 4, SHA256 5 6 7 8, SHA256 9 10 11 12]" sample_hash]
  by (simp add: numeral_3_eq_3)

text \<open>\<^verbatim>\<open>calcluate_max_depth\<close> is the depth of the smallest balanced binary tree with that many leaves, for every non-zero 64-bit count, also where the next power of two does not fit in 64 bits.\<close>

theorem max_depth_least:
  assumes "count \<noteq> 0"
  shows "\<exists>d. calcluate_max_depth count = int d + 1 \<and> unat count \<le> 2 ^ d \<and>
    (\<forall>e<d. 2 ^ e < unat count)"
proof -
  let ?n = "unat (count - 1)"
  have count: "unat count = Suc ?n"
    using assms by (metis unat_minus_one Suc_diff_1 unat_gt_0)
  have "2 ^ e < unat count" if "e < bit_len ?n" for e
  proof -
    have "0 < ?n" using that by (metis bit_len_0 gr0I not_less_zero)
    moreover have "(2 :: nat) ^ e \<le> 2 ^ (bit_len ?n - 1)" using that by simp
    ultimately show ?thesis using exp_bit_len_le [of ?n] count by linarith
  qed
  then show ?thesis
    using max_depth_bit_len [OF assms] less_exp_bit_len [of ?n] count by (metis Suc_leI)
qed

theorem max_depth_least_witness:
  "(18446744073709551615 :: u64) \<noteq> 0 \<and>
   (\<exists>d. calcluate_max_depth 18446744073709551615 = int d + 1 \<and>
      unat (18446744073709551615 :: u64) \<le> 2 ^ d \<and>
      (\<forall>e<d. 2 ^ e < unat (18446744073709551615 :: u64)))"
  using max_depth_least [of 18446744073709551615] by simp

text \<open>The two halves of a canonical pair are told apart by one bit: a left half always passes \<^verbatim>\<open>is_canonical_left\<close>, a right half always passes \<^verbatim>\<open>is_canonical_right\<close>, so the two are never equal, and the other 255 bits of the digest are kept.\<close>

theorem canonical_pair_sides:
  "(case make_canonical_pair l r of (l', r') \<Rightarrow>
      is_canonical_left l' \<and> \<not> is_canonical_right l' \<and>
      is_canonical_right r' \<and> \<not> is_canonical_left r' \<and> l' \<noteq> r' \<and>
      make_canonical_right l' = make_canonical_right l \<and>
      make_canonical_left r' = make_canonical_left r)"
proof -
  have l: "(w AND 0xFFFFFFFFFFFFFF7F) AND 0x80 = 0" for w :: u64
    by (simp add: and.assoc)
  have r: "(w OR 0x80) AND 0x80 = 0x80" for w :: u64
    by (rule bit_word_eqI) (auto simp: bit_and_iff bit_or_iff)
  have ones: "(0xFFFFFFFFFFFFFFFF :: u64) = - 1" by simp
  have lr: "(w AND 0xFFFFFFFFFFFFFF7F) OR 0x80 = w OR 0x80" for w :: u64
    by (simp add: bit.disj_conj_distrib2 ones)
  have rl: "(w OR 0x80) AND 0xFFFFFFFFFFFFFF7F = w AND 0xFFFFFFFFFFFFFF7F" for w :: u64
    by (simp add: bit.conj_disj_distrib2)
  have ne: "v AND 0xFFFFFFFFFFFFFF7F \<noteq> w OR 0x80" for v w :: u64
  proof
    assume "v AND 0xFFFFFFFFFFFFFF7F = w OR 0x80"
    then have "(0 :: u64) = 0x80" using l [of v] r [of w] by (simp only:)
    then show False by simp
  qed
  show ?thesis
    using l r lr rl ne
    by (auto simp: make_canonical_pair_def make_canonical_left_def make_canonical_right_def
        is_canonical_left_def is_canonical_right_def)
qed

end
