(* ===== verification/Block_Time.thy ===== *)
theory Block_Time
  imports Chain_Prelude
begin

text \<open>
  Block timestamps (block_timestamp.hpp): the slot number of a time point and back. A
  \<^verbatim>\<open>fc::time_point\<close> is a signed 64-bit count of microseconds, here an integer; the
  conversion to a slot mixes it with the unsigned epoch and wraps as the code does.
\<close>

section \<open>Definitions\<close>

definition block_interval_ms :: nat where
  "block_interval_ms = 500"

definition block_timestamp_epoch :: u64 where
  "block_timestamp_epoch = 946684800000"

record block_timestamp =
  slot :: u32

definition block_timestamp_of_slot :: "u32 \<Rightarrow> block_timestamp" where
  "block_timestamp_of_slot s = \<lparr>slot = s\<rparr>"

definition block_timestamp_maximum :: block_timestamp where
  "block_timestamp_maximum = \<lparr>slot = 0xffff\<rparr>"

definition block_timestamp_min :: block_timestamp where
  "block_timestamp_min = \<lparr>slot = 0\<rparr>"

definition block_timestamp_next :: "block_timestamp \<Rightarrow> block_timestamp result" where
  "block_timestamp_next t =
     ebind (sys_assert (0xFFFFFFFF - slot t \<ge> 1) overflow_exception)
       (\<lambda>_. Inr (t \<lparr>slot := slot t + 1\<rparr>))"

text \<open>\<^verbatim>\<open>operator fc::time_point\<close>: the slot is widened to 64 bits, and the sum is a count of milliseconds.\<close>

definition to_time_point :: "block_timestamp \<Rightarrow> int" where
  "to_time_point t = (uint (slot t) * int block_interval_ms + uint block_timestamp_epoch) * 1000"

text \<open>Division of the signed count truncates towards zero; the subtraction and division after it are unsigned.\<close>

definition trunc_div :: "int \<Rightarrow> int \<Rightarrow> int" where
  "trunc_div a b = sgn a * (\<bar>a\<bar> div b)"

definition of_time_point :: "int \<Rightarrow> block_timestamp" where
  "of_time_point micro_since_epoch =
     (let msec_since_epoch = (of_int (trunc_div micro_since_epoch 1000) :: u64)
      in \<lparr>slot = ucast ((msec_since_epoch - block_timestamp_epoch) div of_nat block_interval_ms)\<rparr>)"

definition of_time_point_sec :: "u32 \<Rightarrow> block_timestamp" where
  "of_time_point_sec t =
     (let sec_since_epoch = (ucast t :: u64)
      in \<lparr>slot = ucast ((sec_since_epoch * 1000 - block_timestamp_epoch) div of_nat block_interval_ms)\<rparr>)"

section \<open>Arithmetic\<close>

lemma to_time_point_bounds:
  "0 \<le> to_time_point t" "to_time_point t < 2 ^ 63"
proof -
  have "uint (slot t) < 2 ^ LENGTH(32)" by (rule unsigned_less)
  then show "0 \<le> to_time_point t" "to_time_point t < 2 ^ 63"
    by (simp_all add: to_time_point_def block_interval_ms_def block_timestamp_epoch_def)
qed

lemma uint_of_int_small: "0 \<le> k \<Longrightarrow> k < 2 ^ 64 \<Longrightarrow> uint (of_int k :: u64) = k"
  by (simp add: unsigned_of_int take_bit_int_eq_self)

lemma of_time_point_slot:
  assumes "uint block_timestamp_epoch * 1000 \<le> us" and "us < 2 ^ 63"
  shows "slot (of_time_point us) = of_int ((us div 1000 - uint block_timestamp_epoch) div 500)"
proof -
  let ?e = "uint block_timestamp_epoch"
  let ?ms = "of_int (us div 1000) :: u64"
  have ms: "uint ?ms = us div 1000" "?e \<le> us div 1000"
    using assms by (auto simp: uint_of_int_small block_timestamp_epoch_def)
  then have "uint (?ms - block_timestamp_epoch) = us div 1000 - ?e"
    by (simp add: uint_sub_if' word_le_def)
  then have "uint ((?ms - block_timestamp_epoch) div 500) = (us div 1000 - ?e) div 500"
    by (simp add: uint_div)
  then have "ucast ((?ms - block_timestamp_epoch) div 500) = (of_int ((us div 1000 - ?e) div 500) :: u32)"
    by (metis of_int_uint)
  moreover have "trunc_div us 1000 = us div 1000"
    using assms(1) by (simp add: trunc_div_def block_timestamp_epoch_def)
  ultimately show ?thesis by (simp add: of_time_point_def block_interval_ms_def Let_def)
qed

lemma slot_floor_arith:
  fixes us d m e q r :: int
  assumes "us = 1000 * d + m" "0 \<le> m" "m < 1000" "d - e = 500 * q + r" "0 \<le> r" "r < 500"
  shows "(q * 500 + e) * 1000 \<le> us \<and> us < (q * 500 + e) * 1000 + 500000"
proof -
  have "d = 500 * q + r + e" using assms(4) by simp
  with assms show ?thesis by auto
qed

section \<open>Properties\<close>

text \<open>A slot converted to a time point and back is the same slot, for every 32-bit slot, and the time point of a slot never overflows 63 bits.\<close>

theorem slot_roundtrip:
  "of_time_point (to_time_point t) = t \<and> 0 \<le> to_time_point t \<and> to_time_point t < 2 ^ 63"
proof -
  have "slot (of_time_point (to_time_point t)) = of_int (uint (slot t))"
    using of_time_point_slot [of "to_time_point t"] to_time_point_bounds [of t]
    by (simp add: to_time_point_def block_interval_ms_def block_timestamp_epoch_def)
  then show ?thesis using to_time_point_bounds [of t] by (simp add: block_timestamp.equality)
qed

text \<open>A time point from the year 2000 up to the last slot is rounded down to the start of its half-second slot.\<close>

theorem slot_floor:
  assumes "uint block_timestamp_epoch * 1000 \<le> us"
    and "us < to_time_point \<lparr>slot = 0xFFFFFFFF\<rparr> + 500000"
  shows "to_time_point (of_time_point us) \<le> us \<and> us < to_time_point (of_time_point us) + 500000"
proof -
  let ?q = "(us div 1000 - uint block_timestamp_epoch) div 500"
  have q: "0 \<le> ?q" "?q < 2 ^ 32"
    using assms by (simp_all add: to_time_point_def block_interval_ms_def block_timestamp_epoch_def)
  have "slot (of_time_point us) = of_int ?q"
    using assms by (intro of_time_point_slot)
      (simp_all add: to_time_point_def block_interval_ms_def block_timestamp_epoch_def)
  then have "uint (slot (of_time_point us)) = ?q"
    using q by (simp add: unsigned_of_int take_bit_int_eq_self)
  moreover have "(?q * 500 + uint block_timestamp_epoch) * 1000 \<le> us \<and>
      us < (?q * 500 + uint block_timestamp_epoch) * 1000 + 500000"
    by (rule slot_floor_arith [where d = "us div 1000" and m = "us mod 1000"
          and r = "(us div 1000 - uint block_timestamp_epoch) mod 500"]) simp_all
  ultimately show ?thesis by (simp add: to_time_point_def block_interval_ms_def)
qed

theorem slot_floor_witness:
  "to_time_point (of_time_point 1600000000123456) \<le> 1600000000123456 \<and>
   1600000000123456 < to_time_point (of_time_point 1600000000123456) + 500000"
  by (rule slot_floor)
    (simp_all add: to_time_point_def block_interval_ms_def block_timestamp_epoch_def)

text \<open>\<^verbatim>\<open>next\<close> advances by one slot, and fails with \<^verbatim>\<open>overflow_exception\<close> exactly at the last 32-bit slot: it never wraps.\<close>

theorem next_exact:
  "(case block_timestamp_next t of
      Inl e \<Rightarrow> e = overflow_exception \<and> slot t = 0xFFFFFFFF
    | Inr t' \<Rightarrow> unat (slot t') = unat (slot t) + 1)"
proof -
  have "(0xFFFFFFFF :: u32) = - 1" by simp
  then have le: "slot t \<le> 0xFFFFFFFF" by (metis word_n1_ge)
  then have room: "unat (0xFFFFFFFF - slot t) = 4294967295 - unat (slot t)" by (simp add: unat_sub)
  have "unat (slot t) \<le> 4294967295" using unat_u32_less [of "slot t"] by simp
  moreover have "slot t = 0xFFFFFFFF \<longleftrightarrow> unat (slot t) = 4294967295" by (simp add: word_unat_eq_iff)
  moreover have "0xFFFFFFFF - slot t \<ge> 1 \<longleftrightarrow> 4294967295 - unat (slot t) \<ge> 1"
    using room by (simp add: word_le_nat_alt)
  ultimately show ?thesis
    by (auto simp: block_timestamp_next_def ebind_sys_assert unat_word_ariths)
qed

end
