(* ===== verification/Raw_Pack.thy ===== *)
theory Raw_Pack
  imports Chain_Prelude
begin

text \<open>
  The binary serialisation the node hashes, stores and sends (libfc: raw.hpp, datastream.hpp,
  container_detail.hpp). Packing is a function to the bytes written or an error; unpacking consumes
  a prefix of the bytes that remain in the stream. Each overload of \<^verbatim>\<open>fc::raw::pack\<close> and
  \<^verbatim>\<open>fc::raw::unpack\<close> is one definition; the ones for templates take the element's overload as
  an argument. The locale \<open>raw_codec\<close> is the contract of a pair of overloads, and every type
  built here is an instance of it.
\<close>

type_synonym 'a packer = "'a \<Rightarrow> bytes result"
type_synonym 'a unpacker = "bytes \<Rightarrow> ('a \<times> bytes) result"

definition max_num_array_elements :: nat where
  "max_num_array_elements = 1024 * 1024"

definition max_size_of_byte_arrays :: nat where
  "max_size_of_byte_arrays = 20 * 1024 * 1024"

section \<open>Streams\<close>

definition ds_read :: "nat \<Rightarrow> bytes unpacker" where
  "ds_read n s = (if n \<le> length s then Inr (take n s, drop n s) else Inl out_of_range)"

fun ds_get :: "u8 unpacker" where
  "ds_get [] = Inl out_of_range"
| "ds_get (c # s) = Inr (c, s)"

definition ubind :: "'a unpacker \<Rightarrow> ('a \<Rightarrow> 'b unpacker) \<Rightarrow> 'b unpacker" where
  "ubind u f s = ebind (u s) (\<lambda>(x, s'). f x s')"

definition ureturn :: "'a \<Rightarrow> 'a unpacker" where
  "ureturn x s = Inr (x, s)"

definition uassert :: "bool \<Rightarrow> unit unpacker" where
  "uassert c s = ebind (sys_assert c assert_exception) (\<lambda>_. Inr ((), s))"

definition pseq :: "bytes result \<Rightarrow> bytes result \<Rightarrow> bytes result" where
  "pseq a b = ebind a (\<lambda>x. ebind b (\<lambda>y. Inr (x @ y)))"

declare ubind_def [simp]

lemma ureturn_simp [simp]: "ureturn x s = Inr (x, s)"
  by (simp add: ureturn_def)

lemma uassert_simp [simp]: "uassert c s = (if c then Inr ((), s) else Inl assert_exception)"
  by (simp add: uassert_def ebind_sys_assert)

lemma pseq_Inr_iff: "pseq a b = Inr bs \<longleftrightarrow> (\<exists>x y. a = Inr x \<and> b = Inr y \<and> bs = x @ y)"
  by (auto simp: pseq_def ebind_Inr_iff)

lemma ds_read_append [simp]: "length bs = n \<Longrightarrow> ds_read n (bs @ rest) = Inr (bs, rest)"
  by (simp add: ds_read_def)

section \<open>Fixed-width integers\<close>

text \<open>Scalars are written as they are in memory.\<close>

definition pack_word :: "'a::len word packer" where
  "pack_word w = Inr (le_bytes (LENGTH('a) div 8) w)"

definition unpack_word :: "'a::len word unpacker" where
  "unpack_word = ubind (ds_read (LENGTH('a) div 8)) (\<lambda>bs. ureturn (le_word bs))"

definition pack_bool :: "bool packer" where
  "pack_bool v = pack_word (if v then 1 else 0 :: u8)"

definition unpack_bool :: "bool unpacker" where
  "unpack_bool = ubind unpack_word (\<lambda>b :: u8.
     ubind (uassert (b AND NOT 1 = 0)) (\<lambda>_. ureturn (b \<noteq> 0)))"

section \<open>Variable-length integers\<close>

lemma unat_drop_bit_less:
  "drop_bit n (w :: 'a::len word) \<noteq> 0 \<Longrightarrow> 0 < n \<Longrightarrow> unat (drop_bit n w) < unat w"
proof -
  assume "drop_bit n w \<noteq> 0" "0 < n"
  moreover from this have "unat w \<noteq> 0" by (metis drop_bit_of_0 unat_eq_zero)
  moreover have "1 < (2 :: nat) ^ n" using \<open>0 < n\<close> by (intro one_less_power) auto
  ultimately show ?thesis by (simp only: unat_drop_bit_eq drop_bit_eq_div [of n "unat w"]) simp
qed

function varint_bytes :: "'a::len word \<Rightarrow> bytes" where
  "varint_bytes val =
     (let b = (ucast val :: u8) AND 0x7f;
          val' = drop_bit 7 val;
          b = b OR (if val' > 0 then 0x80 else 0)
      in if val' \<noteq> 0 then b # varint_bytes val' else [b])"
  by auto
termination
  by (relation "measure unat") (auto simp: unat_drop_bit_less)

declare varint_bytes.simps [simp del]

definition pack_unsigned_int :: "u32 packer" where
  "pack_unsigned_int v = Inr (varint_bytes (ucast v :: u64))"

text \<open>\<open>by\<close> is less than 32 at every shift: the loop runs again only while it is.\<close>

fun unpack_unsigned_loop :: "nat \<Rightarrow> u64 \<Rightarrow> u64 unpacker" where
  "unpack_unsigned_loop shift v [] = Inl out_of_range"
| "unpack_unsigned_loop shift v (b # s) =
     (let v = v OR ucast (push_bit shift (ucast (b AND 0x7f) :: u32));
          shift = shift + 7
      in if b AND 0x80 \<noteq> 0 \<and> shift < 32 then unpack_unsigned_loop shift v s else Inr (v, s))"

definition unpack_unsigned_int :: "u32 unpacker" where
  "unpack_unsigned_int = ubind (unpack_unsigned_loop 0 0) (\<lambda>v. ureturn (ucast v))"

text \<open>
  Signed integers are 32-bit words in two's complement. Their loop has no bound on the shift, and
  a shift by 32 or more is undefined.
\<close>

definition zigzag :: "u32 \<Rightarrow> u32" where
  "zigzag v = push_bit 1 v XOR signed_drop_bit 31 v"

definition unzigzag :: "u32 \<Rightarrow> u32" where
  "unzigzag v = ucast ((ucast (drop_bit 1 v) :: u64) XOR (ucast (NOT (v AND 1)) + 1))"

definition pack_signed_int :: "u32 packer" where
  "pack_signed_int v = Inr (varint_bytes (zigzag v))"

fun unpack_signed_loop :: "nat \<Rightarrow> u32 \<Rightarrow> u32 unpacker" where
  "unpack_signed_loop shift v [] = Inl out_of_range"
| "unpack_signed_loop shift v (b # s) =
     (if shift \<ge> 32 then Inl undefined_behaviour
      else (let v = v OR push_bit shift (ucast (b AND 0x7f))
            in if b AND 0x80 \<noteq> 0 then unpack_signed_loop (shift + 7) v s else Inr (v, s)))"

definition unpack_signed_int :: "u32 unpacker" where
  "unpack_signed_int = ubind (unpack_signed_loop 0 0) (\<lambda>v. ureturn (unzigzag v))"

section \<open>Containers\<close>

definition pack_bytes :: "bytes packer" where
  "pack_bytes value =
     ebind (sys_assert (length value \<le> max_size_of_byte_arrays) assert_exception)
       (\<lambda>_. pseq (pack_unsigned_int (of_nat (length value))) (Inr value))"

definition unpack_bytes :: "bytes unpacker" where
  "unpack_bytes = ubind unpack_unsigned_int (\<lambda>size.
     ubind (uassert (unat size \<le> max_size_of_byte_arrays)) (\<lambda>_. ds_read (unat size)))"

text \<open>\<^verbatim>\<open>std::string\<close>, a sequence of bytes.\<close>

definition pack_string :: "bytes packer" where
  "pack_string v =
     ebind (sys_assert (length v \<le> max_size_of_byte_arrays) assert_exception)
       (\<lambda>_. pseq (pack_unsigned_int (of_nat (length v))) (Inr v))"

definition unpack_string :: "bytes unpacker" where
  "unpack_string = ubind unpack_bytes (\<lambda>tmp. ureturn (if tmp \<noteq> [] then tmp else []))"

definition pack_optional :: "'a packer \<Rightarrow> 'a option packer" where
  "pack_optional pk v = pseq (pack_bool (v \<noteq> None)) (case v of Some x \<Rightarrow> pk x | None \<Rightarrow> Inr [])"

definition unpack_optional :: "'a unpacker \<Rightarrow> 'a option unpacker" where
  "unpack_optional unp = ubind unpack_bool (\<lambda>b.
     if b then ubind unp (\<lambda>x. ureturn (Some x)) else ureturn None)"

definition pack_pair :: "'a packer \<Rightarrow> 'b packer \<Rightarrow> ('a \<times> 'b) packer" where
  "pack_pair pk1 pk2 v = pseq (pk1 (fst v)) (pk2 (snd v))"

definition unpack_pair :: "'a unpacker \<Rightarrow> 'b unpacker \<Rightarrow> ('a \<times> 'b) unpacker" where
  "unpack_pair unp1 unp2 = ubind unp1 (\<lambda>x. ubind unp2 (\<lambda>y. ureturn (x, y)))"

fun pack_items :: "'a packer \<Rightarrow> 'a list packer" where
  "pack_items pk [] = Inr []"
| "pack_items pk (x # xs) = pseq (pk x) (pack_items pk xs)"

fun unpack_items :: "'a unpacker \<Rightarrow> nat \<Rightarrow> 'a list unpacker" where
  "unpack_items unp 0 = ureturn []"
| "unpack_items unp (Suc n) = ubind unp (\<lambda>x. ubind (unpack_items unp n) (\<lambda>xs. ureturn (x # xs)))"

definition pack_vector :: "'a packer \<Rightarrow> 'a list packer" where
  "pack_vector pk value =
     ebind (sys_assert (length value \<le> max_num_array_elements) assert_exception)
       (\<lambda>_. pseq (pack_unsigned_int (of_nat (length value))) (pack_items pk value))"

definition unpack_vector :: "'a unpacker \<Rightarrow> 'a list unpacker" where
  "unpack_vector unp = ubind unpack_unsigned_int (\<lambda>size.
     ubind (uassert (unat size \<le> max_num_array_elements)) (\<lambda>_. unpack_items unp (unat size)))"

text \<open>Sets and maps are packed in key order; unpacking inserts one element at a time.\<close>

definition pack_set :: "'a packer \<Rightarrow> 'a list packer" where
  "pack_set pk value =
     ebind (sys_assert (length value \<le> max_num_array_elements) assert_exception)
       (\<lambda>_. pseq (pack_unsigned_int (of_nat (length value))) (pack_items pk value))"

fun unpack_set_items :: "'a::linorder unpacker \<Rightarrow> nat \<Rightarrow> 'a list \<Rightarrow> 'a list unpacker" where
  "unpack_set_items unp 0 value = ureturn value"
| "unpack_set_items unp (Suc n) value =
     ubind unp (\<lambda>tmp. unpack_set_items unp n (fs_insert tmp value))"

definition unpack_set :: "'a::linorder unpacker \<Rightarrow> 'a list unpacker" where
  "unpack_set unp = ubind unpack_unsigned_int (\<lambda>size.
     ubind (uassert (unat size \<le> max_num_array_elements)) (\<lambda>_. unpack_set_items unp (unat size) []))"

definition pack_map :: "'k packer \<Rightarrow> 'v packer \<Rightarrow> ('k \<times> 'v) list packer" where
  "pack_map pk pv value =
     ebind (sys_assert (length value \<le> max_num_array_elements) assert_exception)
       (\<lambda>_. pseq (pack_unsigned_int (of_nat (length value))) (pack_items (pack_pair pk pv) value))"

fun unpack_map_items ::
  "'k::linorder unpacker \<Rightarrow> 'v unpacker \<Rightarrow> nat \<Rightarrow> ('k \<times> 'v) list \<Rightarrow> ('k \<times> 'v) list unpacker" where
  "unpack_map_items uk uv 0 value = ureturn value"
| "unpack_map_items uk uv (Suc n) value =
     ubind (unpack_pair uk uv) (\<lambda>(k, v). unpack_map_items uk uv n (snd (fm_emplace k v value)))"

definition unpack_map :: "'k::linorder unpacker \<Rightarrow> 'v unpacker \<Rightarrow> ('k \<times> 'v) list unpacker" where
  "unpack_map uk uv = ubind unpack_unsigned_int (\<lambda>size.
     ubind (uassert (unat size \<le> max_num_array_elements)) (\<lambda>_. unpack_map_items uk uv (unat size) []))"

text \<open>\<^verbatim>\<open>fc::array<char, N>\<close> and \<^verbatim>\<open>sha256\<close> are written without a length.\<close>

definition pack_array :: "bytes packer" where
  "pack_array v = Inr v"

definition unpack_array :: "nat \<Rightarrow> bytes unpacker" where
  "unpack_array n = ds_read n"

definition pack_sha256 :: "sha256 packer" where
  "pack_sha256 d = Inr (sha256_data d)"

definition unpack_sha256 :: "sha256 unpacker" where
  "unpack_sha256 = ubind (ds_read 32) (\<lambda>bs. ureturn
     (SHA256 (le_word (take 8 bs)) (le_word (take 8 (drop 8 bs)))
        (le_word (take 8 (drop 16 bs))) (le_word (drop 24 bs))))"

section \<open>Scalars read back\<close>

lemma unpack_word_pack:
  assumes "8 dvd LENGTH('a::len)" and "pack_word (w :: 'a word) = Inr bs"
  shows "unpack_word (bs @ rest) = Inr (w, rest)"
  using assms by (auto simp: pack_word_def unpack_word_def le_word_bytes_full)

lemma bit_less_bound:
  "unat (w :: 'a::len word) < 2 ^ m \<Longrightarrow> bit w j \<Longrightarrow> j < m"
proof -
  assume "unat w < 2 ^ m" "bit w j"
  then have "bit (unat w) j" "take_bit m (unat w) = unat w"
    using bit_imp_le_length [of w j] by (simp_all add: bit_unsigned_iff take_bit_nat_eq_self)
  then show "j < m" by (metis bit_take_bit_iff)
qed

lemma varint_byte:
  fixes b :: u8
  shows "(b AND 0x7f) AND 0x7f = take_bit 7 b" "(b AND 0x7f OR 0x80) AND 0x7f = take_bit 7 b"
    and "(b AND 0x7f OR 0x80) AND 0x80 \<noteq> 0" "(b AND 0x7f) AND 0x80 = 0"
proof -
  have "(0x7f :: u8) = mask 7" by (simp add: mask_eq_exp_minus_1)
  then have m: "take_bit 7 b = b AND 0x7f" by (simp add: take_bit_eq_mask)
  show "(b AND 0x7f) AND 0x7f = take_bit 7 b" "(b AND 0x7f OR 0x80) AND 0x7f = take_bit 7 b"
    by (simp_all add: m bit.conj_disj_distrib2)
  show "(b AND 0x7f OR 0x80) AND 0x80 \<noteq> 0" by (simp add: bit.conj_disj_distrib2)
  show "(b AND 0x7f) AND 0x80 = 0" by (simp add: and.assoc)
qed

lemma varint_bytes_cases:
  fixes w :: "'a::len word"
  obtains (last) b where "drop_bit 7 w = 0" "varint_bytes w = [b]"
      "b AND 0x80 = 0" "b AND 0x7f = take_bit 7 (ucast w)"
  | (more) b where "drop_bit 7 w \<noteq> 0" "varint_bytes w = b # varint_bytes (drop_bit 7 w)"
      "b AND 0x80 \<noteq> 0" "b AND 0x7f = take_bit 7 (ucast w)"
proof (cases "drop_bit 7 w = 0")
  case True
  show ?thesis
    by (rule last [OF True _ varint_byte(4) varint_byte(1)]) (simp add: varint_bytes.simps [of w] True)
next
  case False
  show ?thesis
    by (rule more [OF False _ varint_byte(3) varint_byte(2)])
      (simp add: varint_bytes.simps [of w] False word_greater_zero_iff)
qed

lemma varint_split:
  "v OR push_bit n w = (v OR push_bit n (take_bit 7 w)) OR push_bit (n + 7) (drop_bit 7 (w :: 'a::len word))"
proof (rule bit_word_eqI)
  fix i
  have "7 + (i - (n + 7)) = i - n" if "n + 7 \<le> i" using that by simp
  then show "bit (v OR push_bit n w) i =
      bit ((v OR push_bit n (take_bit 7 w)) OR push_bit (n + 7) (drop_bit 7 w)) i"
    by (cases "n + 7 \<le> i") (auto simp: bit_or_iff bit_push_bit_iff bit_take_bit_iff bit_drop_bit_eq)
qed

lemma drop_bit_7_bound:
  assumes "unat (w :: 'a::len word) < 2 ^ (32 - n)"
  shows "unat (drop_bit 7 w) < 2 ^ (32 - (n + 7))"
proof -
  have "(2 :: nat) ^ (32 - n) \<le> 2 ^ ((32 - (n + 7)) + 7)" by (intro power_increasing) auto
  with assms have "unat w < 2 ^ (32 - (n + 7)) * 2 ^ 7" by (simp only: power_add)
  then show ?thesis
    by (simp only: unat_drop_bit_eq drop_bit_eq_div [of 7 "unat w"]) (rule less_mult_imp_div_less)
qed

lemma drop_bit_7_zero:
  "unat (w :: 'a::len word) < 2 ^ (32 - n) \<Longrightarrow> 32 \<le> n + 7 \<Longrightarrow> drop_bit 7 w = 0"
  by (rule bit_word_eqI) (auto simp: bit_drop_bit_eq dest!: bit_less_bound)

lemma unpack_unsigned_varint:
  fixes w :: u64
  assumes "unat w < 2 ^ (32 - n)" and "n < 32"
  shows "unpack_unsigned_loop n v (varint_bytes w @ rest) = Inr (v OR push_bit n w, rest)"
  using assms
proof (induction w arbitrary: n v rule: varint_bytes.induct)
  case (1 w)
  have chunk: "ucast (push_bit n (ucast (take_bit 7 (ucast w) :: u8)) :: u32) = push_bit n (take_bit 7 w)"
    using "1.prems"
    by (intro bit_word_eqI)
      (auto simp: bit_push_bit_iff bit_take_bit_iff bit_ucast_iff dest: bit_less_bound)
  show ?case
  proof (cases w rule: varint_bytes_cases)
    case (last b)
    then have "take_bit 7 w = w"
      using bits_ident [of 7 w] by simp
    with last chunk show ?thesis by simp
  next
    case (more b)
    then have "n + 7 < 32" using drop_bit_7_zero [OF "1.prems"(1)] by linarith
    with more chunk 1 drop_bit_7_bound [OF "1.prems"(1)] show ?thesis
      by (simp add: varint_split [of v n w])
  qed
qed

lemma unpack_signed_varint:
  fixes w :: u32
  assumes "unat w < 2 ^ (32 - n)" and "n < 32"
  shows "unpack_signed_loop n v (varint_bytes w @ rest) = Inr (v OR push_bit n w, rest)"
  using assms
proof (induction w arbitrary: n v rule: varint_bytes.induct)
  case (1 w)
  have chunk: "push_bit n (ucast (take_bit 7 (ucast w) :: u8)) = push_bit n (take_bit 7 w)"
    by (intro bit_word_eqI) (auto simp: bit_push_bit_iff bit_take_bit_iff bit_ucast_iff)
  show ?case
  proof (cases w rule: varint_bytes_cases)
    case (last b)
    then have "take_bit 7 w = w" using bits_ident [of 7 w] by simp
    with last chunk "1.prems" show ?thesis by simp
  next
    case (more b)
    then have "n + 7 < 32" using drop_bit_7_zero [OF "1.prems"(1)] by linarith
    with more chunk 1 drop_bit_7_bound [OF "1.prems"(1)] show ?thesis
      by (simp add: varint_split [of v n w])
  qed
qed

lemma signed_drop_bit_31: "signed_drop_bit 31 (v :: u32) = (if bit v 31 then - 1 else 0)"
  by (rule bit_word_eqI) (auto simp: bit_signed_drop_bit_iff Suc_le_eq)

lemma unzigzag_zigzag: "unzigzag (zigzag v) = v"
proof -
  have zz: "bit (zigzag v) i \<longleftrightarrow> i < 32 \<and> (1 \<le> i \<and> bit v (i - 1)) \<noteq> bit v 31" for i
    by (auto simp: zigzag_def signed_drop_bit_31 bit_xor_iff bit_push_bit_iff
        simp del: push_bit_Suc One_nat_def dest: bit_imp_le_length)
  have mask: "ucast ((ucast (NOT (z AND 1)) :: u64) + 1) = (if bit z 0 then - 1 else 0 :: u32)" for z :: u32
  proof -
    have not: "NOT 1 = (0xFFFFFFFE :: u32)" "NOT 0 = (0xFFFFFFFF :: u32)" by simp_all
    have "z AND 1 = (if bit z 0 then 1 else 0)" by (simp add: and_one_eq bit_0 mod2_eq_if)
    then show ?thesis by (cases "bit z 0") (simp_all only: not if_True if_False, simp_all)
  qed
  have "unzigzag z = drop_bit 1 z XOR (if bit z 0 then - 1 else 0)" for z
    using mask [of z]
    by (intro bit_word_eqI) (simp add: unzigzag_def bit_ucast_iff bit_xor_iff bit_eq_iff)
  then have "bit (unzigzag (zigzag v)) n = bit v n" if "n < 32" for n
    using that by (cases "n = 31") (auto simp: zz bit_xor_iff bit_drop_bit_eq)
  then show ?thesis by (intro bit_word_eqI) simp
qed

section \<open>The contract of a serialiser\<close>

text \<open>
  For every well-formed value, unpacking reads back exactly the bytes that packing wrote, and
  leaves the rest of the stream.
\<close>

locale raw_codec =
  fixes ok :: "'a \<Rightarrow> bool" and pk :: "'a packer" and unp :: "'a unpacker"
  assumes unp_pk: "ok v \<Longrightarrow> pk v = Inr bs \<Longrightarrow> unp (bs @ rest) = Inr (v, rest)"
begin

lemma pk_prefix_free:
  assumes "ok v" "ok w" "pk v = Inr bs" "pk w = Inr cs" "bs @ xs = cs @ ys"
  shows "v = w \<and> xs = ys"
  using unp_pk [OF assms(1,3), of xs] unp_pk [OF assms(2,4), of ys] assms(5) by simp

lemma pk_inject: "ok v \<Longrightarrow> ok w \<Longrightarrow> pk v = Inr bs \<Longrightarrow> pk w = Inr bs \<Longrightarrow> v = w"
  using pk_prefix_free [of v w bs bs "[]" "[]"] by simp

lemma unpack_items_pack:
  "list_all ok xs \<Longrightarrow> pack_items pk xs = Inr bs \<Longrightarrow>
   unpack_items unp (length xs) (bs @ rest) = Inr (xs, rest)"
proof (induction xs arbitrary: bs)
  case (Cons x xs)
  then obtain b c where "pk x = Inr b" "pack_items pk xs = Inr c" "bs = b @ c"
    by (auto simp: pseq_Inr_iff)
  with Cons unp_pk [of x b "c @ rest"] show ?case by simp
qed simp

end

lemmas raw_codecI = raw_codec.intro

interpretation word8_codec: raw_codec "\<lambda>_. True" "pack_word :: u8 packer" unpack_word
  by (rule raw_codecI) (simp add: unpack_word_pack)

interpretation word16_codec: raw_codec "\<lambda>_. True" "pack_word :: u16 packer" unpack_word
  by (rule raw_codecI) (simp add: unpack_word_pack)

interpretation word32_codec: raw_codec "\<lambda>_. True" "pack_word :: u32 packer" unpack_word
  by (rule raw_codecI) (simp add: unpack_word_pack)

interpretation word64_codec: raw_codec "\<lambda>_. True" "pack_word :: u64 packer" unpack_word
  by (rule raw_codecI) (simp add: unpack_word_pack)

interpretation bool_codec: raw_codec "\<lambda>_. True" pack_bool unpack_bool
  by (rule raw_codecI)
    (auto simp: pack_bool_def unpack_bool_def word8_codec.unp_pk [OF TrueI] split: if_splits)

interpretation unsigned_codec: raw_codec "\<lambda>_. True" pack_unsigned_int unpack_unsigned_int
proof (rule raw_codecI)
  fix v bs rest
  assume "pack_unsigned_int v = Inr bs"
  moreover have "unat v < 2 ^ LENGTH(32)" by (rule unsigned_less)
  then have "unat (ucast v :: u64) < 2 ^ (32 - 0)"
    by (simp add: unsigned_ucast_eq take_bit_nat_eq_self)
  moreover have "ucast (ucast v :: u64) = v" by (rule bit_word_eqI) (simp add: bit_ucast_iff)
  ultimately show "unpack_unsigned_int (bs @ rest) = Inr (v, rest)"
    using unpack_unsigned_varint [of "ucast v" 0 0 rest]
    by (auto simp: pack_unsigned_int_def unpack_unsigned_int_def)
qed

interpretation signed_codec: raw_codec "\<lambda>_. True" pack_signed_int unpack_signed_int
proof (rule raw_codecI)
  fix v bs rest
  assume "pack_signed_int v = Inr bs"
  moreover have "unat (zigzag v) < 2 ^ (32 - 0)" using unsigned_less [of "zigzag v"] by simp
  ultimately show "unpack_signed_int (bs @ rest) = Inr (v, rest)"
    using unpack_signed_varint [of "zigzag v" 0 0 rest]
    by (auto simp: pack_signed_int_def unpack_signed_int_def unzigzag_zigzag)
qed

text \<open>Composite types: each rule builds the codec of a template from those of its arguments.\<close>

lemma unsigned_size:
  assumes "n \<le> max_num_array_elements \<or> n \<le> max_size_of_byte_arrays"
  shows "unat (of_nat n :: u32) = n"
  using assms
  by (auto simp: unsigned_of_nat take_bit_nat_eq_self max_num_array_elements_def max_size_of_byte_arrays_def)

lemma raw_codec_bytes: "raw_codec (\<lambda>_. True) pack_bytes unpack_bytes"
  by (rule raw_codecI)
    (auto simp: pack_bytes_def unpack_bytes_def pseq_Inr_iff unsigned_size
        unsigned_codec.unp_pk [OF TrueI])

lemma raw_codec_string: "raw_codec (\<lambda>_. True) pack_string unpack_string"
  by (rule raw_codecI)
    (auto simp: pack_string_def unpack_string_def unpack_bytes_def pseq_Inr_iff unsigned_size
        unsigned_codec.unp_pk [OF TrueI])

lemma raw_codec_array: "raw_codec (\<lambda>v. length v = n) pack_array (unpack_array n)"
  by (rule raw_codecI) (auto simp: pack_array_def unpack_array_def)

lemma raw_codec_optional:
  assumes "raw_codec ok pk unp"
  shows "raw_codec (pred_option ok) (pack_optional pk) (unpack_optional unp)"
  by (rule raw_codecI)
    (auto simp: pack_optional_def unpack_optional_def pseq_Inr_iff bool_codec.unp_pk [OF TrueI]
        raw_codec.unp_pk [OF assms] split: option.splits)

lemma raw_codec_pair:
  assumes "raw_codec ok1 pk1 unp1" "raw_codec ok2 pk2 unp2"
  shows "raw_codec (pred_prod ok1 ok2) (pack_pair pk1 pk2) (unpack_pair unp1 unp2)"
  by (rule raw_codecI)
    (auto simp: pack_pair_def unpack_pair_def pseq_Inr_iff raw_codec.unp_pk [OF assms(1)]
        raw_codec.unp_pk [OF assms(2)])

lemma raw_codec_vector:
  assumes "raw_codec ok pk unp"
  shows "raw_codec (list_all ok) (pack_vector pk) (unpack_vector unp)"
  by (rule raw_codecI)
    (auto simp: pack_vector_def unpack_vector_def pseq_Inr_iff unsigned_size
        unsigned_codec.unp_pk [OF TrueI] raw_codec.unpack_items_pack [OF assms])

text \<open>A set is read by insertion, and inserting its elements in order gives the set itself.\<close>

lemma unpack_set_items_pack:
  assumes "raw_codec ok pk unp"
  shows "list_all ok xs \<Longrightarrow> fs_wf (ys @ xs) \<Longrightarrow> pack_items pk xs = Inr bs \<Longrightarrow>
    unpack_set_items unp (length xs) ys (bs @ rest) = Inr (ys @ xs, rest)"
proof (induction xs arbitrary: bs ys)
  case (Cons x xs)
  then obtain b c where "pk x = Inr b" "pack_items pk xs = Inr c" "bs = b @ c"
    by (auto simp: pseq_Inr_iff)
  moreover have "fs_insert x ys = ys @ [x]"
    using Cons.prems(2) by (intro fs_insert_last) (auto simp: fs_wf_def sorted_wrt_append)
  ultimately show ?case
    using Cons.IH [of "ys @ [x]" c] Cons.prems raw_codec.unp_pk [OF assms, of x b "c @ rest"] by simp
qed simp

lemma raw_codec_set:
  assumes "raw_codec ok pk unp"
  shows "raw_codec (\<lambda>xs. list_all ok xs \<and> fs_wf xs) (pack_set pk) (unpack_set unp)"
  by (rule raw_codecI)
    (auto simp: pack_set_def unpack_set_def pseq_Inr_iff unsigned_size
        unsigned_codec.unp_pk [OF TrueI] unpack_set_items_pack [OF assms])

lemma unpack_map_items_pack:
  assumes "raw_codec okk pk uk" "raw_codec okv pv uv"
  shows "list_all (pred_prod okk okv) xs \<Longrightarrow> fm_wf (ys @ xs) \<Longrightarrow>
    pack_items (pack_pair pk pv) xs = Inr bs \<Longrightarrow>
    unpack_map_items uk uv (length xs) ys (bs @ rest) = Inr (ys @ xs, rest)"
proof (induction xs arbitrary: bs ys)
  case (Cons x xs)
  obtain k v where x: "x = (k, v)" by (cases x)
  from Cons.prems(3) obtain b c where
    "pack_pair pk pv x = Inr b" "pack_items (pack_pair pk pv) xs = Inr c" "bs = b @ c"
    by (auto simp: pseq_Inr_iff)
  moreover have "snd (fm_emplace k v ys) = ys @ [(k, v)]"
  proof -
    have "fm_wf (ys @ [(k, v)])" "k \<notin> fst ` set ys"
      using Cons.prems(2) x by (auto simp: fm_wf_def sorted_wrt_append)
    then show ?thesis by (simp add: fm_emplace_def fm_find_None_iff [THEN iffD2] fm_assign_last)
  qed
  ultimately show ?case
    using Cons.IH [of "ys @ [x]" c] Cons.prems x
      raw_codec.unp_pk [OF raw_codec_pair [OF assms], of x b "c @ rest"] by simp
qed simp

lemma raw_codec_map:
  assumes "raw_codec okk pk uk" "raw_codec okv pv uv"
  shows "raw_codec (\<lambda>m. list_all (pred_prod okk okv) m \<and> fm_wf m) (pack_map pk pv) (unpack_map uk uv)"
  by (rule raw_codecI)
    (auto simp: pack_map_def unpack_map_def pseq_Inr_iff unsigned_size
        unsigned_codec.unp_pk [OF TrueI] unpack_map_items_pack [OF assms])

lemma raw_codec_sha256: "raw_codec (\<lambda>_. True) pack_sha256 unpack_sha256"
  by (rule raw_codecI) (auto simp: pack_sha256_def sha256_data_def unpack_sha256_def le_word_bytes_full ds_read_def)

interpretation bytes_codec: raw_codec "\<lambda>_. True" pack_bytes unpack_bytes
  by (rule raw_codec_bytes)

interpretation string_codec: raw_codec "\<lambda>_. True" pack_string unpack_string
  by (rule raw_codec_string)

interpretation sha256_codec: raw_codec "\<lambda>_. True" pack_sha256 unpack_sha256
  by (rule raw_codec_sha256)

lemmas raw_codec_rules =
  raw_codec_bytes raw_codec_string raw_codec_array raw_codec_optional raw_codec_pair
  raw_codec_vector raw_codec_set raw_codec_map raw_codec_sha256
  word8_codec.raw_codec_axioms word16_codec.raw_codec_axioms word32_codec.raw_codec_axioms
  word64_codec.raw_codec_axioms bool_codec.raw_codec_axioms unsigned_codec.raw_codec_axioms
  signed_codec.raw_codec_axioms

lemma length_varint_bytes:
  "unat (w :: 'a::len word) < 2 ^ (7 * Suc k) \<Longrightarrow> length (varint_bytes w) \<le> Suc k"
proof (induction w arbitrary: k rule: varint_bytes.induct)
  case (1 w)
  show ?case
  proof (cases w rule: varint_bytes_cases)
    case (more b)
    have div: "unat (drop_bit 7 w) = unat w div 2 ^ 7"
      by (simp only: unat_drop_bit_eq drop_bit_eq_div [of 7 "unat w"])
    with more(1) have "0 < unat w div 2 ^ 7" by (metis gr0I unat_eq_zero)
    with "1.prems" obtain j where j: "k = Suc j" by (cases k) auto
    have "unat w < 2 ^ (7 * Suc j) * 2 ^ 7" using "1.prems" j by (simp add: power_add)
    with div have "unat (drop_bit 7 w) < 2 ^ (7 * Suc j)" by (simp only: less_mult_imp_div_less)
    with 1(1) more j show ?thesis by simp
  qed simp
qed

lemma pack_items_total: "(\<And>x. \<exists>b. pk x = Inr b) \<Longrightarrow> \<exists>bs. pack_items pk xs = Inr bs"
  by (induction xs) (auto simp: pseq_def, metis ebind_simps(2))

lemma unpack_signed_overlong:
  assumes "list_all (\<lambda>b. b AND 0x80 \<noteq> 0) bs" and "32 \<le> n + 7 * length bs" and "rest \<noteq> []"
  shows "unpack_signed_loop n v (bs @ rest) = Inl undefined_behaviour"
  using assms
proof (induction bs arbitrary: n v)
  case Nil
  then show ?case by (cases rest) auto
qed (simp add: Let_def)

lemma unpack_unsigned_bounded:
  assumes "bs \<noteq> []" and "32 \<le> n + 7 * length bs" and "n < 32"
  shows "\<exists>v'. \<exists>k \<le> length bs. 0 < k \<and> unpack_unsigned_loop n v (bs @ rest) = Inr (v', drop k (bs @ rest))"
  using assms
proof (induction bs arbitrary: n v)
  case (Cons b bs)
  show ?case
  proof (cases "b AND 0x80 \<noteq> 0 \<and> n + 7 < 32")
    case True
    with Cons.prems have "bs \<noteq> []" by (cases bs) auto
    with True Cons.IH [of "n + 7"] Cons.prems(2) obtain v' k where "k \<le> length bs" "0 < k"
      "unpack_unsigned_loop (n + 7) (v OR ucast (push_bit n (ucast (b AND 0x7f) :: u32))) (bs @ rest) =
         Inr (v', drop k (bs @ rest))"
      by fastforce
    with True show ?thesis by (intro exI [of _ v'] exI [of _ "Suc k"]) (simp add: Let_def)
  next
    case False
    then show ?thesis
      by (intro exI [of _ "v OR ucast (push_bit n (ucast (b AND 0x7f) :: u32))"] exI [of _ 1])
        (simp only: append_Cons unpack_unsigned_loop.simps Let_def if_False, simp)
  qed
qed simp

section \<open>Properties\<close>

text \<open>A \<^verbatim>\<open>flat_map\<close> from names to block numbers with at most 2^20 entries always packs, and unpacking reads back the same map and leaves the bytes that follow it.\<close>

theorem flat_map_pack_roundtrip:
  fixes m :: "(name_value \<times> u32) list"
  assumes "fm_wf m" and "length m \<le> max_num_array_elements"
  shows "\<exists>bs. pack_map pack_word pack_word m = Inr bs \<and>
    unpack_map unpack_word unpack_word (bs @ rest) = Inr (m, rest)"
proof -
  have "\<exists>b. pack_pair pack_word pack_word (x :: name_value \<times> u32) = Inr b" for x
    by (simp add: pack_pair_def pseq_def pack_word_def)
  then obtain c where "pack_items (pack_pair pack_word pack_word) m = Inr c"
    using pack_items_total [of "pack_pair pack_word pack_word" m] by blast
  then obtain bs where "pack_map pack_word pack_word m = Inr bs"
    using assms(2) by (simp add: pack_map_def pseq_def pack_unsigned_int_def)
  moreover have "list_all (pred_prod (\<lambda>_. True) (\<lambda>_. True)) m"
    by (simp add: list_all_iff pred_prod.simps)
  ultimately show ?thesis
    using raw_codec.unp_pk [OF raw_codec_map [OF word64_codec.raw_codec_axioms word32_codec.raw_codec_axioms]]
      assms(1) by blast
qed

theorem flat_map_pack_roundtrip_witness:
  "\<exists>bs. pack_map pack_word pack_word [(7 :: name_value, 1 :: u32), (9, 500)] = Inr bs \<and>
     unpack_map unpack_word unpack_word (bs @ [1, 2]) = Inr ([(7 :: name_value, 1 :: u32), (9, 500)], [1, 2])"
  by (rule flat_map_pack_roundtrip) (simp_all add: max_num_array_elements_def)

text \<open>An unsigned variable-length integer takes between one and five bytes and reads back exactly.\<close>

theorem unsigned_int_roundtrip:
  "\<exists>bs. pack_unsigned_int v = Inr bs \<and> 1 \<le> length bs \<and> length bs \<le> 5 \<and>
     unpack_unsigned_int (bs @ rest) = Inr (v, rest)"
proof -
  have "unat v < 2 ^ LENGTH(32)" by (rule unsigned_less)
  then have "length (varint_bytes (ucast v :: u64)) \<le> Suc 4"
    by (intro length_varint_bytes) (simp add: unsigned_ucast_eq take_bit_nat_eq_self)
  moreover have "varint_bytes (ucast v :: u64) \<noteq> []"
    by (cases "ucast v :: u64" rule: varint_bytes_cases) simp_all
  ultimately show ?thesis
    using unsigned_codec.unp_pk [OF TrueI, of v]
    by (auto simp: pack_unsigned_int_def Suc_le_eq)
qed

text \<open>C38. Reading a signed variable-length integer does not stop at 32 bits: five or more bytes that all announce a successor lead to a shift by 35, which the language leaves undefined, for whatever follows them.\<close>

theorem signed_int_overlong_undefined:
  assumes "list_all (\<lambda>b. b AND 0x80 \<noteq> 0) bs" and "5 \<le> length bs" and "rest \<noteq> []"
  shows "unpack_signed_int (bs @ rest) = Inl undefined_behaviour"
  using unpack_signed_overlong [of bs 0 rest 0] assms by (simp add: unpack_signed_int_def)

theorem signed_int_overlong_undefined_witness:
  "unpack_signed_int ([0x80, 0x80, 0x80, 0x80, 0x80] @ [0]) = Inl undefined_behaviour"
  by (rule signed_int_overlong_undefined) simp_all

text \<open>Reading an unsigned variable-length integer from a stream of at least five bytes always succeeds, and consumes between one and five of them.\<close>

theorem unsigned_int_read_bounded:
  assumes "5 \<le> length s"
  shows "\<exists>v k. 1 \<le> k \<and> k \<le> 5 \<and> unpack_unsigned_int s = Inr (v, drop k s)"
proof -
  have "take 5 s \<noteq> []" "32 \<le> 0 + 7 * length (take 5 s)" using assms by auto
  from unpack_unsigned_bounded [OF this, of 0 "drop 5 s"] obtain v k where
    "k \<le> length (take 5 s)" "0 < k" "unpack_unsigned_loop 0 0 s = Inr (v, drop k s)" by auto
  with assms show ?thesis
    by (intro exI [of _ "ucast v"] exI [of _ k]) (simp add: unpack_unsigned_int_def)
qed

theorem unsigned_int_read_bounded_witness:
  "\<exists>v k. 1 \<le> k \<and> k \<le> 5 \<and>
     unpack_unsigned_int [0xff, 0xff, 0xff, 0xff, 0xff, 0xff] = Inr (v, drop k [0xff, 0xff, 0xff, 0xff, 0xff, 0xff])"
  by (rule unsigned_int_read_bounded) simp

end
