(* ===== verification/Authority.thy ===== *)
theory Authority
  imports Raw_Pack "HOL-Library.Multiset"
begin

text \<open>
  Authorities (authority.hpp): public keys and their order (libfc public_key.hpp, common.hpp,
  elliptic_webauthn.hpp), permission levels (action.hpp), the weighted threshold structures, the
  check \<^verbatim>\<open>validate\<close>, and the conversions to and from the form kept in the state database, where
  WebAuthn keys are stored packed.
\<close>

section \<open>Keys and permission levels\<close>

text \<open>
  The alternatives of \<^verbatim>\<open>public_key::storage_type\<close>: three arrays of 33 bytes and the WebAuthn key
  with its user presence and relying party.
\<close>

datatype public_key_type =
    K1_key bytes
  | R1_key bytes
  | WA_key bytes u8 bytes
  | EM_key bytes

fun public_key_which :: "public_key_type \<Rightarrow> nat" where
  "public_key_which (K1_key _) = 0"
| "public_key_which (R1_key _) = 1"
| "public_key_which (WA_key _ _ _) = 2"
| "public_key_which (EM_key _) = 3"

text \<open>Arrays are compared by \<^verbatim>\<open>memcmp\<close>, strings by unsigned characters: both are the lexicographic order of bytes.\<close>

fun webauthn_key_less :: "bytes \<times> u8 \<times> bytes \<Rightarrow> bytes \<times> u8 \<times> bytes \<Rightarrow> bool" where
  "webauthn_key_less (d, t, r) (d', t', r') = (d < d' \<or> d = d' \<and> (t < t' \<or> t = t' \<and> r < r'))"

fun same_kind_less :: "public_key_type \<Rightarrow> public_key_type \<Rightarrow> bool" where
  "same_kind_less (K1_key d) (K1_key d') = (d < d')"
| "same_kind_less (R1_key d) (R1_key d') = (d < d')"
| "same_kind_less (WA_key d t r) (WA_key d' t' r') = webauthn_key_less (d, t, r) (d', t', r')"
| "same_kind_less (EM_key d) (EM_key d') = (d < d')"
| "same_kind_less _ _ = False"

definition public_key_less :: "public_key_type \<Rightarrow> public_key_type \<Rightarrow> bool" where
  "public_key_less a b \<longleftrightarrow>
     public_key_which a < public_key_which b \<or>
     (public_key_which a = public_key_which b \<and> same_kind_less a b)"

datatype permission_level =
  permission_level (actor: account_name) (permission: permission_name)

definition permission_level_less :: "permission_level \<Rightarrow> permission_level \<Rightarrow> bool" where
  "permission_level_less lhs rhs \<longleftrightarrow> (actor lhs, permission lhs) < (actor rhs, permission rhs)"

text \<open>The rank of a key, a tuple whose order is the order of the keys.\<close>

fun public_key_rank :: "public_key_type \<Rightarrow> nat \<times> bytes \<times> u8 \<times> bytes" where
  "public_key_rank (K1_key d) = (0, d, 0, [])"
| "public_key_rank (R1_key d) = (1, d, 0, [])"
| "public_key_rank (WA_key d t r) = (2, d, t, r)"
| "public_key_rank (EM_key d) = (3, d, 0, [])"

lemma public_key_rank_inject [simp]: "public_key_rank a = public_key_rank b \<longleftrightarrow> a = b"
  by (cases a; cases b) auto

lemma public_key_less_rank: "public_key_less a b \<longleftrightarrow> public_key_rank a < public_key_rank b"
  by (cases a; cases b) (auto simp: public_key_less_def)

instantiation public_key_type :: linorder
begin

definition less_public_key_type :: "public_key_type \<Rightarrow> public_key_type \<Rightarrow> bool" where
  "less_public_key_type a b = public_key_less a b"

definition less_eq_public_key_type :: "public_key_type \<Rightarrow> public_key_type \<Rightarrow> bool" where
  "less_eq_public_key_type a b \<longleftrightarrow> public_key_rank a \<le> public_key_rank b"

instance
  by standard
    (auto simp: less_public_key_type_def less_eq_public_key_type_def public_key_less_rank
      less_le_not_le dest: antisym)

end

instantiation permission_level :: linorder
begin

definition less_permission_level :: "permission_level \<Rightarrow> permission_level \<Rightarrow> bool" where
  "less_permission_level a b = permission_level_less a b"

definition less_eq_permission_level :: "permission_level \<Rightarrow> permission_level \<Rightarrow> bool" where
  "less_eq_permission_level a b \<longleftrightarrow> (actor a, permission a) \<le> (actor b, permission b)"

instance
  by standard
    (auto simp: less_permission_level_def less_eq_permission_level_def permission_level_less_def
      less_le_not_le intro: permission_level.expand dest: antisym)

end

section \<open>Weights and authorities\<close>

type_synonym weight_type = u16

record permission_level_weight =
  plw_permission :: permission_level
  plw_weight :: weight_type

record key_weight =
  kw_key :: public_key_type
  kw_weight :: weight_type

record wait_weight =
  wait_sec :: u32
  ww_weight :: weight_type

record authority =
  auth_threshold :: u32
  auth_keys :: "key_weight list"
  auth_accounts :: "permission_level_weight list"
  auth_waits :: "wait_weight list"

definition with_delay :: "u32 \<Rightarrow> authority \<Rightarrow> authority" where
  "with_delay delay_sec auth =
     (if delay_sec > 0
      then auth \<lparr>auth_threshold := 2,
                 auth_waits := auth_waits auth @ [\<lparr>wait_sec = delay_sec, ww_weight = 1\<rparr>]\<rparr>
      else auth)"

definition authority_of_key :: "public_key_type \<Rightarrow> u32 \<Rightarrow> authority" where
  "authority_of_key k delay_sec =
     with_delay delay_sec \<lparr>auth_threshold = 1, auth_keys = [\<lparr>kw_key = k, kw_weight = 1\<rparr>],
        auth_accounts = [], auth_waits = []\<rparr>"

definition authority_of_permission :: "permission_level \<Rightarrow> u32 \<Rightarrow> authority" where
  "authority_of_permission p delay_sec =
     with_delay delay_sec \<lparr>auth_threshold = 1, auth_keys = [],
        auth_accounts = [\<lparr>plw_permission = p, plw_weight = 1\<rparr>], auth_waits = []\<rparr>"

text \<open>\<^verbatim>\<open>std::sort\<close> by the whole pair: entries that compare equal are equal, so the result is the sorted list.\<close>

definition sort_fields :: "authority \<Rightarrow> authority" where
  "sort_fields auth = auth \<lparr>
     auth_keys := sort_key (\<lambda>k. (kw_key k, kw_weight k)) (auth_keys auth),
     auth_accounts := sort_key (\<lambda>a. (plw_permission a, plw_weight a)) (auth_accounts auth),
     auth_waits := sort_key (\<lambda>w. (wait_sec w, ww_weight w)) (auth_waits auth)\<rparr>"

section \<open>\<^verbatim>\<open>validate\<close>\<close>

text \<open>Each loop returns the total weight so far, or \<open>None\<close> for \<^verbatim>\<open>return false\<close>.\<close>

fun validate_keys :: "public_key_type option \<Rightarrow> u32 \<Rightarrow> key_weight list \<Rightarrow> u32 option" where
  "validate_keys prev total_weight [] = Some total_weight"
| "validate_keys prev total_weight (k # ks) =
     (if (case prev of None \<Rightarrow> False | Some p \<Rightarrow> \<not> p < kw_key k) then None
      else validate_keys (Some (kw_key k)) (total_weight + ucast (kw_weight k)) ks)"

fun validate_accounts :: "permission_level option \<Rightarrow> u32 \<Rightarrow> permission_level_weight list \<Rightarrow> u32 option" where
  "validate_accounts prev total_weight [] = Some total_weight"
| "validate_accounts prev total_weight (a # as) =
     (if (case prev of None \<Rightarrow> False | Some p \<Rightarrow> p \<ge> plw_permission a) then None
      else validate_accounts (Some (plw_permission a)) (total_weight + ucast (plw_weight a)) as)"

fun validate_waits :: "u32 option \<Rightarrow> u32 \<Rightarrow> wait_weight list \<Rightarrow> u32 option" where
  "validate_waits prev total_weight [] = Some total_weight"
| "validate_waits prev total_weight (w # ws) =
     (if (case prev of None \<Rightarrow> False | Some p \<Rightarrow> p \<ge> wait_sec w) then None
      else validate_waits (Some (wait_sec w)) (total_weight + ucast (ww_weight w)) ws)"

definition validate :: "authority \<Rightarrow> bool" where
  "validate auth =
     (if length (auth_keys auth) + length (auth_accounts auth) + length (auth_waits auth) > 2 ^ 16
      then False
      else if auth_threshold auth = 0 then False
      else (case validate_keys None 0 (auth_keys auth) of
          None \<Rightarrow> False
        | Some total_weight \<Rightarrow>
            (case validate_accounts None total_weight (auth_accounts auth) of
               None \<Rightarrow> False
             | Some total_weight \<Rightarrow>
                 if auth_waits auth \<noteq> [] \<and> wait_sec (hd (auth_waits auth)) = 0 then False
                 else (case validate_waits None total_weight (auth_waits auth) of
                         None \<Rightarrow> False
                       | Some total_weight \<Rightarrow> total_weight \<ge> auth_threshold auth))))"

section \<open>The form kept in the database\<close>

text \<open>\<^verbatim>\<open>webauthn::public_key\<close> on a stream; \<^verbatim>\<open>post_init\<close> rejects an empty relying party.\<close>

definition pack_webauthn :: "(bytes \<times> u8 \<times> bytes) packer" where
  "pack_webauthn = (\<lambda>(public_key_data, user_verification_type, rpid).
     pseq (pack_array public_key_data) (pseq (pack_word user_verification_type) (pack_string rpid)))"

definition unpack_webauthn :: "(bytes \<times> u8 \<times> bytes) unpacker" where
  "unpack_webauthn =
     ubind (unpack_array 33) (\<lambda>public_key_data.
     ubind unpack_word (\<lambda>t.
     ubind unpack_string (\<lambda>rpid.
     ubind (uassert (rpid \<noteq> [])) (\<lambda>_. ureturn (public_key_data, t, rpid)))))"

datatype shared_public_key =
    Shared_K1 bytes
  | Shared_R1 bytes
  | Shared_WA bytes
  | Shared_EM bytes

fun shared_which :: "shared_public_key \<Rightarrow> nat" where
  "shared_which (Shared_K1 _) = 0"
| "shared_which (Shared_R1 _) = 1"
| "shared_which (Shared_WA _) = 2"
| "shared_which (Shared_EM _) = 3"

fun to_public_key :: "shared_public_key \<Rightarrow> public_key_type result" where
  "to_public_key (Shared_K1 d) = Inr (K1_key d)"
| "to_public_key (Shared_R1 d) = Inr (R1_key d)"
| "to_public_key (Shared_WA wa) = ebind (unpack_webauthn wa) (\<lambda>((d, t, r), _). Inr (WA_key d t r))"
| "to_public_key (Shared_EM d) = Inr (EM_key d)"

fun convert_key :: "public_key_type \<Rightarrow> shared_public_key result" where
  "convert_key (K1_key d) = Inr (Shared_K1 d)"
| "convert_key (R1_key d) = Inr (Shared_R1 d)"
| "convert_key (WA_key d t r) = ebind (pack_webauthn (d, t, r)) (\<lambda>bs. Inr (Shared_WA bs))"
| "convert_key (EM_key d) = Inr (Shared_EM d)"

text \<open>\<^verbatim>\<open>operator==(shared_public_key, public_key_type)\<close>.\<close>

definition shared_key_equals :: "shared_public_key \<Rightarrow> public_key_type \<Rightarrow> bool result" where
  "shared_key_equals l r =
     (if shared_which l \<noteq> public_key_which r then Inr False
      else (case (l, r) of
          (Shared_K1 d, K1_key d') \<Rightarrow> Inr (d = d')
        | (Shared_EM d, EM_key d') \<Rightarrow> Inr (d = d')
        | (Shared_R1 d, R1_key d') \<Rightarrow> Inr (d = d')
        | (Shared_WA wa, WA_key d t rp) \<Rightarrow>
            ebind (unpack_webauthn wa) (\<lambda>(pub, _). Inr (pub = (d, t, rp)))
        | _ \<Rightarrow> Inr False))"

record shared_key_weight =
  skw_key :: shared_public_key
  skw_weight :: weight_type

record shared_authority =
  sauth_threshold :: u32
  sauth_keys :: "shared_key_weight list"
  sauth_accounts :: "permission_level_weight list"
  sauth_waits :: "wait_weight list"

definition to_key_weight :: "shared_key_weight \<Rightarrow> key_weight result" where
  "to_key_weight k = ebind (to_public_key (skw_key k)) (\<lambda>key. Inr \<lparr>kw_key = key, kw_weight = skw_weight k\<rparr>)"

definition convert :: "key_weight \<Rightarrow> shared_key_weight result" where
  "convert k = ebind (convert_key (kw_key k)) (\<lambda>key. Inr \<lparr>skw_key = key, skw_weight = kw_weight k\<rparr>)"

fun emap :: "('a \<Rightarrow> 'b result) \<Rightarrow> 'a list \<Rightarrow> 'b list result" where
  "emap f [] = Inr []"
| "emap f (x # xs) = ebind (f x) (\<lambda>y. ebind (emap f xs) (\<lambda>ys. Inr (y # ys)))"

definition shared_authority_assign :: "authority \<Rightarrow> shared_authority result" where
  "shared_authority_assign a =
     ebind (emap convert (auth_keys a)) (\<lambda>keys.
       Inr \<lparr>sauth_threshold = auth_threshold a, sauth_keys = keys,
            sauth_accounts = auth_accounts a, sauth_waits = auth_waits a\<rparr>)"

definition to_authority :: "shared_authority \<Rightarrow> authority result" where
  "to_authority s =
     ebind (emap to_key_weight (sauth_keys s)) (\<lambda>keys.
       Inr \<lparr>auth_threshold = sauth_threshold s, auth_keys = keys,
            auth_accounts = sauth_accounts s, auth_waits = sauth_waits s\<rparr>)"

fun equal_keys :: "key_weight list \<Rightarrow> shared_key_weight list \<Rightarrow> bool result" where
  "equal_keys [] [] = Inr True"
| "equal_keys (k # ks) (s # ss) =
     ebind (shared_key_equals (skw_key s) (kw_key k)) (\<lambda>b.
       if b \<and> kw_weight k = skw_weight s then equal_keys ks ss else Inr False)"
| "equal_keys _ _ = Inr False"

text \<open>\<^verbatim>\<open>operator==(authority, shared_authority)\<close>, with the conjuncts in the order the code evaluates them.\<close>

definition authority_equals_shared :: "authority \<Rightarrow> shared_authority \<Rightarrow> bool result" where
  "authority_equals_shared lhs rhs =
     (if auth_threshold lhs = sauth_threshold rhs \<and>
         length (auth_keys lhs) = length (sauth_keys rhs) \<and>
         length (auth_accounts lhs) = length (sauth_accounts rhs) \<and>
         length (auth_waits lhs) = length (sauth_waits rhs)
      then ebind (equal_keys (auth_keys lhs) (sauth_keys rhs)) (\<lambda>b.
             Inr (b \<and> auth_accounts lhs = sauth_accounts rhs \<and> auth_waits lhs = sauth_waits rhs))
      else Inr False)"

text \<open>The bytes of a stored key: the index of the alternative, then the array or the packed string.\<close>

fun pack_shared_public_key :: "shared_public_key packer" where
  "pack_shared_public_key (Shared_K1 d) = pseq (pack_unsigned_int 0) (pack_array d)"
| "pack_shared_public_key (Shared_R1 d) = pseq (pack_unsigned_int 1) (pack_array d)"
| "pack_shared_public_key (Shared_WA s) = pseq (pack_unsigned_int 2) (pack_string s)"
| "pack_shared_public_key (Shared_EM d) = pseq (pack_unsigned_int 3) (pack_array d)"

fun billable_keys_size :: "shared_key_weight list \<Rightarrow> nat result" where
  "billable_keys_size [] = Inr 0"
| "billable_keys_size (k # ks) =
     ebind (pack_shared_public_key (skw_key k)) (\<lambda>bs.
       ebind (billable_keys_size ks) (\<lambda>n. Inr (8 + length bs + n)))"

definition get_billable_size :: "shared_authority \<Rightarrow> nat result" where
  "get_billable_size s =
     ebind (billable_keys_size (sauth_keys s)) (\<lambda>keys_size.
       Inr (length (sauth_accounts s) * 24 + length (sauth_waits s) * 16 + keys_size))"

section \<open>What \<^verbatim>\<open>validate\<close> accepts\<close>

definition authority_weights :: "authority \<Rightarrow> nat list" where
  "authority_weights a =
     map (unat \<circ> kw_weight) (auth_keys a) @ map (unat \<circ> plw_weight) (auth_accounts a) @
     map (unat \<circ> ww_weight) (auth_waits a)"

definition authority_total_weight :: "authority \<Rightarrow> nat" where
  "authority_total_weight a = sum_list (authority_weights a)"

definition authority_size :: "authority \<Rightarrow> nat" where
  "authority_size a = length (auth_keys a) + length (auth_accounts a) + length (auth_waits a)"

abbreviation prev_list :: "'a option \<Rightarrow> 'a list" where
  "prev_list prev \<equiv> (case prev of None \<Rightarrow> [] | Some p \<Rightarrow> [p])"

lemma strictly_sorted_Cons2:
  "sorted_wrt (<) (x # y # zs :: 'a::linorder list) \<longleftrightarrow> x < y \<and> sorted_wrt (<) (y # zs)"
  by (auto intro: less_trans)

lemma validate_keys_eq:
  "validate_keys prev t ks =
     (if sorted_wrt (<) (prev_list prev @ map kw_key ks)
      then Some (t + of_nat (sum_list (map (unat \<circ> kw_weight) ks))) else None)"
  by (induction prev t ks rule: validate_keys.induct)
    (auto simp: strictly_sorted_Cons2 sorted_wrt1 not_le simp del: sorted_wrt.simps(2) split: option.splits)

lemma validate_accounts_eq:
  "validate_accounts prev t as =
     (if sorted_wrt (<) (prev_list prev @ map plw_permission as)
      then Some (t + of_nat (sum_list (map (unat \<circ> plw_weight) as))) else None)"
  by (induction prev t as rule: validate_accounts.induct)
    (auto simp: strictly_sorted_Cons2 sorted_wrt1 not_le simp del: sorted_wrt.simps(2) split: option.splits)

lemma validate_waits_eq:
  "validate_waits prev t ws =
     (if sorted_wrt (<) (prev_list prev @ map wait_sec ws)
      then Some (t + of_nat (sum_list (map (unat \<circ> ww_weight) ws))) else None)"
  by (induction prev t ws rule: validate_waits.induct)
    (auto simp: strictly_sorted_Cons2 sorted_wrt1 not_le simp del: sorted_wrt.simps(2) split: option.splits)

lemma authority_total_weight_bound:
  assumes "authority_size a \<le> 2 ^ 16"
  shows "authority_total_weight a < 2 ^ 32"
proof -
  have "x \<le> 65535" if "x \<in> set (authority_weights a)" for x
  proof -
    have "unat w \<le> 65535" for w :: u16
    proof -
      have "unat w < 2 ^ LENGTH(16)" by (rule unsigned_less)
      then show ?thesis by simp
    qed
    then show ?thesis using that by (auto simp: authority_weights_def)
  qed
  then have "sum_list (authority_weights a) \<le> length (authority_weights a) * 65535"
    using sum_list_mono [of "authority_weights a" "\<lambda>x. x" "\<lambda>_. 65535"] by (simp add: sum_list_triv)
  also have "\<dots> \<le> 2 ^ 16 * 65535"
    using assms by (simp add: authority_size_def authority_weights_def)
  finally show ?thesis by (simp add: authority_total_weight_def)
qed

lemma waits_positive_iff:
  assumes "sorted_wrt (<) (map wait_sec ws)"
  shows "(ws \<noteq> [] \<longrightarrow> wait_sec (hd ws) \<noteq> 0) \<longleftrightarrow> 0 \<notin> wait_sec ` set ws"
  using assms by (cases ws) (auto simp: image_iff)

lemma validate_iff:
  "validate a \<longleftrightarrow>
     authority_size a \<le> 2 ^ 16 \<and> auth_threshold a \<noteq> 0 \<and>
     sorted_wrt (<) (map kw_key (auth_keys a)) \<and>
     sorted_wrt (<) (map plw_permission (auth_accounts a)) \<and>
     sorted_wrt (<) (map wait_sec (auth_waits a)) \<and> 0 \<notin> wait_sec ` set (auth_waits a) \<and>
     unat (auth_threshold a) \<le> authority_total_weight a"
proof (cases "authority_size a \<le> 2 ^ 16")
  case True
  then have "unat (of_nat (authority_total_weight a) :: u32) = authority_total_weight a"
    using authority_total_weight_bound [OF True] by (simp add: unsigned_of_nat take_bit_nat_eq_self)
  then have "auth_threshold a \<le> of_nat (authority_total_weight a) \<longleftrightarrow>
      unat (auth_threshold a) \<le> authority_total_weight a"
    by (simp add: word_le_nat_alt)
  then show ?thesis
    using True waits_positive_iff [of "auth_waits a"]
    by (auto simp: validate_def validate_keys_eq validate_accounts_eq validate_waits_eq
        authority_size_def authority_total_weight_def authority_weights_def add.assoc)
qed (simp add: validate_def authority_size_def)

lemma sorted_fst_sort_key:
  "sorted_wrt (<) (map g (sort_key (\<lambda>x. (g x, h x)) xs)) \<longleftrightarrow> distinct (map g xs)"
proof -
  let ?ys = "sort_key (\<lambda>x. (g x, h x)) xs"
  have "sorted (map (\<lambda>x. (g x, h x)) ?ys)" by simp
  then have "sorted (map g ?ys)"
    by (auto simp: sorted_wrt_map elim!: sorted_wrt_mono_rel [rotated])
  moreover have "distinct (map g ?ys) \<longleftrightarrow> distinct (map g xs)"
    by (rule mset_eq_imp_distinct_iff) (metis mset_map mset_sort)
  ultimately show ?thesis by (simp add: strict_sorted_iff)
qed

lemma sum_list_sort_key: "sum_list (map f (sort_key k xs)) = (sum_list (map f xs) :: nat)"
  by (metis mset_map mset_sort sum_mset_sum_list)

lemma sort_fields_weight:
  "authority_total_weight (sort_fields a) = authority_total_weight a"
  "authority_size (sort_fields a) = authority_size a"
  by (simp_all add: authority_total_weight_def authority_weights_def authority_size_def
      sort_fields_def sum_list_sort_key)

section \<open>Conversion to and from the stored form\<close>

text \<open>\<open>key_ok\<close>: the array sizes the types fix, and a relying party as the constructor requires.\<close>

fun key_ok :: "public_key_type \<Rightarrow> bool" where
  "key_ok (WA_key d t r) = (length d = 33 \<and> r \<noteq> [] \<and> length r \<le> max_size_of_byte_arrays)"
| "key_ok (K1_key d) = (length d = 33)"
| "key_ok (R1_key d) = (length d = 33)"
| "key_ok (EM_key d) = (length d = 33)"

interpretation webauthn_codec: raw_codec "\<lambda>(d, t, r). length d = 33 \<and> r \<noteq> []" pack_webauthn unpack_webauthn
  by (rule raw_codecI)
    (auto simp: pack_webauthn_def unpack_webauthn_def pack_array_def unpack_array_def pseq_Inr_iff
        word8_codec.unp_pk [OF TrueI] string_codec.unp_pk [OF TrueI])

lemma pack_webauthn_total:
  "length r \<le> max_size_of_byte_arrays \<Longrightarrow> \<exists>bs. pack_webauthn (d, t, r) = Inr bs"
  by (simp add: pack_webauthn_def pack_array_def pack_word_def pack_string_def pseq_def pack_unsigned_int_def)

lemma shared_key_equals_iff:
  "shared_key_equals (Shared_K1 d) k = Inr (k = K1_key d)"
  "shared_key_equals (Shared_R1 d) k = Inr (k = R1_key d)"
  "shared_key_equals (Shared_EM d) k = Inr (k = EM_key d)"
  "unpack_webauthn wa = Inr ((d, t, r), []) \<Longrightarrow>
     shared_key_equals (Shared_WA wa) k = Inr (k = WA_key d t r)"
  by (cases k; auto simp: shared_key_equals_def)+

lemma convert_key_ok:
  assumes "key_ok k"
  shows "\<exists>s. convert_key k = Inr s \<and> to_public_key s = Inr k \<and>
    (\<forall>k'. shared_key_equals s k' = Inr (k' = k))"
proof (cases k)
  case (WA_key d t r)
  with assms pack_webauthn_total [of r d t] obtain bs where "pack_webauthn (d, t, r) = Inr bs" by auto
  moreover from this webauthn_codec.unp_pk [of "(d, t, r)" bs "[]"] assms WA_key
  have "unpack_webauthn bs = Inr ((d, t, r), [])" by simp
  ultimately show ?thesis using WA_key by (simp add: shared_key_equals_iff)
qed (simp_all add: shared_key_equals_iff)

lemma emap_convert:
  assumes "list_all (key_ok \<circ> kw_key) ks"
  shows "\<exists>ss. emap convert ks = Inr ss \<and> emap to_key_weight ss = Inr ks \<and>
    length ss = length ks \<and> (\<forall>ks'. equal_keys ks' ss = Inr (ks' = ks))"
  using assms
proof (induction ks)
  case Nil
  have "equal_keys ks' [] = Inr (ks' = [])" for ks' by (cases ks') auto
  then show ?case by simp
next
  case (Cons k ks)
  then obtain s ss where s: "convert_key (kw_key k) = Inr s" "to_public_key s = Inr (kw_key k)"
      "\<forall>k'. shared_key_equals s k' = Inr (k' = kw_key k)"
    and ss: "emap convert ks = Inr ss" "emap to_key_weight ss = Inr ks" "length ss = length ks"
      "\<forall>ks'. equal_keys ks' ss = Inr (ks' = ks)"
    using convert_key_ok [of "kw_key k"] by auto
  let ?ss = "\<lparr>skw_key = s, skw_weight = kw_weight k\<rparr> # ss"
  have "equal_keys ks' ?ss = Inr (ks' = k # ks)" for ks'
    using s ss by (cases ks') auto
  moreover have "convert k = Inr (hd ?ss)" "to_key_weight (hd ?ss) = Inr k"
    using s by (simp_all add: convert_def to_key_weight_def)
  ultimately show ?case using ss by (intro exI [of _ ?ss]) simp
qed

lemma shared_authority_image:
  assumes "list_all (key_ok \<circ> kw_key) (auth_keys a)"
  shows "\<exists>s. shared_authority_assign a = Inr s \<and> to_authority s = Inr a \<and>
    (\<forall>b. authority_equals_shared b s = Inr (b = a))"
proof -
  from emap_convert [OF assms] obtain ss where ss: "emap convert (auth_keys a) = Inr ss"
    "emap to_key_weight ss = Inr (auth_keys a)" "length ss = length (auth_keys a)"
    "\<forall>ks'. equal_keys ks' ss = Inr (ks' = auth_keys a)" by blast
  then show ?thesis
    by (auto simp: shared_authority_assign_def to_authority_def authority_equals_shared_def)
qed

section \<open>Properties\<close>

text \<open>C29. \<^verbatim>\<open>validate\<close> accepts an authority exactly when it has at most 2^16 entries, a non-zero threshold, strictly ascending keys, permission levels and non-zero waits, and when its weights, summed without wrap-around, reach the threshold: the 32-bit total never overflows.\<close>

theorem validate_exact:
  "validate a \<longleftrightarrow>
     authority_size a \<le> 2 ^ 16 \<and> auth_threshold a \<noteq> 0 \<and>
     sorted_wrt (<) (map kw_key (auth_keys a)) \<and>
     sorted_wrt (<) (map plw_permission (auth_accounts a)) \<and>
     sorted_wrt (<) (map wait_sec (auth_waits a)) \<and> 0 \<notin> wait_sec ` set (auth_waits a) \<and>
     unat (auth_threshold a) \<le> authority_total_weight a"
  by (rule validate_iff)

text \<open>After \<^verbatim>\<open>sort_fields\<close> the order of the entries no longer matters: the sorted authority validates exactly when no key, level or wait repeats, no wait is zero, and size, threshold and total weight are as \<^verbatim>\<open>validate\<close> requires.\<close>

theorem sort_fields_validate:
  "validate (sort_fields a) \<longleftrightarrow>
     authority_size a \<le> 2 ^ 16 \<and> auth_threshold a \<noteq> 0 \<and>
     distinct (map kw_key (auth_keys a)) \<and> distinct (map plw_permission (auth_accounts a)) \<and>
     distinct (map wait_sec (auth_waits a)) \<and> 0 \<notin> wait_sec ` set (auth_waits a) \<and>
     unat (auth_threshold a) \<le> authority_total_weight a"
proof -
  have "auth_threshold (sort_fields a) = auth_threshold a"
    "wait_sec ` set (auth_waits (sort_fields a)) = wait_sec ` set (auth_waits a)"
    by (simp_all add: sort_fields_def)
  moreover have
    "sorted_wrt (<) (map kw_key (auth_keys (sort_fields a))) \<longleftrightarrow> distinct (map kw_key (auth_keys a))"
    "sorted_wrt (<) (map plw_permission (auth_accounts (sort_fields a))) \<longleftrightarrow>
       distinct (map plw_permission (auth_accounts a))"
    "sorted_wrt (<) (map wait_sec (auth_waits (sort_fields a))) \<longleftrightarrow> distinct (map wait_sec (auth_waits a))"
    by (simp_all add: sort_fields_def sorted_fst_sort_key)
  ultimately show ?thesis by (simp only: validate_iff sort_fields_weight)
qed

text \<open>C37. Storing an authority and reading it back gives the same authority, and the mixed equality test compares a stored authority with any other one as if it had been read back. The keys have the sizes their types fix and a WebAuthn key has a relying party.\<close>

theorem shared_authority_roundtrip:
  assumes "list_all (key_ok \<circ> kw_key) (auth_keys a)"
  shows "\<exists>s. shared_authority_assign a = Inr s \<and> to_authority s = Inr a \<and>
    (\<forall>b. authority_equals_shared b s = Inr (b = a))"
  using assms by (rule shared_authority_image)

theorem shared_authority_roundtrip_witness:
  "\<exists>s. shared_authority_assign
       \<lparr>auth_threshold = 2,
        auth_keys = [\<lparr>kw_key = K1_key (replicate 33 7), kw_weight = 1\<rparr>,
                     \<lparr>kw_key = WA_key (replicate 33 9) 1 [0x61, 0x62], kw_weight = 1\<rparr>],
        auth_accounts = [], auth_waits = []\<rparr> = Inr s \<and>
     to_authority s = Inr
       \<lparr>auth_threshold = 2,
        auth_keys = [\<lparr>kw_key = K1_key (replicate 33 7), kw_weight = 1\<rparr>,
                     \<lparr>kw_key = WA_key (replicate 33 9) 1 [0x61, 0x62], kw_weight = 1\<rparr>],
        auth_accounts = [], auth_waits = []\<rparr>"
  using shared_authority_roundtrip [of
      "\<lparr>auth_threshold = 2,
        auth_keys = [\<lparr>kw_key = K1_key (replicate 33 7), kw_weight = 1\<rparr>,
                     \<lparr>kw_key = WA_key (replicate 33 9) 1 [0x61, 0x62], kw_weight = 1\<rparr>],
        auth_accounts = [], auth_waits = []\<rparr>"]
  by (auto simp: max_size_of_byte_arrays_def)

end
