(* ===== verification/Producer_Schedule.thy ===== *)
theory Producer_Schedule
  imports Authority
begin

text \<open>
  Producer schedules (producer_schedule.hpp): the weighted multi-signature authority of a producer,
  the schedule with its version, the up-conversion of a legacy schedule and the form kept in the
  state database.
\<close>

section \<open>Data\<close>

record producer_key =
  lpk_producer_name :: account_name
  lpk_block_signing_key :: public_key_type

record legacy_producer_schedule =
  lps_version :: u32
  lps_producers :: "producer_key list"

record block_signing_authority_v0 =
  bsa_threshold :: u32
  bsa_keys :: "key_weight list"

text \<open>\<^verbatim>\<open>std::variant\<close> with one alternative.\<close>

datatype block_signing_authority = BSA_v0 (the_v0: block_signing_authority_v0)

record producer_authority =
  pa_producer_name :: account_name
  pa_authority :: block_signing_authority

record producer_authority_schedule =
  pas_version :: u32
  pas_producers :: "producer_authority list"

record shared_block_signing_authority_v0 =
  sbsa_threshold :: u32
  sbsa_keys :: "shared_key_weight list"

datatype shared_block_signing_authority = Shared_BSA_v0 shared_block_signing_authority_v0

record shared_producer_authority =
  spa_producer_name :: account_name
  spa_authority :: shared_block_signing_authority

record shared_producer_authority_schedule =
  spas_version :: u32
  spas_producers :: "shared_producer_authority list"

definition empty_schedule :: producer_authority_schedule where
  "empty_schedule = \<lparr>pas_version = 0, pas_producers = []\<rparr>"

section \<open>Operations\<close>

text \<open>The presented keys are a \<^verbatim>\<open>std::set\<close>; the total stops growing once it has reached the threshold, and saturates.\<close>

fun keys_satisfy_loop ::
  "public_key_type list \<Rightarrow> u32 \<Rightarrow> key_weight list \<Rightarrow> u32 \<Rightarrow> nat \<Rightarrow> u32 \<times> nat" where
  "keys_satisfy_loop presented threshold [] total_weight n = (total_weight, n)"
| "keys_satisfy_loop presented threshold (kw # kws) total_weight n =
     (if kw_key kw \<in> set presented
      then keys_satisfy_loop presented threshold kws
             (if total_weight < threshold
              then total_weight + min (0xFFFFFFFF - total_weight) (ucast (kw_weight kw))
              else total_weight) (Suc n)
      else keys_satisfy_loop presented threshold kws total_weight n)"

definition keys_satisfy_and_relevant_v0 ::
  "public_key_type list \<Rightarrow> block_signing_authority_v0 \<Rightarrow> bool \<times> nat" where
  "keys_satisfy_and_relevant_v0 presented a =
     (case keys_satisfy_loop presented (bsa_threshold a) (bsa_keys a) 0 0 of
        (total_weight, num_relevant_keys) \<Rightarrow> (total_weight \<ge> bsa_threshold a, num_relevant_keys))"

fun keys_satisfy_and_relevant :: "public_key_type list \<Rightarrow> block_signing_authority \<Rightarrow> bool \<times> nat" where
  "keys_satisfy_and_relevant keys (BSA_v0 a) = keys_satisfy_and_relevant_v0 keys a"

definition upconvert_producer :: "producer_key \<Rightarrow> producer_authority" where
  "upconvert_producer p =
     \<lparr>pa_producer_name = lpk_producer_name p,
      pa_authority = BSA_v0 \<lparr>bsa_threshold = 1,
        bsa_keys = [\<lparr>kw_key = lpk_block_signing_key p, kw_weight = 1\<rparr>]\<rparr>\<rparr>"

definition upconvert_schedule :: "legacy_producer_schedule \<Rightarrow> producer_authority_schedule" where
  "upconvert_schedule old =
     \<lparr>pas_version = lps_version old, pas_producers = map upconvert_producer (lps_producers old)\<rparr>"

definition bsa_v0_to_shared :: "block_signing_authority_v0 \<Rightarrow> shared_block_signing_authority_v0 result" where
  "bsa_v0_to_shared a =
     ebind (emap convert (bsa_keys a)) (\<lambda>keys. Inr \<lparr>sbsa_threshold = bsa_threshold a, sbsa_keys = keys\<rparr>)"

definition bsa_v0_from_shared :: "shared_block_signing_authority_v0 \<Rightarrow> block_signing_authority_v0 result" where
  "bsa_v0_from_shared src =
     ebind (emap to_key_weight (sbsa_keys src)) (\<lambda>keys.
       Inr \<lparr>bsa_threshold = sbsa_threshold src, bsa_keys = keys\<rparr>)"

definition producer_authority_to_shared :: "producer_authority \<Rightarrow> shared_producer_authority result" where
  "producer_authority_to_shared p =
     ebind (case pa_authority p of BSA_v0 a \<Rightarrow> bsa_v0_to_shared a) (\<lambda>a.
       Inr \<lparr>spa_producer_name = pa_producer_name p, spa_authority = Shared_BSA_v0 a\<rparr>)"

definition producer_authority_from_shared :: "shared_producer_authority \<Rightarrow> producer_authority result" where
  "producer_authority_from_shared src =
     ebind (case spa_authority src of Shared_BSA_v0 a \<Rightarrow> bsa_v0_from_shared a) (\<lambda>a.
       Inr \<lparr>pa_producer_name = spa_producer_name src, pa_authority = BSA_v0 a\<rparr>)"

definition schedule_to_shared ::
  "producer_authority_schedule \<Rightarrow> shared_producer_authority_schedule result" where
  "schedule_to_shared s =
     ebind (emap producer_authority_to_shared (pas_producers s)) (\<lambda>ps.
       Inr \<lparr>spas_version = pas_version s, spas_producers = ps\<rparr>)"

definition schedule_from_shared ::
  "shared_producer_authority_schedule \<Rightarrow> producer_authority_schedule result" where
  "schedule_from_shared src =
     ebind (emap producer_authority_from_shared (spas_producers src)) (\<lambda>ps.
       Inr \<lparr>pas_version = spas_version src, pas_producers = ps\<rparr>)"

text \<open>\<^verbatim>\<open>operator==\<close> of a \<^verbatim>\<open>producer_authority\<close> with a stored one. With one alternative the indices agree.\<close>

definition producer_equals_shared :: "producer_authority \<Rightarrow> shared_producer_authority \<Rightarrow> bool result" where
  "producer_equals_shared pa pb =
     (if pa_producer_name pa \<noteq> spa_producer_name pb then Inr False
      else (case (pa_authority pa, spa_authority pb) of
        (BSA_v0 lhs, Shared_BSA_v0 rhs) \<Rightarrow>
          if bsa_threshold lhs \<noteq> sbsa_threshold rhs then Inr False
          else equal_keys (bsa_keys lhs) (sbsa_keys rhs)))"

text \<open>\<^verbatim>\<open>operator==\<close> of schedules: versions, sizes, then the producers by index.\<close>

fun equal_producers :: "producer_authority list \<Rightarrow> producer_authority list \<Rightarrow> bool" where
  "equal_producers (a # as) (b # bs) = (if \<not> a = b then False else equal_producers as bs)"
| "equal_producers _ _ = True"

definition schedule_equals :: "producer_authority_schedule \<Rightarrow> producer_authority_schedule \<Rightarrow> bool" where
  "schedule_equals a b =
     (if pas_version a \<noteq> pas_version b then False
      else if length (pas_producers a) \<noteq> length (pas_producers b) then False
      else equal_producers (pas_producers a) (pas_producers b))"

text \<open>Serialised forms, in the order of the reflected fields.\<close>

fun pack_public_key :: "public_key_type packer" where
  "pack_public_key (K1_key d) = pseq (pack_unsigned_int 0) (pack_array d)"
| "pack_public_key (R1_key d) = pseq (pack_unsigned_int 1) (pack_array d)"
| "pack_public_key (WA_key d t r) = pseq (pack_unsigned_int 2) (pack_webauthn (d, t, r))"
| "pack_public_key (EM_key d) = pseq (pack_unsigned_int 3) (pack_array d)"

definition unpack_public_key :: "public_key_type unpacker" where
  "unpack_public_key = ubind unpack_unsigned_int (\<lambda>w.
     if w = 0 then ubind (unpack_array 33) (\<lambda>d. ureturn (K1_key d))
     else if w = 1 then ubind (unpack_array 33) (\<lambda>d. ureturn (R1_key d))
     else if w = 2 then ubind unpack_webauthn (\<lambda>(d, t, r). ureturn (WA_key d t r))
     else if w = 3 then ubind (unpack_array 33) (\<lambda>d. ureturn (EM_key d))
     else (\<lambda>_. Inl assert_exception))"

definition pack_key_weight :: "key_weight packer" where
  "pack_key_weight k = pseq (pack_public_key (kw_key k)) (pack_word (kw_weight k))"

definition unpack_key_weight :: "key_weight unpacker" where
  "unpack_key_weight = ubind unpack_public_key (\<lambda>k. ubind unpack_word (\<lambda>w.
     ureturn \<lparr>kw_key = k, kw_weight = w\<rparr>))"

definition pack_producer_authority :: "producer_authority packer" where
  "pack_producer_authority p =
     pseq (pack_word (pa_producer_name p))
       (case pa_authority p of BSA_v0 a \<Rightarrow>
          pseq (pack_unsigned_int 0)
            (pseq (pack_word (bsa_threshold a)) (pack_vector pack_key_weight (bsa_keys a))))"

definition unpack_producer_authority :: "producer_authority unpacker" where
  "unpack_producer_authority = ubind unpack_word (\<lambda>n. ubind unpack_unsigned_int (\<lambda>i.
     ubind (uassert (i = 0)) (\<lambda>_. ubind unpack_word (\<lambda>t.
     ubind (unpack_vector unpack_key_weight) (\<lambda>ks.
       ureturn \<lparr>pa_producer_name = n, pa_authority = BSA_v0 \<lparr>bsa_threshold = t, bsa_keys = ks\<rparr>\<rparr>)))))"

definition pack_schedule :: "producer_authority_schedule packer" where
  "pack_schedule s = pseq (pack_word (pas_version s)) (pack_vector pack_producer_authority (pas_producers s))"

definition unpack_schedule :: "producer_authority_schedule unpacker" where
  "unpack_schedule = ubind unpack_word (\<lambda>v. ubind (unpack_vector unpack_producer_authority) (\<lambda>ps.
     ureturn \<lparr>pas_version = v, pas_producers = ps\<rparr>))"

definition pack_producer_key :: "producer_key packer" where
  "pack_producer_key p = pseq (pack_word (lpk_producer_name p)) (pack_public_key (lpk_block_signing_key p))"

definition unpack_producer_key :: "producer_key unpacker" where
  "unpack_producer_key = ubind unpack_word (\<lambda>n. ubind unpack_public_key (\<lambda>k.
     ureturn \<lparr>lpk_producer_name = n, lpk_block_signing_key = k\<rparr>))"

definition pack_legacy_schedule :: "legacy_producer_schedule packer" where
  "pack_legacy_schedule s = pseq (pack_word (lps_version s)) (pack_vector pack_producer_key (lps_producers s))"

definition unpack_legacy_schedule :: "legacy_producer_schedule unpacker" where
  "unpack_legacy_schedule = ubind unpack_word (\<lambda>v. ubind (unpack_vector unpack_producer_key) (\<lambda>ps.
     ureturn \<lparr>lps_version = v, lps_producers = ps\<rparr>))"

section \<open>Satisfaction of a signing authority\<close>

definition relevant_keys :: "public_key_type list \<Rightarrow> key_weight list \<Rightarrow> key_weight list" where
  "relevant_keys presented = filter (\<lambda>kw. kw_key kw \<in> set presented)"

definition key_weight_sum :: "key_weight list \<Rightarrow> nat" where
  "key_weight_sum kws = sum_list (map (unat \<circ> kw_weight) kws)"

lemma saturating_add:
  fixes t :: u32 and w :: u16
  shows "unat (t + min (0xFFFFFFFF - t) (ucast w)) = min (2 ^ 32 - 1) (unat t + unat w)"
proof -
  have t: "unat t \<le> 2 ^ 32 - 1" using unat_u32_less [of t] by simp
  have room: "unat (0xFFFFFFFF - t) = 2 ^ 32 - 1 - unat t"
  proof -
    have "(0xFFFFFFFF :: u32) = - 1" by simp
    then have "t \<le> 0xFFFFFFFF" by (metis word_n1_ge)
    then show ?thesis by (simp add: unat_sub)
  qed
  have w: "unat (ucast w :: u32) = unat w"
    using unat_u16_less [of w] by (simp add: unsigned_ucast_eq take_bit_nat_eq_self)
  have "unat (min (0xFFFFFFFF - t) (ucast w)) = min (2 ^ 32 - 1 - unat t) (unat w)"
    using room w by (simp add: min_def word_le_nat_alt)
  with t show ?thesis by (simp add: unat_word_ariths)
qed

lemma keys_satisfy_loop_exact:
  assumes "keys_satisfy_loop presented thr kws t n = (t', n')"
    and "if t < thr then unat t = S else unat thr \<le> S"
  shows "(thr \<le> t' \<longleftrightarrow> unat thr \<le> S + key_weight_sum (relevant_keys presented kws)) \<and>
    n' = n + length (relevant_keys presented kws)"
  using assms
proof (induction presented thr kws t n arbitrary: S rule: keys_satisfy_loop.induct)
  case (1 presented thr t n)
  then show ?case
    by (auto simp: relevant_keys_def key_weight_sum_def word_less_nat_alt word_le_nat_alt split: if_splits)
next
  case (2 presented thr kw kws t n)
  show ?case
  proof (cases "kw_key kw \<in> set presented")
    case False
    with 2 show ?thesis by (simp add: relevant_keys_def)
  next
    case True
    let ?t = "if t < thr then t + min (0xFFFFFFFF - t) (ucast (kw_weight kw)) else t"
    define x where "x = t + min (0xFFFFFFFF - t) (ucast (kw_weight kw))"
    have "unat x = min (2 ^ 32 - 1) (unat t + unat (kw_weight kw))"
      unfolding x_def by (rule saturating_add)
    then have "if ?t < thr then unat ?t = S + unat (kw_weight kw) else unat thr \<le> S + unat (kw_weight kw)"
      using "2.prems"(2) unat_u32_less [of thr] unfolding x_def [symmetric]
      by (auto simp: word_less_nat_alt split: if_splits)
    from "2.IH"(1) [OF True _ this] "2.prems"(1) True show ?thesis
      by (simp add: relevant_keys_def key_weight_sum_def add.assoc)
  qed
qed

lemma keys_satisfy_exact:
  "keys_satisfy_and_relevant presented (BSA_v0 a) =
     (unat (bsa_threshold a) \<le> key_weight_sum (relevant_keys presented (bsa_keys a)),
      length (relevant_keys presented (bsa_keys a)))"
  using keys_satisfy_loop_exact [of presented "bsa_threshold a" "bsa_keys a" 0 0 _ _ 0]
  by (auto simp: keys_satisfy_and_relevant_v0_def word_le_nat_alt word_less_nat_alt split: prod.split)

section \<open>Stored schedules\<close>

lemma emap_inverse:
  assumes "\<And>x. x \<in> set xs \<Longrightarrow> \<exists>y. f x = Inr y \<and> g y = Inr x"
  shows "\<exists>ys. emap f xs = Inr ys \<and> emap g ys = Inr xs"
  using assms
proof (induction xs)
  case (Cons x xs)
  from Cons.prems [of x] obtain y where "f x = Inr y" "g y = Inr x" by auto
  moreover from Cons obtain ys where "emap f xs = Inr ys" "emap g ys = Inr xs" by auto
  ultimately show ?case by (intro exI [of _ "y # ys"]) simp
qed simp

definition producer_ok :: "producer_authority \<Rightarrow> bool" where
  "producer_ok p \<longleftrightarrow> list_all (key_ok \<circ> kw_key) (bsa_keys (the_v0 (pa_authority p)))"

lemma producer_shared_image:
  assumes "producer_ok p"
  shows "\<exists>s. producer_authority_to_shared p = Inr s \<and> producer_authority_from_shared s = Inr p \<and>
    (\<forall>q. producer_equals_shared q s = Inr (q = p))"
proof -
  obtain a where a: "pa_authority p = BSA_v0 a" by (cases "pa_authority p")
  with assms emap_convert [of "bsa_keys a"] obtain ss where ss: "emap convert (bsa_keys a) = Inr ss"
    "emap to_key_weight ss = Inr (bsa_keys a)" "\<forall>ks'. equal_keys ks' ss = Inr (ks' = bsa_keys a)"
    by (auto simp: producer_ok_def)
  let ?s = "\<lparr>spa_producer_name = pa_producer_name p,
      spa_authority = Shared_BSA_v0 \<lparr>sbsa_threshold = bsa_threshold a, sbsa_keys = ss\<rparr>\<rparr>"
  have "producer_equals_shared q ?s = Inr (q = p)" for q
    using a ss
    by (cases "pa_authority q") (auto simp: producer_equals_shared_def producer_authority.equality
        block_signing_authority_v0.equality)
  moreover have "producer_authority_to_shared p = Inr ?s" "producer_authority_from_shared ?s = Inr p"
    using a ss
    by (auto simp: producer_authority_to_shared_def producer_authority_from_shared_def
        bsa_v0_to_shared_def bsa_v0_from_shared_def intro!: producer_authority.equality)
  ultimately show ?thesis by blast
qed

lemma equal_producers_iff: "length as = length bs \<Longrightarrow> equal_producers as bs \<longleftrightarrow> as = bs"
  by (induction as bs rule: list_induct2) simp_all

section \<open>Serialised schedules\<close>

lemma raw_codec_public_key: "raw_codec key_ok pack_public_key unpack_public_key"
proof (rule raw_codecI)
  fix v bs rest
  assume "key_ok v" "pack_public_key v = Inr bs"
  then show "unpack_public_key (bs @ rest) = Inr (v, rest)"
    by (cases v)
      (auto simp: unpack_public_key_def pseq_Inr_iff unsigned_codec.unp_pk [OF TrueI]
        raw_codec.unp_pk [OF raw_codec_array [of 33]]
        webauthn_codec.unp_pk [of "(_, _, _)", simplified])
qed

interpretation public_key_codec: raw_codec key_ok pack_public_key unpack_public_key
  by (rule raw_codec_public_key)

interpretation key_weight_codec: raw_codec "key_ok \<circ> kw_key" pack_key_weight unpack_key_weight
  by (rule raw_codecI)
    (auto simp: pack_key_weight_def unpack_key_weight_def pseq_Inr_iff public_key_codec.unp_pk
        word16_codec.unp_pk [OF TrueI])

interpretation producer_codec: raw_codec producer_ok pack_producer_authority unpack_producer_authority
proof (rule raw_codecI)
  fix v bs rest
  assume "producer_ok v" "pack_producer_authority v = Inr bs"
  moreover obtain a where "pa_authority v = BSA_v0 a" by (cases "pa_authority v")
  ultimately show "unpack_producer_authority (bs @ rest) = Inr (v, rest)"
    by (auto simp: producer_ok_def pack_producer_authority_def unpack_producer_authority_def pseq_Inr_iff
        unsigned_codec.unp_pk [OF TrueI] word64_codec.unp_pk [OF TrueI] word32_codec.unp_pk [OF TrueI]
        raw_codec.unp_pk [OF raw_codec_vector [OF key_weight_codec.raw_codec_axioms]]
        intro!: producer_authority.equality)
qed

interpretation schedule_codec: raw_codec "\<lambda>s. list_all producer_ok (pas_producers s)" pack_schedule unpack_schedule
  by (rule raw_codecI)
    (auto simp: pack_schedule_def unpack_schedule_def pseq_Inr_iff word32_codec.unp_pk [OF TrueI]
        raw_codec.unp_pk [OF raw_codec_vector [OF producer_codec.raw_codec_axioms]])

interpretation producer_key_codec:
  raw_codec "key_ok \<circ> lpk_block_signing_key" pack_producer_key unpack_producer_key
  by (rule raw_codecI)
    (auto simp: pack_producer_key_def unpack_producer_key_def pseq_Inr_iff public_key_codec.unp_pk
        word64_codec.unp_pk [OF TrueI])

interpretation legacy_schedule_codec:
  raw_codec "\<lambda>s. list_all (key_ok \<circ> lpk_block_signing_key) (lps_producers s)"
    pack_legacy_schedule unpack_legacy_schedule
  by (rule raw_codecI)
    (auto simp: pack_legacy_schedule_def unpack_legacy_schedule_def pseq_Inr_iff
        word32_codec.unp_pk [OF TrueI]
        raw_codec.unp_pk [OF raw_codec_vector [OF producer_key_codec.raw_codec_axioms]])

section \<open>Properties\<close>

text \<open>C30. The saturating 32-bit accumulation of \<^verbatim>\<open>keys_satisfy_and_relevant\<close> decides the threshold exactly: the first component is true when the weights of the presented keys, summed without bound, reach the threshold, and the second counts the entries whose key was presented.\<close>

theorem keys_satisfy_weighted_threshold:
  "keys_satisfy_and_relevant presented authority =
     (unat (bsa_threshold (the_v0 authority)) \<le>
        key_weight_sum (relevant_keys presented (bsa_keys (the_v0 authority))),
      length (relevant_keys presented (bsa_keys (the_v0 authority))))"
  by (cases authority) (simp only: keys_satisfy_exact block_signing_authority.sel)

text \<open>A schedule stored in the database and read back is the same schedule, and packing it gives bytes that unpack to it.\<close>

theorem schedule_shared_roundtrip:
  assumes "list_all producer_ok (pas_producers s)"
  shows "(\<exists>t. schedule_to_shared s = Inr t \<and> schedule_from_shared t = Inr s) \<and>
    (\<forall>bs rest. pack_schedule s = Inr bs \<longrightarrow> unpack_schedule (bs @ rest) = Inr (s, rest))"
proof -
  have "\<exists>ps. emap producer_authority_to_shared (pas_producers s) = Inr ps \<and>
      emap producer_authority_from_shared ps = Inr (pas_producers s)"
  proof (rule emap_inverse)
    fix p assume "p \<in> set (pas_producers s)"
    with assms have "producer_ok p" by (simp add: list_all_iff)
    then show "\<exists>y. producer_authority_to_shared p = Inr y \<and> producer_authority_from_shared y = Inr p"
      using producer_shared_image by blast
  qed
  then show ?thesis
    using assms schedule_codec.unp_pk [of s]
    by (auto simp: schedule_to_shared_def schedule_from_shared_def)
qed

definition sample_producer :: "account_name \<Rightarrow> u8 \<Rightarrow> producer_authority" where
  "sample_producer n b = \<lparr>pa_producer_name = n,
     pa_authority = BSA_v0 \<lparr>bsa_threshold = 1, bsa_keys = [\<lparr>kw_key = K1_key (replicate 33 b), kw_weight = 1\<rparr>]\<rparr>\<rparr>"

theorem schedule_shared_roundtrip_witness:
  "(\<exists>t. schedule_to_shared \<lparr>pas_version = 4, pas_producers = [sample_producer 5 1, sample_producer 6 2]\<rparr> = Inr t \<and>
     schedule_from_shared t = Inr \<lparr>pas_version = 4, pas_producers = [sample_producer 5 1, sample_producer 6 2]\<rparr>)"
  using schedule_shared_roundtrip
    [of "\<lparr>pas_version = 4, pas_producers = [sample_producer 5 1, sample_producer 6 2]\<rparr>"]
  by (simp add: producer_ok_def sample_producer_def)

text \<open>The schedule comparison by version, size and index is equality of schedules.\<close>

theorem schedule_equals_iff: "schedule_equals a b \<longleftrightarrow> a = b"
  by (auto simp: schedule_equals_def equal_producers_iff intro: producer_authority_schedule.equality)

end
