(* ===== verification/Protocol_Features.thy ===== *)
theory Protocol_Features
  imports Raw_Pack
begin

text \<open>
  Protocol features (protocol_feature_manager.cpp, protocol_feature_activation.cpp): the table of
  builtin features, the set of recognised features, the manager that records which features were
  activated at which block and undoes activations when blocks are popped, and the set of activated
  digests a block header state carries. The digest \<^verbatim>\<open>sha256::encoder\<close> computes over packed bytes
  is a parameter \<open>sha\<close>.
\<close>

section \<open>Builtin features\<close>

datatype builtin_protocol_feature_t =
    preactivate_feature
  | only_link_to_existing_permission
  | replace_deferred
  | no_duplicate_deferred_id
  | fix_linkauth_restriction
  | disallow_empty_producer_schedule
  | restrict_action_to_self
  | only_bill_first_authorizer
  | forward_setcode
  | get_sender
  | ram_restrictions
  | webauthn_key
  | wtmsig_block_signatures
  | action_return_value
  | blockchain_parameters
  | get_code_hash
  | configurable_wasm_limits
  | crypto_primitives
  | get_block_num
  | em_key
  | bls_primitives
  | disable_deferred_trxs_stage_1
  | disable_deferred_trxs_stage_2
  | disable_compression_in_transaction_merkle
  | reserved_private_fork_protocol_features

fun builtin_code :: "builtin_protocol_feature_t \<Rightarrow> nat" where
  "builtin_code preactivate_feature = 0"
| "builtin_code only_link_to_existing_permission = 1"
| "builtin_code replace_deferred = 2"
| "builtin_code no_duplicate_deferred_id = 3"
| "builtin_code fix_linkauth_restriction = 4"
| "builtin_code disallow_empty_producer_schedule = 5"
| "builtin_code restrict_action_to_self = 6"
| "builtin_code only_bill_first_authorizer = 7"
| "builtin_code forward_setcode = 8"
| "builtin_code get_sender = 9"
| "builtin_code ram_restrictions = 10"
| "builtin_code webauthn_key = 11"
| "builtin_code wtmsig_block_signatures = 12"
| "builtin_code action_return_value = 13"
| "builtin_code blockchain_parameters = 16"
| "builtin_code get_code_hash = 17"
| "builtin_code configurable_wasm_limits = 18"
| "builtin_code crypto_primitives = 19"
| "builtin_code get_block_num = 20"
| "builtin_code em_key = 21"
| "builtin_code bls_primitives = 22"
| "builtin_code disable_deferred_trxs_stage_1 = 23"
| "builtin_code disable_deferred_trxs_stage_2 = 24"
| "builtin_code disable_compression_in_transaction_merkle = 25"
| "builtin_code reserved_private_fork_protocol_features = 500000"

lemma builtin_code_inject [simp]: "builtin_code a = builtin_code b \<longleftrightarrow> a = b"
  by (cases a; cases b; simp)

instantiation builtin_protocol_feature_t :: linorder
begin

definition less_builtin_protocol_feature_t :: "builtin_protocol_feature_t \<Rightarrow> builtin_protocol_feature_t \<Rightarrow> bool" where
  "less_builtin_protocol_feature_t a b \<longleftrightarrow> builtin_code a < builtin_code b"

definition less_eq_builtin_protocol_feature_t :: "builtin_protocol_feature_t \<Rightarrow> builtin_protocol_feature_t \<Rightarrow> bool" where
  "less_eq_builtin_protocol_feature_t a b \<longleftrightarrow> builtin_code a \<le> builtin_code b"

instance
  by standard
    (auto simp: less_builtin_protocol_feature_t_def less_eq_builtin_protocol_feature_t_def
      less_le_not_le dest: antisym)

end

text \<open>A time point is a count of microseconds; only comparisons of time points occur here.\<close>

type_synonym time_point = int

record subjective_restrictions =
  sr_earliest_allowed_activation_time :: time_point
  sr_preactivation_required :: bool
  sr_enabled :: bool

record builtin_protocol_feature_spec =
  spec_codename :: string
  spec_description_digest :: digest_type
  spec_builtin_dependencies :: "builtin_protocol_feature_t list"
  spec_subjective_restrictions :: subjective_restrictions

definition default_spec ::
  "string \<Rightarrow> digest_type \<Rightarrow> builtin_protocol_feature_t list \<Rightarrow> builtin_protocol_feature_spec" where
  "default_spec codename digest deps =
     \<lparr>spec_codename = codename, spec_description_digest = digest, spec_builtin_dependencies = deps,
      spec_subjective_restrictions = \<lparr>sr_earliest_allowed_activation_time = 0,
        sr_preactivation_required = True, sr_enabled = True\<rparr>\<rparr>"

text \<open>The table \<^verbatim>\<open>builtin_protocol_feature_codenames\<close>, in the order of the source, in three parts.\<close>

definition builtin_features_1 :: "(builtin_protocol_feature_t \<times> builtin_protocol_feature_spec) list" where
  "builtin_features_1 =
    [(preactivate_feature,
      (default_spec ''PREACTIVATE_FEATURE''
        (SHA256 0xBE869B2EF37DFE64 0x27D5DF813F6B292B 0xC93B368EB9824EF8 0x103373837ABC407E)
        [])
        \<lparr>spec_subjective_restrictions := \<lparr>sr_earliest_allowed_activation_time = 0,
           sr_preactivation_required = False, sr_enabled = True\<rparr>\<rparr>),
     (only_link_to_existing_permission,
      default_spec ''ONLY_LINK_TO_EXISTING_PERMISSION''
        (SHA256 0xE2CD03461CD9C3F3 0x24664EEDBF687239 0x1694CD10AB3A2965 0x4929EC8C2B440DDB)
        []),
     (replace_deferred,
      default_spec ''REPLACE_DEFERRED''
        (SHA256 0x74843C41F8B30899 0xF6F4D349E16B2AAB 0xF2336088371D42D0 0x44D9267AC459477D)
        []),
     (no_duplicate_deferred_id,
      default_spec ''NO_DUPLICATE_DEFERRED_ID''
        (SHA256 0x70DA92EE87739645 0x80CAD1EF9FFD1E17 0x69D224F1E6EFB561 0xA075157FB46824CD)
        [replace_deferred]),
     (fix_linkauth_restriction,
      default_spec ''FIX_LINKAUTH_RESTRICTION''
        (SHA256 0xA594F2B34E71CCE9 0xA0815F6B0B2FA6C3 0xD652D65FE79D0D00 0xF9CAFC81FBC7A18D)
        []),
     (disallow_empty_producer_schedule,
      default_spec ''DISALLOW_EMPTY_PRODUCER_SCHEDULE''
        (SHA256 0xD4AB3EEC7C615328 0xC56F2E8848EB8118 0x0575D317B90D1AE8 0xCD9AE2FBBEB36478)
        []),
     (restrict_action_to_self,
      default_spec ''RESTRICT_ACTION_TO_SELF''
        (SHA256 0x9991831812671BE7 0x2CD4C122C7D8784C 0x5C1B60E591F07C47 0xF3571A7205FDBEF1)
        []),
     (only_bill_first_authorizer,
      default_spec ''ONLY_BILL_FIRST_AUTHORIZER''
        (SHA256 0xA59DC791E2131F2F 0xF2C1D79E25ADBBA2 0x4BB160A47E694FD3 0xE2733B063BC35A56)
        []),
     (forward_setcode,
      default_spec ''FORWARD_SETCODE''
        (SHA256 0x31B45BD3A663FDD4 0x7010CB95A60D6557 0xBA1A43308DBF4CAC 0x24041CA46474ED69)
        []),
     (get_sender,
      default_spec ''GET_SENDER''
        (SHA256 0xF4E6A2958B74AB1E 0x56E5DE5B0642CBD7 0xA0551AF0DDEFF86A 0x8A82F823B831D8A8)
        []),
     (ram_restrictions,
      default_spec ''RAM_RESTRICTIONS''
        (SHA256 0x54D86F09B5FD1218 0x21433BD5B98E95A4 0x00CE58E8E04D119D 0x682CAD6965D45B25)
        [])]"

definition builtin_features_2 :: "(builtin_protocol_feature_t \<times> builtin_protocol_feature_spec) list" where
  "builtin_features_2 =
    [(webauthn_key,
      default_spec ''WEBAUTHN_KEY''
        (SHA256 0xA8771EC578DF7F92 0x1FFB498293DBF299 0xF7C1D9434E8FB38B 0x34BC0C089204195B)
        []),
     (wtmsig_block_signatures,
      default_spec ''WTMSIG_BLOCK_SIGNATURES''
        (SHA256 0x7F457AAD1C0376AB 0x033F7AA9FCF5D54F 0xF716048E2735A6B8 0x108EA499EB91CC7D)
        []),
     (action_return_value,
      default_spec ''ACTION_RETURN_VALUE''
        (SHA256 0x38278E17C564B069 0xA34993AA6CED44E1 0x499EB28DD7705399 0x661911D9EB26314B)
        []),
     (configurable_wasm_limits,
      default_spec ''CONFIGURABLE_WASM_LIMITS2''
        (SHA256 0x187FB84792E93981 0xEA007FF099AE7EEF 0xDAD2F453ED39DF3A 0x627CFD0BAAE6443F)
        []),
     (blockchain_parameters,
      default_spec ''BLOCKCHAIN_PARAMETERS''
        (SHA256 0x2C1AEADC48757870 0x99CE747FA313C952 0xA77C0D1179AECAE6 0x14B375006A9359B8)
        []),
     (get_code_hash,
      default_spec ''GET_CODE_HASH''
        (SHA256 0x084AD1FE976659D2 0x024590B947360140 0xA7359F0885A8E62A 0xD46ED73AA4A78DE7)
        []),
     (crypto_primitives,
      default_spec ''CRYPTO_PRIMITIVES''
        (SHA256 0xE93DDFB85C40D668 0x651908B4EB34D85B 0x2CF68F819F0A5078 0x827D2F930BF668CC)
        [])]"

definition builtin_features_3 :: "(builtin_protocol_feature_t \<times> builtin_protocol_feature_spec) list" where
  "builtin_features_3 =
    [(get_block_num,
      default_spec ''GET_BLOCK_NUM''
        (SHA256 0xA328E6062099D7E5 0x5EFF55DD286C5E8C 0xFE41BF792068EA57 0x91B4460FEDCCB3F9)
        []),
     (em_key,
      default_spec ''EM_KEY''
        (SHA256 0x002119D7394E4544 0xC095BE95482E5CF7 0x6D883EA3F82662D5 0x601D6B6F12107C53)
        []),
     (bls_primitives,
      default_spec ''BLS_PRIMITIVES2''
        (SHA256 0xA219EAD8BCE5CCC0 0xBE5EA6FDEA129E8D 0xF2D480E277010E6D 0x1B019ECD6DD67A0C)
        []),
     (disable_deferred_trxs_stage_1,
      default_spec ''DISABLE_DEFERRED_TRXS_STAGE_1''
        (SHA256 0xC312B2AAFA3E0C44 0x13C84D577C96CE87 0xEB1B042D33F81C85 0xA9D5AC5FF5FA8D41)
        []),
     (disable_deferred_trxs_stage_2,
      default_spec ''DISABLE_DEFERRED_TRXS_STAGE_2''
        (SHA256 0x514C7732B9EE57A8 0x01EC4603B3EF401A 0x3C4CB5166979B7BF 0xBA5C0DB75F7EFE69)
        [disable_deferred_trxs_stage_1]),
     (disable_compression_in_transaction_merkle,
      default_spec ''DISABLE_COMPRESSION_IN_TRANSACTION_MERKLE''
        (SHA256 0xCF5FA77865673CD7 0xF9B76C64A6F8DD8C 0x0948806701B50D96 0x86F5963A78199B66)
        [disable_deferred_trxs_stage_2])]"

definition builtin_protocol_feature_codenames ::
  "(builtin_protocol_feature_t \<times> builtin_protocol_feature_spec) list" where
  "builtin_protocol_feature_codenames = builtin_features_1 @ builtin_features_2 @ builtin_features_3"

definition builtin_spec :: "builtin_protocol_feature_t \<Rightarrow> builtin_protocol_feature_spec option" where
  "builtin_spec codename = map_of builtin_protocol_feature_codenames codename"

definition builtin_protocol_feature_codename :: "builtin_protocol_feature_t \<Rightarrow> string result" where
  "builtin_protocol_feature_codename codename =
     (case builtin_spec codename of
        None \<Rightarrow> Inl protocol_feature_validation_exception
      | Some spec \<Rightarrow> Inr (spec_codename spec))"

text \<open>\<^verbatim>\<open>protocol_feature_base\<close> and \<^verbatim>\<open>builtin_protocol_feature\<close>; the only feature type is \<^verbatim>\<open>builtin\<close>, with value 0.\<close>

record builtin_protocol_feature =
  bpf_protocol_feature_type :: string
  bpf_description_digest :: digest_type
  bpf_dependencies :: "digest_type list"
  bpf_subjective_restrictions :: subjective_restrictions
  bpf_type :: u32
  bpf_builtin_feature_codename :: string
  bpf_codename :: builtin_protocol_feature_t

definition make_builtin_protocol_feature ::
  "builtin_protocol_feature_t \<Rightarrow> digest_type \<Rightarrow> digest_type list \<Rightarrow> subjective_restrictions
   \<Rightarrow> builtin_protocol_feature result" where
  "make_builtin_protocol_feature codename description dependencies restrictions =
     (case builtin_spec codename of
        None \<Rightarrow> Inl protocol_feature_validation_exception
      | Some spec \<Rightarrow> Inr
          \<lparr>bpf_protocol_feature_type = ''builtin'', bpf_description_digest = description,
           bpf_dependencies = dependencies, bpf_subjective_restrictions = restrictions, bpf_type = 0,
           bpf_builtin_feature_codename = spec_codename spec, bpf_codename = codename\<rparr>)"

text \<open>\<^verbatim>\<open>reflector_init\<close> after unpacking: the type string, then the codename looked up by its name.\<close>

definition bpf_reflector_init :: "builtin_protocol_feature \<Rightarrow> builtin_protocol_feature result" where
  "bpf_reflector_init f =
     (if bpf_protocol_feature_type f = ''builtin''
      then (case find (\<lambda>p. bpf_builtin_feature_codename f = spec_codename (snd p))
                   builtin_protocol_feature_codenames of
              Some p \<Rightarrow> Inr (f \<lparr>bpf_type := 0, bpf_codename := fst p\<rparr>)
            | None \<Rightarrow> Inl protocol_feature_validation_exception)
      else Inl protocol_feature_validation_exception)"

definition bpf_digest :: "(bytes \<Rightarrow> digest_type) \<Rightarrow> builtin_protocol_feature \<Rightarrow> digest_type result" where
  "bpf_digest sha f =
     ebind (pseq (pack_word (bpf_type f))
             (pseq (pack_sha256 (bpf_description_digest f))
               (pseq (pack_set pack_sha256 (bpf_dependencies f))
                 (pack_word (of_nat (builtin_code (bpf_codename f)) :: u32)))))
       (\<lambda>bs. Inr (sha bs))"

section \<open>The set of recognised features\<close>

record protocol_feature =
  pf_feature_digest :: digest_type
  pf_description_digest :: digest_type
  pf_dependencies :: "digest_type list"
  pf_earliest_allowed_activation_time :: time_point
  pf_preactivation_required :: bool
  pf_enabled :: bool
  pf_builtin_feature :: "builtin_protocol_feature_t option"

text \<open>
  \<^verbatim>\<open>_recognized_protocol_features\<close> is a \<^verbatim>\<open>std::set\<close> ordered by digest: a map from the digest to
  the feature. An iterator into it is the digest of its element, \<open>None\<close> the end iterator.
\<close>

record protocol_feature_set =
  pfs_recognized :: "(digest_type \<times> protocol_feature) list"
  pfs_builtin :: "digest_type option list"

definition empty_protocol_feature_set :: protocol_feature_set where
  "empty_protocol_feature_set = \<lparr>pfs_recognized = [], pfs_builtin = []\<rparr>"

datatype recognized_t = unrecognized | disabled | too_early | ready

definition is_recognized :: "protocol_feature_set \<Rightarrow> digest_type \<Rightarrow> time_point \<Rightarrow> recognized_t" where
  "is_recognized s feature_digest now =
     (case fm_find feature_digest (pfs_recognized s) of
        None \<Rightarrow> unrecognized
      | Some f \<Rightarrow>
          if \<not> pf_enabled f then disabled
          else if pf_earliest_allowed_activation_time f > now then too_early
          else ready)"

definition get_builtin_digest :: "protocol_feature_set \<Rightarrow> builtin_protocol_feature_t \<Rightarrow> digest_type option" where
  "get_builtin_digest s feature_codename =
     (let indx = builtin_code feature_codename in
      if indx \<ge> length (pfs_builtin s) then None
      else if pfs_builtin s ! indx = None then None
      else pfs_builtin s ! indx)"

definition get_protocol_feature :: "protocol_feature_set \<Rightarrow> digest_type \<Rightarrow> protocol_feature result" where
  "get_protocol_feature s feature_digest =
     (case fm_find feature_digest (pfs_recognized s) of
        None \<Rightarrow> Inl protocol_feature_exception
      | Some f \<Rightarrow> Inr f)"

definition validate_dependencies ::
  "protocol_feature_set \<Rightarrow> digest_type \<Rightarrow> (digest_type \<Rightarrow> bool) \<Rightarrow> bool" where
  "validate_dependencies s feature_digest validator =
     (case fm_find feature_digest (pfs_recognized s) of
        None \<Rightarrow> False
      | Some f \<Rightarrow> list_all validator (pf_dependencies f))"

text \<open>\<^verbatim>\<open>make_default_builtin_protocol_feature\<close>; the handler of a dependency may throw, and threads a state.\<close>

fun handle_dependencies ::
  "(builtin_protocol_feature_t \<Rightarrow> 's \<Rightarrow> (digest_type \<times> 's) result) \<Rightarrow> builtin_protocol_feature_t list
   \<Rightarrow> digest_type list \<Rightarrow> 's \<Rightarrow> (digest_type list \<times> 's) result" where
  "handle_dependencies handle [] dependencies s = Inr (dependencies, s)"
| "handle_dependencies handle (d # ds) dependencies s =
     ebind (handle d s) (\<lambda>(digest, s'). handle_dependencies handle ds (fs_insert digest dependencies) s')"

definition make_default_builtin_protocol_feature ::
  "builtin_protocol_feature_t \<Rightarrow> (builtin_protocol_feature_t \<Rightarrow> 's \<Rightarrow> (digest_type \<times> 's) result)
   \<Rightarrow> 's \<Rightarrow> (builtin_protocol_feature \<times> 's) result" where
  "make_default_builtin_protocol_feature codename handle_dependency s =
     (case builtin_spec codename of
        None \<Rightarrow> Inl protocol_feature_validation_exception
      | Some spec \<Rightarrow>
          ebind (handle_dependencies handle_dependency (spec_builtin_dependencies spec) [] s)
            (\<lambda>(dependencies, s').
              ebind (make_builtin_protocol_feature codename (spec_description_digest spec) dependencies
                       (spec_subjective_restrictions spec))
                (\<lambda>f. Inr (f, s'))))"

text \<open>The loop of \<^verbatim>\<open>add_feature\<close> over the dependencies: it collects the expected builtins they satisfy.\<close>

fun satisfied_dependencies ::
  "(digest_type \<times> protocol_feature) list \<Rightarrow> builtin_protocol_feature_t list \<Rightarrow> digest_type list
   \<Rightarrow> builtin_protocol_feature_t list \<Rightarrow> builtin_protocol_feature_t list result" where
  "satisfied_dependencies recognized expected [] satisfied = Inr satisfied"
| "satisfied_dependencies recognized expected (d # ds) satisfied =
     (case fm_find d recognized of
        None \<Rightarrow> Inl protocol_feature_exception
      | Some f \<Rightarrow>
          satisfied_dependencies recognized expected ds
            (case pf_builtin_feature f of
               Some b \<Rightarrow> if b \<in> set expected then fs_insert b satisfied else satisfied
             | None \<Rightarrow> satisfied))"

text \<open>Growing \<^verbatim>\<open>_recognized_builtin_protocol_features\<close> with end iterators up to an index.\<close>

definition grow_builtins :: "nat \<Rightarrow> digest_type option list \<Rightarrow> digest_type option list" where
  "grow_builtins indx v = (if indx \<ge> length v then v @ replicate (indx + 1 - length v) None else v)"

text \<open>The names of the missing builtins are only reported; looking one up fails when it has no entry.\<close>

definition missing_builtins_error ::
  "builtin_protocol_feature_t list \<Rightarrow> builtin_protocol_feature_t list \<Rightarrow> chain_error" where
  "missing_builtins_error expected satisfied =
     (if list_all (\<lambda>b. builtin_spec b \<noteq> None) (filter (\<lambda>b. b \<notin> set satisfied) expected)
      then protocol_feature_validation_exception else protocol_feature_exception)"

definition feature_entry :: "builtin_protocol_feature \<Rightarrow> digest_type \<Rightarrow> protocol_feature" where
  "feature_entry f feature_digest =
     \<lparr>pf_feature_digest = feature_digest,
      pf_description_digest = bpf_description_digest f,
      pf_dependencies = bpf_dependencies f,
      pf_earliest_allowed_activation_time =
        sr_earliest_allowed_activation_time (bpf_subjective_restrictions f),
      pf_preactivation_required = sr_preactivation_required (bpf_subjective_restrictions f),
      pf_enabled = sr_enabled (bpf_subjective_restrictions f),
      pf_builtin_feature = Some (bpf_codename f)\<rparr>"

definition add_feature ::
  "(bytes \<Rightarrow> digest_type) \<Rightarrow> builtin_protocol_feature \<Rightarrow> protocol_feature_set
   \<Rightarrow> (protocol_feature \<times> protocol_feature_set) result" where
  "add_feature sha f s =
     (case builtin_spec (bpf_codename f) of
        None \<Rightarrow> Inl protocol_feature_validation_exception
      | Some spec \<Rightarrow>
          let indx = builtin_code (bpf_codename f);
              expected = spec_builtin_dependencies spec in
          ebind (sys_assert (\<not> (indx < length (pfs_builtin s) \<and> pfs_builtin s ! indx \<noteq> None))
                   protocol_feature_exception) (\<lambda>_.
          ebind (bpf_digest sha f) (\<lambda>feature_digest.
          ebind (satisfied_dependencies (pfs_recognized s) expected (bpf_dependencies f) [])
            (\<lambda>satisfied.
          if length expected > length satisfied
          then Inl (missing_builtins_error expected satisfied)
          else (case fm_emplace feature_digest (feature_entry f feature_digest) (pfs_recognized s) of
                  (inserted, recognized) \<Rightarrow>
                    ebind (sys_assert inserted protocol_feature_exception) (\<lambda>_.
                      Inr (feature_entry f feature_digest,
                           \<lparr>pfs_recognized = recognized,
                            pfs_builtin = (grow_builtins indx (pfs_builtin s))
                              [indx := Some feature_digest]\<rparr>)))))))"

section \<open>The manager\<close>

record protocol_feature_entry =
  pfe_feature :: digest_type
  pfe_activation_block_num :: u32

text \<open>
  \<^verbatim>\<open>no_previous\<close>, the largest \<^verbatim>\<open>size_t\<close>, is \<open>None\<close>; \<^verbatim>\<open>not_active\<close> is the largest
  \<^verbatim>\<open>uint32_t\<close>, as in the code.
\<close>

record builtin_entry =
  be_previous :: "nat option"
  be_activation_block_num :: u32

definition not_active :: u32 where
  "not_active = 0xFFFFFFFF"

definition default_builtin_entry :: builtin_entry where
  "default_builtin_entry = \<lparr>be_previous = None, be_activation_block_num = not_active\<rparr>"

record protocol_feature_manager =
  pfm_set :: protocol_feature_set
  pfm_activated :: "protocol_feature_entry list"
  pfm_builtin :: "builtin_entry list"
  pfm_head :: "nat option"
  pfm_initialized :: bool

definition make_protocol_feature_manager :: "protocol_feature_set \<Rightarrow> protocol_feature_manager" where
  "make_protocol_feature_manager pfs =
     \<lparr>pfm_set = pfs, pfm_activated = [],
      pfm_builtin = replicate (length (pfs_builtin pfs)) default_builtin_entry,
      pfm_head = None, pfm_initialized = False\<rparr>"

definition is_builtin_activated ::
  "builtin_protocol_feature_t \<Rightarrow> u32 \<Rightarrow> protocol_feature_manager \<Rightarrow> bool" where
  "is_builtin_activated feature_codename current_block_num m =
     (let indx = builtin_code feature_codename in
      if indx \<ge> length (pfm_builtin m) then False
      else be_activation_block_num (pfm_builtin m ! indx) \<le> current_block_num)"

definition activate_feature ::
  "digest_type \<Rightarrow> u32 \<Rightarrow> protocol_feature_manager \<Rightarrow> protocol_feature_manager result" where
  "activate_feature feature_digest current_block_num m =
     ebind (sys_assert (pfm_initialized m) protocol_feature_exception) (\<lambda>_.
     (case fm_find feature_digest (pfs_recognized (pfm_set m)) of
        None \<Rightarrow> Inl protocol_feature_exception
      | Some f \<Rightarrow>
          ebind (sys_assert (pfm_activated m \<noteq> [] \<longrightarrow>
                   pfe_activation_block_num (last (pfm_activated m)) \<le> current_block_num)
                   protocol_feature_exception) (\<lambda>_.
          (case pf_builtin_feature f of
             None \<Rightarrow> Inl protocol_feature_exception
           | Some b \<Rightarrow>
               let indx = builtin_code b in
               ebind (sys_assert (indx < length (pfm_builtin m)) protocol_feature_exception) (\<lambda>_.
               ebind (sys_assert (be_activation_block_num (pfm_builtin m ! indx) = not_active)
                        protocol_feature_exception) (\<lambda>_.
               Inr (m \<lparr>pfm_activated := pfm_activated m @
                          [\<lparr>pfe_feature = feature_digest, pfe_activation_block_num = current_block_num\<rparr>],
                       pfm_builtin := (pfm_builtin m)[indx :=
                          \<lparr>be_previous = pfm_head m, be_activation_block_num = current_block_num\<rparr>],
                       pfm_head := Some indx\<rparr>)))))))"

text \<open>The first loop of \<^verbatim>\<open>popped_blocks_to\<close>, along the list linked by \<^verbatim>\<open>previous\<close>.\<close>

definition linked_entries :: "builtin_entry list \<Rightarrow> nat" where
  "linked_entries es = length (filter (\<lambda>e. be_previous e \<noteq> None) es)"

lemma linked_entries_update:
  "h < length es \<Longrightarrow> be_previous (es ! h) \<noteq> None \<Longrightarrow>
   linked_entries (es[h := default_builtin_entry]) < linked_entries es"
proof (induction es arbitrary: h)
  case (Cons e es)
  then show ?case by (cases h) (auto simp: linked_entries_def default_builtin_entry_def)
qed simp

lemma linked_entries_update_le:
  "linked_entries (es[h := default_builtin_entry]) \<le> linked_entries es"
proof (induction es arbitrary: h)
  case (Cons e es)
  then show ?case by (cases h) (auto simp: linked_entries_def default_builtin_entry_def)
qed simp

function pop_builtins ::
  "u32 \<Rightarrow> nat option \<Rightarrow> builtin_entry list \<Rightarrow> (nat option \<times> builtin_entry list) result" where
  "pop_builtins block_num head es =
     (case head of
        None \<Rightarrow> Inr (None, es)
      | Some h \<Rightarrow>
          if h \<ge> length es then Inl undefined_behaviour
          else if be_activation_block_num (es ! h) \<le> block_num then Inr (Some h, es)
          else pop_builtins block_num (be_previous (es ! h)) (es[h := default_builtin_entry]))"
  by auto
termination
proof (relation "measure (\<lambda>(b, head, es). linked_entries es + (case head of None \<Rightarrow> 0 | Some _ \<Rightarrow> 1))")
  fix block_num :: u32 and head :: "nat option" and es :: "builtin_entry list" and h :: nat
  assume "head = Some h" and "\<not> h \<ge> length es"
  then show "((block_num, be_previous (es ! h), es[h := default_builtin_entry]), block_num, head, es)
      \<in> measure (\<lambda>(b, head, es). linked_entries es + (case head of None \<Rightarrow> 0 | Some _ \<Rightarrow> 1))"
    using linked_entries_update [of h es] linked_entries_update_le [of es h]
    by (auto split: option.splits)
qed simp

declare pop_builtins.simps [simp del]

text \<open>The second loop, from the back of the activated features.\<close>

function pop_activated :: "u32 \<Rightarrow> protocol_feature_entry list \<Rightarrow> protocol_feature_entry list" where
  "pop_activated block_num xs =
     (if length xs > 0 \<and> block_num < pfe_activation_block_num (last xs)
      then pop_activated block_num (butlast xs) else xs)"
  by auto
termination by (relation "measure (\<lambda>(b, xs). length xs)") auto

declare pop_activated.simps [simp del]

definition popped_blocks_to :: "u32 \<Rightarrow> protocol_feature_manager \<Rightarrow> protocol_feature_manager result" where
  "popped_blocks_to block_num m =
     ebind (sys_assert (pfm_initialized m) protocol_feature_exception) (\<lambda>_.
     ebind (pop_builtins block_num (pfm_head m) (pfm_builtin m)) (\<lambda>(head, es).
       Inr (m \<lparr>pfm_activated := pop_activated block_num (pfm_activated m),
               pfm_builtin := es, pfm_head := head\<rparr>)))"

text \<open>
  \<^verbatim>\<open>init\<close> replays the activations stored in the database. When one of them throws, the scope
  guard clears \<^verbatim>\<open>_initialized\<close> and the activations made so far stay.
\<close>

fun init_activations ::
  "(digest_type \<times> u32) list \<Rightarrow> protocol_feature_manager \<Rightarrow> chain_error option \<times> protocol_feature_manager" where
  "init_activations [] m = (None, m)"
| "init_activations ((d, n) # fs) m =
     (case activate_feature d n m of
        Inl e \<Rightarrow> (Some e, m \<lparr>pfm_initialized := False\<rparr>)
      | Inr m' \<Rightarrow> init_activations fs m')"

definition pfm_init ::
  "(digest_type \<times> u32) list \<Rightarrow> protocol_feature_manager \<Rightarrow> chain_error option \<times> protocol_feature_manager" where
  "pfm_init stored m =
     (if pfm_initialized m then (Some protocol_feature_exception, m)
      else init_activations stored (m \<lparr>pfm_initialized := True\<rparr>))"

text \<open>Iterators over the activated features: an index, \<open>None\<close> the end iterator.\<close>

definition pfm_cbegin :: "protocol_feature_manager \<Rightarrow> nat option" where
  "pfm_cbegin m = (if length (pfm_activated m) = 0 then None else Some 0)"

definition at_activation_ordinal :: "u32 \<Rightarrow> protocol_feature_manager \<Rightarrow> nat option" where
  "at_activation_ordinal ordinal m =
     (if unat ordinal \<ge> length (pfm_activated m) then None else Some (unat ordinal))"

text \<open>\<^verbatim>\<open>std::lower_bound\<close> and \<^verbatim>\<open>std::upper_bound\<close> return the partition point of the predicate.\<close>

definition pfm_lower_bound :: "u32 \<Rightarrow> protocol_feature_manager \<Rightarrow> nat option" where
  "pfm_lower_bound block_num m =
     (let i = length (takeWhile (\<lambda>e. pfe_activation_block_num e < block_num) (pfm_activated m)) in
      if i = length (pfm_activated m) then None else Some i)"

definition pfm_upper_bound :: "u32 \<Rightarrow> protocol_feature_manager \<Rightarrow> nat option" where
  "pfm_upper_bound block_num m =
     (let i = length (takeWhile (\<lambda>e. \<not> block_num < pfe_activation_block_num e) (pfm_activated m)) in
      if i = length (pfm_activated m) then None else Some i)"

definition iterator_next :: "protocol_feature_manager \<Rightarrow> nat option \<Rightarrow> nat option result" where
  "iterator_next m it =
     (case it of
        None \<Rightarrow> Inl protocol_feature_exception
      | Some i \<Rightarrow> Inr (if i + 1 \<ge> length (pfm_activated m) then None else Some (i + 1)))"

definition iterator_prev :: "protocol_feature_manager \<Rightarrow> nat option \<Rightarrow> nat option result" where
  "iterator_prev m it =
     (case it of
        None \<Rightarrow> ebind (sys_assert (length (pfm_activated m) > 0) protocol_feature_exception)
                  (\<lambda>_. Inr (Some (length (pfm_activated m) - 1)))
      | Some i \<Rightarrow> ebind (sys_assert (i > 0) protocol_feature_exception) (\<lambda>_. Inr (Some (i - 1))))"

section \<open>The activation carried by a block header\<close>

text \<open>\<^verbatim>\<open>protocol_feature_activation::reflector_init\<close>: the set is filled as the digests are read.\<close>

fun activation_digests_unique :: "digest_type list \<Rightarrow> digest_type list \<Rightarrow> unit result" where
  "activation_digests_unique [] s = Inr ()"
| "activation_digests_unique (d # ds) s =
     ebind (sys_assert (d \<notin> set s) ill_formed_protocol_feature_activation)
       (\<lambda>_. activation_digests_unique ds (fs_insert d s))"

definition activation_reflector_init :: "digest_type list \<Rightarrow> digest_type list result" where
  "activation_reflector_init protocol_features =
     ebind (sys_assert (length protocol_features > 0) ill_formed_protocol_feature_activation) (\<lambda>_.
     ebind (activation_digests_unique protocol_features []) (\<lambda>_. Inr protocol_features))"

text \<open>\<^verbatim>\<open>std::set_union\<close> of two sorted ranges.\<close>

fun set_union :: "'a::linorder list \<Rightarrow> 'a list \<Rightarrow> 'a list" where
  "set_union [] ys = ys"
| "set_union xs [] = xs"
| "set_union (x # xs) (y # ys) =
     (if x < y then x # set_union xs (y # ys)
      else if y < x then y # set_union (x # xs) ys
      else x # set_union xs ys)"

definition extend_activation_set ::
  "digest_type list \<Rightarrow> digest_type list \<Rightarrow> bool \<Rightarrow> digest_type list result" where
  "extend_activation_set orig additional_features enforce_disjoint =
     (let s2 = sort additional_features;
          expected_size = length orig + length s2;
          protocol_features = fold fs_insert (set_union orig s2) []
      in ebind (sys_assert (\<not> enforce_disjoint \<or> length protocol_features = expected_size)
                  invalid_block_header_extension) (\<lambda>_. Inr protocol_features))"

section \<open>Recognised features: the invariant\<close>

text \<open>
  \<open>pfs_inv\<close>: the set is ordered, every feature is filed under its own digest, a slot of the
  builtin table holds the digest of a recognised feature with that codename, and every recognised
  feature has its dependencies recognised and its expected builtins among them.
\<close>

definition has_builtin :: "(digest_type \<times> protocol_feature) list \<Rightarrow> digest_type \<Rightarrow> builtin_protocol_feature_t \<Rightarrow> bool" where
  "has_builtin recognized d b \<longleftrightarrow>
     (case fm_find d recognized of Some f \<Rightarrow> pf_builtin_feature f = Some b | None \<Rightarrow> False)"

definition feature_closed :: "(digest_type \<times> protocol_feature) list \<Rightarrow> protocol_feature \<Rightarrow> bool" where
  "feature_closed recognized f \<longleftrightarrow>
     (\<forall>d \<in> set (pf_dependencies f). fm_find d recognized \<noteq> None) \<and>
     (\<forall>b spec. pf_builtin_feature f = Some b \<longrightarrow> builtin_spec b = Some spec \<longrightarrow>
        (\<forall>e \<in> set (spec_builtin_dependencies spec).
           \<exists>d \<in> set (pf_dependencies f). has_builtin recognized d e))"

definition pfs_inv :: "protocol_feature_set \<Rightarrow> bool" where
  "pfs_inv s \<longleftrightarrow>
     fm_wf (pfs_recognized s) \<and>
     (\<forall>d f. fm_find d (pfs_recognized s) = Some f \<longrightarrow>
        pf_feature_digest f = d \<and> feature_closed (pfs_recognized s) f \<and>
        (\<exists>b. pf_builtin_feature f = Some b \<and> get_builtin_digest s b = Some d)) \<and>
     (\<forall>b d. get_builtin_digest s b = Some d \<longrightarrow> has_builtin (pfs_recognized s) d b)"

lemma pfs_inv_empty: "pfs_inv empty_protocol_feature_set"
  by (simp add: pfs_inv_def empty_protocol_feature_set_def get_builtin_digest_def)

lemma get_builtin_digest_eq:
  "get_builtin_digest s b =
     (if builtin_code b < length (pfs_builtin s) then pfs_builtin s ! builtin_code b else None)"
  by (auto simp: get_builtin_digest_def Let_def)

lemma satisfied_dependencies_Inr:
  assumes "satisfied_dependencies recognized expected ds acc = Inr satisfied" and "fs_wf acc"
  shows "fs_wf satisfied \<and>
    set satisfied = set acc \<union> {b \<in> set expected. \<exists>d \<in> set ds. has_builtin recognized d b} \<and>
    (\<forall>d \<in> set ds. fm_find d recognized \<noteq> None)"
  using assms
proof (induction ds arbitrary: acc)
  case (Cons d ds)
  then obtain f where f: "fm_find d recognized = Some f"
    by (auto split: option.splits)
  let ?acc = "case pf_builtin_feature f of
      Some b \<Rightarrow> if b \<in> set expected then fs_insert b acc else acc | None \<Rightarrow> acc"
  have "fs_wf ?acc" using Cons.prems(2) by (auto split: option.split)
  moreover have "satisfied_dependencies recognized expected ds ?acc = Inr satisfied"
    using Cons.prems(1) f by simp
  ultimately have "fs_wf satisfied \<and>
      set satisfied = set ?acc \<union> {b \<in> set expected. \<exists>d \<in> set ds. has_builtin recognized d b} \<and>
      (\<forall>d \<in> set ds. fm_find d recognized \<noteq> None)"
    by (intro Cons.IH)
  moreover have "set ?acc = set acc \<union> {b \<in> set expected. has_builtin recognized d b}"
    using f by (auto simp: has_builtin_def split: option.splits)
  ultimately show ?case using f by auto
qed simp

text \<open>The expected builtins of the table never repeat, so counting the satisfied ones is enough.\<close>

lemma builtin_dependencies_distinct:
  assumes "builtin_spec b = Some spec"
  shows "distinct (spec_builtin_dependencies spec)"
proof -
  have "list_all (\<lambda>p. distinct (spec_builtin_dependencies (snd p))) builtin_protocol_feature_codenames"
    by (simp add: builtin_protocol_feature_codenames_def builtin_features_1_def builtin_features_2_def
        builtin_features_3_def default_spec_def)
  moreover have "(b, spec) \<in> set builtin_protocol_feature_codenames"
    using assms by (simp add: builtin_spec_def map_of_SomeD)
  ultimately show ?thesis by (auto simp: list_all_iff)
qed

lemma satisfied_covers:
  assumes "distinct expected" "distinct satisfied" "set satisfied \<subseteq> set expected"
    and "\<not> length expected > length satisfied"
  shows "set satisfied = set expected"
  using assms by (metis List.finite_set card_seteq distinct_card not_less)

lemma has_builtin_mono:
  "fm_wf m \<Longrightarrow> has_builtin m d b \<Longrightarrow> fm_find k m = None \<Longrightarrow> has_builtin (fm_assign k v m) d b"
  by (auto simp: has_builtin_def fm_find_assign split: option.splits)

lemma feature_closed_mono:
  assumes "fm_wf m" "feature_closed m f" "fm_find k m = None"
  shows "feature_closed (fm_assign k v m) f"
  using assms has_builtin_mono [OF assms(1) _ assms(3)]
  unfolding feature_closed_def by (fastforce simp: fm_find_assign)

lemma add_feature_Inr:
  assumes "add_feature sha f s = Inr (pf, s')"
  obtains spec satisfied d where
    "builtin_spec (bpf_codename f) = Some spec" "bpf_digest sha f = Inr d"
    "get_builtin_digest s (bpf_codename f) = None"
    "satisfied_dependencies (pfs_recognized s) (spec_builtin_dependencies spec) (bpf_dependencies f) [] = Inr satisfied"
    "\<not> length (spec_builtin_dependencies spec) > length satisfied"
    "fm_find d (pfs_recognized s) = None" "pf = feature_entry f d"
    "s' = \<lparr>pfs_recognized = fm_assign d (feature_entry f d) (pfs_recognized s),
           pfs_builtin = (grow_builtins (builtin_code (bpf_codename f)) (pfs_builtin s))
             [builtin_code (bpf_codename f) := Some d]\<rparr>"
  using assms
  by (auto simp: add_feature_def Let_def ebind_Inr_iff fm_emplace_def get_builtin_digest_eq
      split: option.splits if_splits)

lemma get_builtin_digest_grow:
  "pfs_builtin s' = (grow_builtins (builtin_code c) (pfs_builtin s))[builtin_code c := Some d] \<Longrightarrow>
   get_builtin_digest s' b = (if b = c then Some d else get_builtin_digest s b)"
  by (auto simp: get_builtin_digest_eq grow_builtins_def nth_append nth_list_update)

lemma add_feature_lookup:
  assumes "pfs_inv s" and "add_feature sha f s = Inr (pf, s')"
  shows "pf_builtin_feature pf = Some (bpf_codename f)"
    and "fm_find d (pfs_recognized s') =
      (if d = pf_feature_digest pf then Some pf else fm_find d (pfs_recognized s))"
    and "get_builtin_digest s' b =
      (if b = bpf_codename f then Some (pf_feature_digest pf) else get_builtin_digest s b)"
    and "bpf_digest sha f = Inr (pf_feature_digest pf)"
    and "get_builtin_digest s (bpf_codename f) = None"
    and "fm_find (pf_feature_digest pf) (pfs_recognized s) = None"
  using assms(2)
proof (atomize (full), elim add_feature_Inr, goal_cases)
  case (1 spec satisfied d')
  then show ?case
    using assms(1) get_builtin_digest_grow [of s' "bpf_codename f" s d']
    by (simp add: pfs_inv_def feature_entry_def fm_find_assign)
qed

lemma add_feature_inv:
  assumes inv: "pfs_inv s" and add: "add_feature sha f s = Inr (pf, s')"
  shows "pfs_inv s'"
proof -
  from add obtain spec satisfied d where ok:
    "builtin_spec (bpf_codename f) = Some spec"
    "satisfied_dependencies (pfs_recognized s) (spec_builtin_dependencies spec) (bpf_dependencies f) [] = Inr satisfied"
    "\<not> length (spec_builtin_dependencies spec) > length satisfied"
    "fm_find d (pfs_recognized s) = None" "pf = feature_entry f d"
    "pfs_recognized s' = fm_assign d pf (pfs_recognized s)"
    by (auto elim!: add_feature_Inr)
  have wf: "fm_wf (pfs_recognized s)" using inv by (simp add: pfs_inv_def)
  from satisfied_dependencies_Inr [OF ok(2)] have sat: "fs_wf satisfied"
    "set satisfied = {b \<in> set (spec_builtin_dependencies spec).
        \<exists>d \<in> set (bpf_dependencies f). has_builtin (pfs_recognized s) d b}"
    "\<forall>d \<in> set (bpf_dependencies f). fm_find d (pfs_recognized s) \<noteq> None" by auto
  have "set satisfied = set (spec_builtin_dependencies spec)"
    using sat ok(3) builtin_dependencies_distinct [OF ok(1)]
    by (intro satisfied_covers) (auto simp: fs_wf_distinct)
  with sat ok have "feature_closed (pfs_recognized s) pf"
    by (auto simp: feature_closed_def feature_entry_def)
  then have closed: "feature_closed (pfs_recognized s') pf"
    using feature_closed_mono [OF wf _ ok(4)] ok(6) by simp
  have digest: "pf_feature_digest pf = d" "pf_builtin_feature pf = Some (bpf_codename f)"
    using ok(5) by (simp_all add: feature_entry_def)
  note look = add_feature_lookup [OF inv add]
  show ?thesis
    unfolding pfs_inv_def
  proof (intro conjI allI impI)
    show "fm_wf (pfs_recognized s')" using wf ok(6) by simp
  next
    fix d' g assume g: "fm_find d' (pfs_recognized s') = Some g"
    show "pf_feature_digest g = d'" "feature_closed (pfs_recognized s') g"
      using g inv look closed digest feature_closed_mono [OF wf _ ok(4)] ok(6)
      by (auto simp: pfs_inv_def split: if_splits)
    show "\<exists>b. pf_builtin_feature g = Some b \<and> get_builtin_digest s' b = Some d'"
    proof (cases "d' = d")
      case True
      with g look digest show ?thesis by auto
    next
      case False
      with g look(2) digest(1) have "fm_find d' (pfs_recognized s) = Some g" by simp
      with inv obtain b where "pf_builtin_feature g = Some b" "get_builtin_digest s b = Some d'"
        by (auto simp: pfs_inv_def)
      with look(3,5) show ?thesis by auto
    qed
  next
    fix b d' assume "get_builtin_digest s' b = Some d'"
    then show "has_builtin (pfs_recognized s') d' b"
    proof (cases "b = bpf_codename f")
      case True
      then show ?thesis using \<open>get_builtin_digest s' b = Some d'\<close> look digest
        by (simp add: has_builtin_def)
    next
      case False
      then have "has_builtin (pfs_recognized s) d' b"
        using \<open>get_builtin_digest s' b = Some d'\<close> look(3) inv by (simp add: pfs_inv_def)
      then show ?thesis using has_builtin_mono [OF wf _ ok(4)] ok(6) by simp
    qed
  qed
qed

section \<open>Activations: the invariant\<close>

text \<open>
  The abstract view of the manager is the log of activations, oldest first: the index of the
  feature and the block. \<open>chain\<close> says that following \<^verbatim>\<open>previous\<close> from the head visits the given
  entries.
\<close>

definition feature_index :: "protocol_feature_set \<Rightarrow> digest_type \<Rightarrow> nat option" where
  "feature_index s d =
     (case fm_find d (pfs_recognized s) of
        None \<Rightarrow> None
      | Some f \<Rightarrow> map_option builtin_code (pf_builtin_feature f))"

definition pfm_log :: "protocol_feature_manager \<Rightarrow> (nat \<times> u32) list" where
  "pfm_log m = map (\<lambda>e. (the (feature_index (pfm_set m) (pfe_feature e)), pfe_activation_block_num e))
     (pfm_activated m)"

fun chain :: "nat option \<Rightarrow> builtin_entry list \<Rightarrow> (nat \<times> u32) list \<Rightarrow> bool" where
  "chain head es [] \<longleftrightarrow> head = None"
| "chain head es ((i, n) # xs) \<longleftrightarrow>
     head = Some i \<and> i < length es \<and> be_activation_block_num (es ! i) = n \<and>
     chain (be_previous (es ! i)) es xs"

definition pfm_inv :: "protocol_feature_manager \<Rightarrow> bool" where
  "pfm_inv m \<longleftrightarrow>
     chain (pfm_head m) (pfm_builtin m) (rev (pfm_log m)) \<and>
     distinct (map fst (pfm_log m)) \<and> sorted (map snd (pfm_log m)) \<and>
     not_active \<notin> snd ` set (pfm_log m) \<and>
     (\<forall>i < length (pfm_builtin m). i \<notin> fst ` set (pfm_log m) \<longrightarrow> pfm_builtin m ! i = default_builtin_entry)"

lemma pfm_inv_make: "pfm_inv (make_protocol_feature_manager s)"
  by (simp add: pfm_inv_def pfm_log_def make_protocol_feature_manager_def)

lemma chain_update:
  "i \<notin> fst ` set xs \<Longrightarrow> chain head (es[i := e]) xs = chain head es xs"
  by (induction xs arbitrary: head) (auto simp: nth_list_update)

lemma chain_entry:
  "chain head es xs \<Longrightarrow> (i, n) \<in> set xs \<Longrightarrow> i < length es \<and> be_activation_block_num (es ! i) = n"
  by (induction xs arbitrary: head) auto

lemma chain_unique:
  "chain head es xs \<Longrightarrow> chain head' es' xs \<Longrightarrow>
   head = head' \<and> (\<forall>i \<in> fst ` set xs. es ! i = es' ! i)"
proof (induction xs arbitrary: head head')
  case (Cons x xs)
  obtain i n where x: "x = (i, n)" by (cases x)
  with Cons.prems Cons.IH [of "be_previous (es ! i)" "be_previous (es' ! i)"] show ?case
    by (auto simp: builtin_entry.equality)
qed simp

lemma sorted_le_last: "sorted (xs :: 'a::linorder list) \<Longrightarrow> x \<in> set xs \<Longrightarrow> x \<le> last xs"
  by (induction xs) auto

lemma activate_feature_Inr:
  assumes "activate_feature d n m = Inr m'"
  obtains i where "feature_index (pfm_set m) d = Some i" "i < length (pfm_builtin m)"
    "be_activation_block_num (pfm_builtin m ! i) = not_active"
    "pfm_activated m \<noteq> [] \<longrightarrow> pfe_activation_block_num (last (pfm_activated m)) \<le> n"
    "m' = m \<lparr>pfm_activated := pfm_activated m @ [\<lparr>pfe_feature = d, pfe_activation_block_num = n\<rparr>],
             pfm_builtin := (pfm_builtin m)[i := \<lparr>be_previous = pfm_head m, be_activation_block_num = n\<rparr>],
             pfm_head := Some i\<rparr>"
    "pfm_initialized m"
  using assms
  by (auto simp: activate_feature_def feature_index_def Let_def split: option.splits)

lemma pfm_log_last:
  "pfm_log m \<noteq> [] \<Longrightarrow> snd (last (pfm_log m)) = pfe_activation_block_num (last (pfm_activated m))"
  by (simp add: pfm_log_def last_map)

lemma activate_feature_log:
  assumes inv: "pfm_inv m" and n: "n \<noteq> not_active" and act: "activate_feature d n m = Inr m'"
  shows "pfm_inv m' \<and> pfm_initialized m' \<and>
    (\<exists>i. feature_index (pfm_set m) d = Some i \<and> i \<notin> fst ` set (pfm_log m) \<and>
       pfm_log m' = pfm_log m @ [(i, n)])"
proof -
  from act obtain i where i: "feature_index (pfm_set m) d = Some i" "i < length (pfm_builtin m)"
    "be_activation_block_num (pfm_builtin m ! i) = not_active"
    "pfm_activated m \<noteq> [] \<longrightarrow> pfe_activation_block_num (last (pfm_activated m)) \<le> n"
    "m' = m \<lparr>pfm_activated := pfm_activated m @ [\<lparr>pfe_feature = d, pfe_activation_block_num = n\<rparr>],
             pfm_builtin := (pfm_builtin m)[i := \<lparr>be_previous = pfm_head m, be_activation_block_num = n\<rparr>],
             pfm_head := Some i\<rparr>" "pfm_initialized m"
    by (rule activate_feature_Inr)
  have log: "pfm_log m' = pfm_log m @ [(i, n)]" using i(1,5) by (simp add: pfm_log_def)
  have fresh: "i \<notin> fst ` set (pfm_log m)"
  proof
    assume "i \<in> fst ` set (pfm_log m)"
    then obtain k where "(i, k) \<in> set (rev (pfm_log m))" by auto
    with inv i(3) have "k = not_active" by (auto simp: pfm_inv_def dest: chain_entry)
    with \<open>(i, k) \<in> set (rev (pfm_log m))\<close> inv show False by (force simp: pfm_inv_def)
  qed
  have "sorted (map snd (pfm_log m @ [(i, n)]))"
  proof -
    have "x \<le> n" if "x \<in> set (map snd (pfm_log m))" for x
    proof -
      from that have "pfm_log m \<noteq> []" by auto
      then have "last (map snd (pfm_log m)) \<le> n"
        using i(4) pfm_log_last by (auto simp: last_map pfm_log_def)
      moreover have "x \<le> last (map snd (pfm_log m))"
        using that inv \<open>pfm_log m \<noteq> []\<close>
        by (intro sorted_le_last) (simp_all add: pfm_inv_def)
      ultimately show ?thesis by simp
    qed
    then show ?thesis using inv by (auto simp: pfm_inv_def sorted_append)
  qed
  moreover have "pfm_head m' = Some i"
    "pfm_builtin m' = (pfm_builtin m)[i := \<lparr>be_previous = pfm_head m, be_activation_block_num = n\<rparr>]"
    using i(5) by simp_all
  ultimately have "pfm_inv m'"
    using inv i(2) fresh n unfolding pfm_inv_def log
    by (simp add: chain_update nth_list_update)
  with log fresh i show ?thesis by auto
qed

section \<open>Popping blocks\<close>

lemma pop_builtins_chain:
  assumes "chain head es xs" and "distinct (map fst xs)"
  shows "\<exists>head' es'. pop_builtins b head es = Inr (head', es') \<and>
    chain head' es' (dropWhile (\<lambda>x. b < snd x) xs) \<and> length es' = length es \<and>
    (\<forall>i < length es. es' ! i = (if i \<in> fst ` set (takeWhile (\<lambda>x. b < snd x) xs)
       then default_builtin_entry else es ! i))"
  using assms
proof (induction xs arbitrary: head es)
  case Nil
  then show ?case by (simp add: pop_builtins.simps)
next
  case (Cons x xs)
  obtain i n where x: "x = (i, n)" by (cases x)
  with Cons.prems have i: "head = Some i" "i < length es" "be_activation_block_num (es ! i) = n"
    "chain (be_previous (es ! i)) es xs" "i \<notin> fst ` set xs" by auto
  show ?case
  proof (cases "b < n")
    case True
    have "chain (be_previous (es ! i)) (es[i := default_builtin_entry]) xs"
      using i by (simp add: chain_update)
    from Cons.IH [OF this] Cons.prems(2) obtain head' es' where
      "pop_builtins b (be_previous (es ! i)) (es[i := default_builtin_entry]) = Inr (head', es')"
      "chain head' es' (dropWhile (\<lambda>x. b < snd x) xs)" "length es' = length es"
      "\<forall>j < length es. es' ! j = (if j \<in> fst ` set (takeWhile (\<lambda>x. b < snd x) xs)
         then default_builtin_entry else es[i := default_builtin_entry] ! j)" by auto
    moreover from this(1) have "pop_builtins b head es = Inr (head', es')"
      using i not_le [THEN iffD2, OF True] by (simp add: pop_builtins.simps [of b "Some i" es])
    ultimately show ?thesis
      using True x i(2) by (intro exI [of _ head'] exI [of _ es']) (auto simp: nth_list_update)
  next
    case False
    with i x Cons.prems show ?thesis
      by (auto simp: pop_builtins.simps [of b "Some i" es] not_less)
  qed
qed

lemma pop_activated_eq:
  "pop_activated b xs = rev (dropWhile (\<lambda>e. b < pfe_activation_block_num e) (rev xs))"
proof (induction xs rule: rev_induct)
  case (snoc x xs)
  then show ?case by (subst pop_activated.simps) simp
qed (simp add: pop_activated.simps)

lemma drop_back_sorted:
  "sorted (map snd xs) \<Longrightarrow> rev (dropWhile (\<lambda>x. b < snd x) (rev xs)) = filter (\<lambda>x. snd x \<le> b) xs"
proof (induction xs rule: rev_induct)
  case (snoc x xs)
  show ?case
  proof (cases "b < snd x")
    case True
    with snoc show ?thesis by (simp add: sorted_append)
  next
    case False
    have "\<forall>y \<in> set xs. snd y \<le> b" using snoc.prems False by (fastforce simp: sorted_append)
    with False show ?thesis by (simp add: filter_id_conv)
  qed
qed simp

lemma pfm_log_pop:
  "pfm_log (m \<lparr>pfm_activated := pop_activated b (pfm_activated m), pfm_builtin := es, pfm_head := h\<rparr>) =
   rev (dropWhile (\<lambda>x. b < snd x) (rev (pfm_log m)))"
  by (simp add: pfm_log_def pop_activated_eq rev_map dropWhile_map comp_def)

lemma popped_blocks_to_log:
  assumes inv: "pfm_inv m" and init: "pfm_initialized m"
  shows "\<exists>m'. popped_blocks_to b m = Inr m' \<and> pfm_inv m' \<and> pfm_initialized m' \<and>
    pfm_set m' = pfm_set m \<and> length (pfm_builtin m') = length (pfm_builtin m) \<and>
    pfm_activated m' = pop_activated b (pfm_activated m) \<and>
    pfm_log m' = filter (\<lambda>x. snd x \<le> b) (pfm_log m)"
proof -
  let ?xs = "rev (pfm_log m)" let ?p = "\<lambda>x. b < snd x"
  from inv have "chain (pfm_head m) (pfm_builtin m) ?xs" "distinct (map fst ?xs)"
    by (simp_all add: pfm_inv_def rev_map [symmetric])
  from pop_builtins_chain [OF this, of b] obtain h es where pop:
    "pop_builtins b (pfm_head m) (pfm_builtin m) = Inr (h, es)"
    "chain h es (dropWhile ?p ?xs)" "length es = length (pfm_builtin m)"
    "\<forall>i < length es. es ! i = (if i \<in> fst ` set (takeWhile ?p ?xs) then default_builtin_entry
       else pfm_builtin m ! i)" by auto
  let ?m = "m \<lparr>pfm_activated := pop_activated b (pfm_activated m), pfm_builtin := es, pfm_head := h\<rparr>"
  have log: "pfm_log ?m = filter (\<lambda>x. snd x \<le> b) (pfm_log m)" "rev (pfm_log ?m) = dropWhile ?p ?xs"
  proof -
    show "rev (pfm_log ?m) = dropWhile ?p ?xs" by (simp only: pfm_log_pop rev_rev_ident)
    show "pfm_log ?m = filter (\<lambda>x. snd x \<le> b) (pfm_log m)"
      using inv drop_back_sorted [of "pfm_log m" b] by (simp add: pfm_log_pop pfm_inv_def)
  qed
  have gone: "i \<in> fst ` set (takeWhile ?p ?xs) \<or> i \<in> fst ` set (pfm_log ?m)" if "i \<in> fst ` set (pfm_log m)" for i
  proof -
    have "set (pfm_log m) = set (takeWhile ?p ?xs) \<union> set (dropWhile ?p ?xs)"
      by (metis set_append set_rev takeWhile_dropWhile_id)
    moreover have "set (pfm_log ?m) = set (dropWhile ?p ?xs)" using log(2) by (metis set_rev)
    ultimately show ?thesis using that by auto
  qed
  have "pfm_inv ?m"
    unfolding pfm_inv_def
  proof (intro conjI allI impI)
    show "chain (pfm_head ?m) (pfm_builtin ?m) (rev (pfm_log ?m))" using pop(2) log(2) by simp
    show "distinct (map fst (pfm_log ?m))" "sorted (map snd (pfm_log ?m))"
      using inv by (simp_all add: log pfm_inv_def distinct_map_filter sorted_filter)
    show "not_active \<notin> snd ` set (pfm_log ?m)" using inv by (auto simp: log pfm_inv_def)
    fix i assume "i < length (pfm_builtin ?m)" "i \<notin> fst ` set (pfm_log ?m)"
    moreover from this(2) gone [of i] have
      "i \<in> fst ` set (takeWhile ?p ?xs) \<or> i \<notin> fst ` set (pfm_log m)" by blast
    ultimately show "pfm_builtin ?m ! i = default_builtin_entry"
      using pop(3,4) inv by (elim disjE) (simp_all add: pfm_inv_def)
  qed
  with pop(1,3) log(1) init show ?thesis
    by (intro exI [of _ ?m]) (simp add: popped_blocks_to_def)
qed

text \<open>The log determines the whole state of the manager.\<close>

lemma pfm_determined:
  assumes "pfm_inv m" "pfm_inv m'" "pfm_set m = pfm_set m'" "pfm_activated m = pfm_activated m'"
    "length (pfm_builtin m) = length (pfm_builtin m')" "pfm_initialized m = pfm_initialized m'"
  shows "m = m'"
proof -
  have log: "pfm_log m = pfm_log m'" using assms(3,4) by (simp add: pfm_log_def)
  have chains: "chain (pfm_head m) (pfm_builtin m) (rev (pfm_log m))"
    "chain (pfm_head m') (pfm_builtin m') (rev (pfm_log m))"
    using assms(1,2) log by (simp_all add: pfm_inv_def)
  from chain_unique [OF this] have head: "pfm_head m = pfm_head m'"
    and same: "\<forall>i \<in> fst ` set (pfm_log m). pfm_builtin m ! i = pfm_builtin m' ! i" by auto
  have "pfm_builtin m ! i = pfm_builtin m' ! i" if "i < length (pfm_builtin m)" for i
    using that same assms(1,2,5) log by (cases "i \<in> fst ` set (pfm_log m)") (auto simp: pfm_inv_def)
  then have "pfm_builtin m = pfm_builtin m'" using assms(5) by (simp add: nth_equalityI)
  with assms head show ?thesis by (simp add: protocol_feature_manager.equality)
qed

section \<open>The interface the controller relies on\<close>

text \<open>
  What the controller assumes of a feature manager when it applies and pops blocks: an activation
  appends to the log, and popping to a block keeps exactly the activations up to it.
\<close>

locale activation_log =
  fixes inv :: "'s \<Rightarrow> bool" and log :: "'s \<Rightarrow> (nat \<times> u32) list"
    and activate :: "'f \<Rightarrow> u32 \<Rightarrow> 's \<Rightarrow> 's result" and rollback :: "u32 \<Rightarrow> 's \<Rightarrow> 's result"
  assumes activate_inv: "inv s \<Longrightarrow> n \<noteq> not_active \<Longrightarrow> activate f n s = Inr s' \<Longrightarrow> inv s'"
    and activate_appends: "inv s \<Longrightarrow> n \<noteq> not_active \<Longrightarrow> activate f n s = Inr s' \<Longrightarrow>
      \<exists>i. log s' = log s @ [(i, n)]"
    and rollback_total: "inv s \<Longrightarrow> \<exists>s'. rollback b s = Inr s'"
    and rollback_inv: "inv s \<Longrightarrow> rollback b s = Inr s' \<Longrightarrow> inv s'"
    and rollback_log: "inv s \<Longrightarrow> rollback b s = Inr s' \<Longrightarrow> log s' = filter (\<lambda>x. snd x \<le> b) (log s)"
begin

lemma activate_all_log:
  "inv s \<Longrightarrow> not_active \<notin> snd ` set fs \<Longrightarrow> efold (\<lambda>(f, n). activate f n) fs s = Inr s' \<Longrightarrow>
   inv s' \<and> (\<exists>xs. log s' = log s @ xs \<and> map snd xs = map snd fs)"
proof (induction fs arbitrary: s)
  case (Cons x fs)
  obtain f n where x: "x = (f, n)" by (cases x)
  with Cons.prems(3) obtain t where t: "activate f n s = Inr t" "efold (\<lambda>(f, n). activate f n) fs t = Inr s'"
    by (auto simp: ebind_Inr_iff)
  from Cons.prems(2) x have n: "n \<noteq> not_active" "not_active \<notin> snd ` set fs" by auto
  from activate_inv [OF Cons.prems(1) n(1) t(1)] have "inv t" .
  from Cons.IH [OF this n(2) t(2)] obtain xs where "inv s'" "log s' = log t @ xs" "map snd xs = map snd fs"
    by blast
  moreover from activate_appends [OF Cons.prems(1) n(1) t(1)] obtain i where "log t = log s @ [(i, n)]" ..
  ultimately show ?case using x by (auto intro!: exI [of _ "(i, n) # xs"])
qed simp

text \<open>Switching back from a fork: the activations made above the common ancestor are undone, the others stay.\<close>

lemma rollback_fork:
  assumes "inv s" "not_active \<notin> snd ` set fs" "efold (\<lambda>(f, n). activate f n) fs s = Inr s'" "\<forall>x \<in> set fs. b < snd x"
  shows "\<exists>t. rollback b s' = Inr t \<and> inv t \<and> log t = filter (\<lambda>x. snd x \<le> b) (log s)"
proof -
  from activate_all_log [OF assms(1-3)] obtain xs where xs: "inv s'" "log s' = log s @ xs"
    "map snd xs = map snd fs" by blast
  have "\<forall>k \<in> set (map snd fs). b < k" using assms(4) by simp
  then have "\<forall>k \<in> set (map snd xs). b < k" by (simp only: xs(3))
  then have "filter (\<lambda>x. snd x \<le> b) xs = []" by (auto simp: filter_empty_conv)
  with xs rollback_total [of s' b] rollback_inv [of s' b] rollback_log [of s' b] show ?thesis by auto
qed

end

definition pfm_ok :: "protocol_feature_manager \<Rightarrow> bool" where
  "pfm_ok m \<longleftrightarrow> pfm_inv m \<and> pfm_initialized m"

interpretation manager_log: activation_log pfm_ok pfm_log activate_feature popped_blocks_to
proof unfold_locales
  show "pfm_ok m \<Longrightarrow> n \<noteq> not_active \<Longrightarrow> activate_feature d n m = Inr m' \<Longrightarrow> pfm_ok m'" for m n d m'
    using activate_feature_log [of m n d m'] by (auto simp: pfm_ok_def)
  show "pfm_ok m \<Longrightarrow> n \<noteq> not_active \<Longrightarrow> activate_feature d n m = Inr m' \<Longrightarrow>
      \<exists>i. pfm_log m' = pfm_log m @ [(i, n)]" for m n d m'
    using activate_feature_log [of m n d m'] by (auto simp: pfm_ok_def)
  show "pfm_ok m \<Longrightarrow> \<exists>m'. popped_blocks_to b m = Inr m'" for m b
    using popped_blocks_to_log [of m b] by (auto simp: pfm_ok_def)
  show "pfm_ok m \<Longrightarrow> popped_blocks_to b m = Inr m' \<Longrightarrow> pfm_ok m'" for m b m'
    using popped_blocks_to_log [of m b] by (auto simp: pfm_ok_def)
  show "pfm_ok m \<Longrightarrow> popped_blocks_to b m = Inr m' \<Longrightarrow>
      pfm_log m' = filter (\<lambda>x. snd x \<le> b) (pfm_log m)" for m b m'
    using popped_blocks_to_log [of m b] by (auto simp: pfm_ok_def)
qed

text \<open>The activations of a sequence of blocks, as the controller makes them.\<close>

definition activate_features ::
  "(digest_type \<times> u32) list \<Rightarrow> protocol_feature_manager \<Rightarrow> protocol_feature_manager result" where
  "activate_features = efold (\<lambda>(d, n). activate_feature d n)"

lemma activate_all_keeps:
  "activate_features fs m = Inr m' \<Longrightarrow>
   pfm_set m' = pfm_set m \<and> length (pfm_builtin m') = length (pfm_builtin m) \<and>
   (\<exists>es. pfm_activated m' = pfm_activated m @ es \<and> map pfe_activation_block_num es = map snd fs)"
proof (induction fs arbitrary: m)
  case (Cons x fs)
  obtain d n where x: "x = (d, n)" by (cases x)
  with Cons.prems obtain t where t: "activate_feature d n m = Inr t" "activate_features fs t = Inr m'"
    by (auto simp: activate_features_def ebind_Inr_iff)
  from Cons.IH [OF t(2)] obtain es where "pfm_set m' = pfm_set t"
    "length (pfm_builtin m') = length (pfm_builtin t)" "pfm_activated m' = pfm_activated t @ es"
    "map pfe_activation_block_num es = map snd fs" by blast
  with t(1) x show ?case by (auto elim!: activate_feature_Inr)
qed (simp add: activate_features_def)

lemma pop_activated_append:
  "\<forall>e \<in> set es. b < pfe_activation_block_num e \<Longrightarrow> pop_activated b (xs @ es) = pop_activated b xs"
  by (simp add: pop_activated_eq dropWhile_append)

lemma pop_activated_id:
  "\<forall>e \<in> set xs. pfe_activation_block_num e \<le> b \<Longrightarrow> pop_activated b xs = xs"
  by (cases xs rule: rev_cases) (auto simp: pop_activated_eq)

section \<open>Sets of activated digests\<close>

lemma fold_fs_insert: "fs_wf acc \<Longrightarrow> fs_wf (fold fs_insert xs acc) \<and> set (fold fs_insert xs acc) = set xs \<union> set acc"
  by (induction xs arbitrary: acc) auto

lemma set_set_union [simp]: "set (set_union xs ys) = set xs \<union> set ys"
  by (induction xs ys rule: set_union.induct) auto

lemma extend_activation_set_eq:
  assumes "fs_wf orig"
  shows "extend_activation_set orig ds e =
    (if e \<longrightarrow> distinct ds \<and> set orig \<inter> set ds = {}
     then Inr (fold fs_insert (set_union orig (sort ds)) []) else Inl invalid_block_header_extension)"
proof -
  let ?u = "fold fs_insert (set_union orig (sort ds)) []"
  have u: "fs_wf ?u" "set ?u = set orig \<union> set ds" using fold_fs_insert [of "[]" "set_union orig (sort ds)"] by simp_all
  have "length ?u = card (set orig \<union> set ds)" using u distinct_card [OF fs_wf_distinct [OF u(1)]] by simp
  moreover have "length orig = card (set orig)" using distinct_card [OF fs_wf_distinct [OF assms]] by simp
  moreover have "card (set orig \<union> set ds) + card (set orig \<inter> set ds) = card (set orig) + card (set ds)"
    using card_Un_Int [of "set orig" "set ds"] by simp
  moreover have "card (set ds) \<le> length ds" "card (set ds) = length ds \<longleftrightarrow> distinct ds"
    by (auto simp: card_length card_distinct distinct_card)
  moreover have "card (set orig \<inter> set ds) = 0 \<longleftrightarrow> set orig \<inter> set ds = {}" by simp
  ultimately have "length ?u = length orig + length ds \<longleftrightarrow> distinct ds \<and> set orig \<inter> set ds = {}"
    by linarith
  then show ?thesis by (simp add: extend_activation_set_def Let_def ebind_sys_assert)
qed

lemma activation_digests_unique_iff:
  "activation_digests_unique ds s = (if distinct ds \<and> set ds \<inter> set s = {} then Inr () else Inl ill_formed_protocol_feature_activation)"
  by (induction ds arbitrary: s) (auto simp: ebind_sys_assert)

section \<open>The table of builtins\<close>

lemmas builtin_table_defs =
  builtin_protocol_feature_codenames_def builtin_features_1_def builtin_features_2_def
  builtin_features_3_def default_spec_def

lemma builtin_table_keys: "distinct (map fst builtin_protocol_feature_codenames)"
  by (simp add: builtin_table_defs)

lemma builtin_table_names: "distinct (map (spec_codename \<circ> snd) builtin_protocol_feature_codenames)"
  by (simp add: builtin_table_defs)

lemma builtin_table_deps:
  "list_all (\<lambda>(b, spec). list_all (\<lambda>d. d < b \<and> d \<in> fst ` set builtin_protocol_feature_codenames)
     (spec_builtin_dependencies spec)) builtin_protocol_feature_codenames"
  by (simp add: builtin_table_defs less_builtin_protocol_feature_t_def)

lemma builtin_spec_in: "builtin_spec b = Some spec \<longleftrightarrow> (b, spec) \<in> set builtin_protocol_feature_codenames"
  by (simp add: builtin_spec_def map_of_eq_Some_iff [OF builtin_table_keys])

lemma find_distinct:
  "distinct (map g xs) \<Longrightarrow> x \<in> set xs \<Longrightarrow> find (\<lambda>y. g x = g y) xs = Some x"
  by (induction xs) (auto simp: image_iff)

lemma find_builtin_by_name:
  assumes "(b, spec) \<in> set builtin_protocol_feature_codenames"
  shows "find (\<lambda>p. spec_codename spec = spec_codename (snd p)) builtin_protocol_feature_codenames = Some (b, spec)"
  using find_distinct [OF builtin_table_names assms] by simp

lemma is_builtin_activated_log:
  assumes inv: "pfm_inv m" and n: "n \<noteq> not_active"
  shows "is_builtin_activated f n m \<longleftrightarrow> (\<exists>k. (builtin_code f, k) \<in> set (pfm_log m) \<and> k \<le> n)"
proof (cases "builtin_code f \<in> fst ` set (pfm_log m)")
  case True
  then obtain k where k: "(builtin_code f, k) \<in> set (rev (pfm_log m))" by auto
  with inv have e: "builtin_code f < length (pfm_builtin m)"
    "be_activation_block_num (pfm_builtin m ! builtin_code f) = k"
    by (auto simp: pfm_inv_def dest: chain_entry)
  have "k' = k" if "(builtin_code f, k') \<in> set (pfm_log m)" for k'
    using that k inv by (auto simp: pfm_inv_def dest: eq_key_imp_eq_value)
  then have "(\<exists>k'. (builtin_code f, k') \<in> set (pfm_log m) \<and> k' \<le> n) \<longleftrightarrow> k \<le> n"
    using k unfolding set_rev by blast
  moreover have "is_builtin_activated f n m \<longleftrightarrow> k \<le> n"
    using e by (simp add: is_builtin_activated_def)
  ultimately show ?thesis by simp
next
  case False
  have "not_active = - 1" by (simp add: not_active_def)
  then have "n \<le> not_active" by (metis word_n1_ge)
  with n have "\<not> not_active \<le> n" by (metis antisym)
  moreover have "be_activation_block_num (pfm_builtin m ! builtin_code f) = not_active"
    if "builtin_code f < length (pfm_builtin m)"
    using that False inv by (simp add: pfm_inv_def default_builtin_entry_def)
  ultimately have "\<not> is_builtin_activated f n m" by (simp add: is_builtin_activated_def Let_def)
  moreover have "(builtin_code f, k) \<notin> set (pfm_log m)" for k using False by force
  ultimately show ?thesis by simp
qed

lemma activated_then_popped:
  assumes "pfm_ok m" and "\<forall>e \<in> set (pfm_activated m). pfe_activation_block_num e \<le> b"
    and "activate_features fs m = Inr m'"
    and "not_active \<notin> snd ` set fs" and "\<forall>x \<in> set fs. b < snd x"
  shows "popped_blocks_to b m' = Inr m"
proof -
  from assms(3) have run: "efold (\<lambda>(d, n). activate_feature d n) fs m = Inr m'"
    by (simp add: activate_features_def)
  from manager_log.activate_all_log [OF assms(1,4) run] have m': "pfm_ok m'" by blast
  then obtain t where t: "popped_blocks_to b m' = Inr t" "pfm_inv t" "pfm_initialized t"
    "pfm_set t = pfm_set m'" "length (pfm_builtin t) = length (pfm_builtin m')"
    "pfm_activated t = pop_activated b (pfm_activated m')"
    using popped_blocks_to_log [of m' b] by (auto simp: pfm_ok_def)
  from activate_all_keeps [OF assms(3)] obtain es where keep: "pfm_set m' = pfm_set m"
    "length (pfm_builtin m') = length (pfm_builtin m)" "pfm_activated m' = pfm_activated m @ es"
    "map pfe_activation_block_num es = map snd fs" by blast
  have "\<forall>k \<in> set (map pfe_activation_block_num es). b < k" using keep(4) assms(5) by simp
  then have "pfm_activated t = pfm_activated m"
    using t(6) keep(3) assms(2) by (simp add: pop_activated_append pop_activated_id)
  then have "t = m"
    using t keep assms(1) by (intro pfm_determined) (simp_all add: pfm_ok_def)
  with t(1) show ?thesis by simp
qed

section \<open>Properties\<close>

text \<open>C27. Applying the blocks of a fork and popping back to the common ancestor restores the feature manager exactly: after any sequence of activations at blocks above \<open>b\<close>, \<^verbatim>\<open>popped_blocks_to(b)\<close> gives back the very state before them, with its linked list of builtin activations.\<close>

theorem fork_switch_restores:
  assumes "pfm_ok m" and "\<forall>e \<in> set (pfm_activated m). pfe_activation_block_num e \<le> b"
    and "activate_features fs m = Inr m'"
    and "not_active \<notin> snd ` set fs" and "\<forall>x \<in> set fs. b < snd x"
  shows "popped_blocks_to b m' = Inr m"
  using assms by (rule activated_then_popped)

definition sample_feature :: "digest_type \<Rightarrow> builtin_protocol_feature_t \<Rightarrow> protocol_feature" where
  "sample_feature d b = \<lparr>pf_feature_digest = d, pf_description_digest = d, pf_dependencies = [],
     pf_earliest_allowed_activation_time = 0, pf_preactivation_required = True, pf_enabled = True,
     pf_builtin_feature = Some b\<rparr>"

definition sample_manager :: protocol_feature_manager where
  "sample_manager = (make_protocol_feature_manager
     \<lparr>pfs_recognized = [(SHA256 1 0 0 0, sample_feature (SHA256 1 0 0 0) preactivate_feature),
                        (SHA256 2 0 0 0, sample_feature (SHA256 2 0 0 0) replace_deferred)],
      pfs_builtin = [Some (SHA256 1 0 0 0), None, Some (SHA256 2 0 0 0)]\<rparr>) \<lparr>pfm_initialized := True\<rparr>"

lemma pfm_inv_initialized [simp]: "pfm_inv (m \<lparr>pfm_initialized := b\<rparr>) = pfm_inv m"
  by (simp add: pfm_inv_def pfm_log_def)

lemma sample_manager_ok: "pfm_ok sample_manager"
  by (simp add: pfm_ok_def sample_manager_def pfm_inv_make)

lemma sample_manager_activate:
  "\<exists>m'. activate_features [(SHA256 1 0 0 0, 7), (SHA256 2 0 0 0, 9)] sample_manager = Inr m'"
  by (simp add: activate_features_def sample_manager_def make_protocol_feature_manager_def
      activate_feature_def sample_feature_def Let_def default_builtin_entry_def numeral_3_eq_3
      nth_list_update)

theorem fork_switch_restores_witness:
  "\<exists>m'. activate_features [(SHA256 1 0 0 0, 7), (SHA256 2 0 0 0, 9)] sample_manager = Inr m' \<and>
     popped_blocks_to 5 m' = Inr sample_manager"
proof -
  obtain m' where run: "activate_features [(SHA256 1 0 0 0, 7), (SHA256 2 0 0 0, 9)] sample_manager = Inr m'"
    using sample_manager_activate by blast
  have "popped_blocks_to 5 m' = Inr sample_manager"
    by (rule fork_switch_restores [OF sample_manager_ok _ run])
      (simp_all add: sample_manager_def make_protocol_feature_manager_def not_active_def)
  with run show ?thesis by blast
qed

text \<open>C35. \<^verbatim>\<open>popped_blocks_to\<close> always succeeds on an initialised manager and keeps exactly the activations at blocks up to \<open>b\<close>; afterwards a builtin counts as activated at block \<open>n\<close> exactly when it was activated at a block at most \<open>b\<close> and at most \<open>n\<close>.\<close>

theorem popped_blocks_keeps_prefix:
  assumes "pfm_ok m"
  shows "\<exists>m'. popped_blocks_to b m = Inr m' \<and> pfm_ok m' \<and>
    pfm_log m' = filter (\<lambda>x. snd x \<le> b) (pfm_log m) \<and>
    (\<forall>f n. n \<noteq> not_active \<longrightarrow> is_builtin_activated f n m' =
       (\<exists>k. (builtin_code f, k) \<in> set (pfm_log m) \<and> k \<le> b \<and> k \<le> n))"
proof -
  from assms popped_blocks_to_log [of m b] obtain m' where m': "popped_blocks_to b m = Inr m'"
    "pfm_inv m'" "pfm_initialized m'" "pfm_log m' = filter (\<lambda>x. snd x \<le> b) (pfm_log m)"
    by (auto simp: pfm_ok_def)
  then show ?thesis
    using is_builtin_activated_log [OF m'(2)]
    by (intro exI [of _ m']) (auto simp: pfm_ok_def)
qed

theorem popped_blocks_keeps_prefix_witness:
  "pfm_ok sample_manager \<and>
   (\<exists>m'. popped_blocks_to 5 sample_manager = Inr m' \<and> pfm_ok m' \<and>
      pfm_log m' = filter (\<lambda>x. snd x \<le> 5) (pfm_log sample_manager))"
  using popped_blocks_keeps_prefix [OF sample_manager_ok, of 5] sample_manager_ok by blast

text \<open>C34. \<^verbatim>\<open>activate_feature\<close> succeeds exactly when the manager is initialised, the digest is recognised as a builtin the manager has a slot for, no later activation exists and this builtin is not active yet; otherwise it throws \<^verbatim>\<open>protocol_feature_exception\<close>. A successful activation appends the feature with its block number to the log, keeps the invariant and leaves the set of recognised features as it is. The manager satisfies its invariant, and the block number is not the one that marks features that are not active.\<close>

theorem activate_feature_exact:
  assumes "pfm_inv m" and "n \<noteq> not_active"
  shows "(let allowed = (pfm_initialized m \<and> (\<exists>i. feature_index (pfm_set m) d = Some i \<and> i < length (pfm_builtin m) \<and>
             i \<notin> fst ` set (pfm_log m)) \<and> (\<forall>x \<in> set (pfm_log m). snd x \<le> n))
     in case activate_feature d n m of
       Inl e \<Rightarrow> e = protocol_feature_exception \<and> \<not> allowed
     | Inr m' \<Rightarrow> allowed \<and> pfm_inv m' \<and> pfm_initialized m' \<and> pfm_set m' = pfm_set m \<and>
         (\<exists>i. feature_index (pfm_set m) d = Some i \<and> pfm_log m' = pfm_log m @ [(i, n)]))"
proof (cases "activate_feature d n m")
  case (Inr m')
  then obtain i where i: "feature_index (pfm_set m) d = Some i" "i < length (pfm_builtin m)" "pfm_initialized m"
    "pfm_set m' = pfm_set m" by (rule activate_feature_Inr) auto
  from activate_feature_log [OF assms Inr] i(1) have log: "pfm_inv m'" "pfm_initialized m'" "i \<notin> fst ` set (pfm_log m)"
    "pfm_log m' = pfm_log m @ [(i, n)]" by auto
  then have "\<forall>x \<in> set (pfm_log m). snd x \<le> n" by (simp add: pfm_inv_def sorted_append)
  with Inr i log show ?thesis by simp
next
  case (Inl e)
  have "be_activation_block_num (pfm_builtin m ! i) = not_active"
    if "i < length (pfm_builtin m)" "i \<notin> fst ` set (pfm_log m)" for i
    using that assms(1) by (simp add: pfm_inv_def default_builtin_entry_def)
  moreover have "pfe_activation_block_num (last (pfm_activated m)) \<le> n"
    if "\<forall>x \<in> set (pfm_log m). snd x \<le> n" "pfm_activated m \<noteq> []"
    using that by (simp add: pfm_log_def)
  ultimately show ?thesis
    using Inl by (auto simp: activate_feature_def feature_index_def ebind_sys_assert Let_def
        split: option.splits if_splits)
qed

theorem activate_feature_exact_witness:
  "pfm_inv sample_manager \<and>
   (case activate_feature (SHA256 9 9 9 9) 7 sample_manager of
      Inl e \<Rightarrow> e = protocol_feature_exception | Inr m' \<Rightarrow> pfm_inv m')"
  using activate_feature_exact [of sample_manager 7 "SHA256 9 9 9 9"] sample_manager_ok
  by (auto simp: pfm_ok_def not_active_def split: sum.splits)

text \<open>C36. \<^verbatim>\<open>add_feature\<close> keeps the set of recognised features closed: the digest index and the builtin table agree, every dependency of a recognised feature is recognised, and its expected builtins are among them. The new feature is found under its codename and digest, and nothing else changes.\<close>

theorem add_feature_closed:
  assumes "pfs_inv s" and "add_feature sha f s = Inr (pf, s')"
  shows "pfs_inv s' \<and> bpf_digest sha f = Inr (pf_feature_digest pf) \<and>
    (\<forall>b. get_builtin_digest s' b =
       (if b = bpf_codename f then Some (pf_feature_digest pf) else get_builtin_digest s b)) \<and>
    (\<forall>d. get_protocol_feature s' d =
       (if d = pf_feature_digest pf then Inr pf else get_protocol_feature s d))"
  using add_feature_inv [OF assms] add_feature_lookup [OF assms]
  by (simp add: get_protocol_feature_def)

definition sample_builtin :: builtin_protocol_feature where
  "sample_builtin = \<lparr>bpf_protocol_feature_type = ''builtin'', bpf_description_digest = SHA256 5 6 7 8,
     bpf_dependencies = [], bpf_subjective_restrictions = \<lparr>sr_earliest_allowed_activation_time = 0,
       sr_preactivation_required = False, sr_enabled = True\<rparr>, bpf_type = 0,
     bpf_builtin_feature_codename = ''GET_SENDER'', bpf_codename = get_sender\<rparr>"

lemma sample_builtin_spec:
  "\<exists>spec. builtin_spec get_sender = Some spec \<and> spec_builtin_dependencies spec = []"
  by (simp add: builtin_spec_def builtin_table_defs)

lemma sample_add_feature:
  "\<exists>r. add_feature (\<lambda>bs. SHA256 (of_nat (length bs)) 0 0 0) sample_builtin empty_protocol_feature_set = Inr r"
proof -
  have "\<exists>d. bpf_digest (\<lambda>bs. SHA256 (of_nat (length bs)) 0 0 0) sample_builtin = Inr d"
    by (simp add: bpf_digest_def sample_builtin_def pseq_def pack_word_def pack_sha256_def pack_set_def
        pack_unsigned_int_def)
  then show ?thesis
    using sample_builtin_spec
    by (auto simp: add_feature_def sample_builtin_def empty_protocol_feature_set_def fm_emplace_def)
qed

theorem add_feature_closed_witness:
  "\<exists>pf s'. add_feature (\<lambda>bs. SHA256 (of_nat (length bs)) 0 0 0) sample_builtin empty_protocol_feature_set =
       Inr (pf, s') \<and> pfs_inv s'"
proof -
  obtain pf s' where add: "add_feature (\<lambda>bs. SHA256 (of_nat (length bs)) 0 0 0) sample_builtin
      empty_protocol_feature_set = Inr (pf, s')"
    using sample_add_feature by (metis surj_pair)
  with add_feature_closed [OF pfs_inv_empty add] show ?thesis by blast
qed

text \<open>Extending the set of activated features with the digests of a block is the ordered union of the two sets; the strict form rejects the block exactly when a digest repeats, within the block or against the set.\<close>

theorem extend_activation_set_exact:
  assumes "fs_wf orig"
  shows "(case extend_activation_set orig ds enforce_disjoint of
      Inr u \<Rightarrow> fs_wf u \<and> set u = set orig \<union> set ds \<and>
        (enforce_disjoint \<longrightarrow> distinct ds \<and> set orig \<inter> set ds = {})
    | Inl e \<Rightarrow> e = invalid_block_header_extension \<and> enforce_disjoint \<and>
        (\<not> distinct ds \<or> set orig \<inter> set ds \<noteq> {}))"
  using fold_fs_insert [of "[]" "set_union orig (sort ds)"] extend_activation_set_eq [OF assms, of ds enforce_disjoint]
  by auto

theorem extend_activation_set_exact_witness:
  "extend_activation_set [SHA256 1 0 0 0] [SHA256 1 0 0 0] True = Inl invalid_block_header_extension \<and>
   (case extend_activation_set [SHA256 1 0 0 0] [SHA256 2 0 0 0] True of
      Inr u \<Rightarrow> set u = {SHA256 1 0 0 0, SHA256 2 0 0 0} | Inl e \<Rightarrow> False)"
  using extend_activation_set_exact [of "[SHA256 1 0 0 0]" True "[SHA256 1 0 0 0]"]
    extend_activation_set_exact [of "[SHA256 1 0 0 0]" True "[SHA256 2 0 0 0]"]
  by (auto split: sum.splits)

text \<open>In the table of builtins every dependency is itself a builtin with a smaller number, so adding builtins in numerical order always finds the dependencies in place; and a builtin built from the table survives \<^verbatim>\<open>reflector_init\<close> unchanged.\<close>

theorem builtin_table_consistent:
  "builtin_spec b = Some spec \<Longrightarrow>
     (\<forall>d \<in> set (spec_builtin_dependencies spec). d < b \<and> builtin_spec d \<noteq> None) \<and>
     (\<exists>f. make_builtin_protocol_feature b dd deps r = Inr f \<and> bpf_reflector_init f = Inr f)"
proof -
  assume spec: "builtin_spec b = Some spec"
  then have "(b, spec) \<in> set builtin_protocol_feature_codenames" by (simp only: builtin_spec_in)
  moreover from this builtin_table_deps have
    "\<forall>d \<in> set (spec_builtin_dependencies spec). d < b \<and> d \<in> fst ` set builtin_protocol_feature_codenames"
    by (auto simp: list_all_iff)
  ultimately show ?thesis
    using spec find_builtin_by_name [of b spec]
    by (auto simp: make_builtin_protocol_feature_def bpf_reflector_init_def builtin_spec_def
        map_of_eq_None_iff)
qed

theorem builtin_table_consistent_witness:
  "\<exists>spec. builtin_spec no_duplicate_deferred_id = Some spec \<and>
     (\<forall>d \<in> set (spec_builtin_dependencies spec). d < no_duplicate_deferred_id \<and> builtin_spec d \<noteq> None)"
proof -
  obtain spec where "builtin_spec no_duplicate_deferred_id = Some spec"
    by (simp add: builtin_spec_def builtin_table_defs)
  with builtin_table_consistent [OF this] show ?thesis by blast
qed

end
