(* ===== verification/Block_Header.thy ===== *)
theory Block_Header
  imports Block_Time Producer_Schedule Protocol_Features
begin

text \<open>
  Block headers (block_header.hpp, block_header.cpp): the header with its serialised form, the block
  number stored in a block id, and the header extensions with their ordering rules (types.hpp,
  s_root_extension.hpp). The hash of packed bytes is a parameter \<open>sha\<close>; a signature is the
  variant of its kind with its serialised data. Block extensions (block.hpp, block.cpp) follow the
  same rules as header extensions.
\<close>

section \<open>Extensions\<close>

type_synonym extensions_type = "(u16 \<times> bytes) list"

datatype signature_type =
    K1_sig bytes
  | R1_sig bytes
  | WA_sig bytes bytes bytes
  | EM_sig bytes

record s_header =
  sh_contract_name :: name_value
  sh_previous_s_id :: digest_type
  sh_current_s_id :: digest_type
  sh_current_s_root :: digest_type

datatype block_header_extension =
    Ext_protocol_feature_activation "digest_type list"
  | Ext_producer_schedule_change producer_authority_schedule
  | Ext_s_root s_header

definition protocol_feature_activation_id :: u16 where
  "protocol_feature_activation_id = 0"

definition producer_schedule_change_id :: u16 where
  "producer_schedule_change_id = 1"

definition s_root_id :: u16 where
  "s_root_id = 2"

fun pack_signature :: "signature_type packer" where
  "pack_signature (K1_sig d) = pseq (pack_unsigned_int 0) (pack_array d)"
| "pack_signature (R1_sig d) = pseq (pack_unsigned_int 1) (pack_array d)"
| "pack_signature (WA_sig d auth_data client_json) =
     pseq (pack_unsigned_int 2) (pseq (pack_array d)
       (pseq (pack_vector pack_word auth_data) (pack_string client_json)))"
| "pack_signature (EM_sig d) = pseq (pack_unsigned_int 3) (pack_array d)"

definition unpack_signature :: "signature_type unpacker" where
  "unpack_signature = ubind unpack_unsigned_int (\<lambda>w.
     if w = 0 then ubind (unpack_array 65) (\<lambda>d. ureturn (K1_sig d))
     else if w = 1 then ubind (unpack_array 65) (\<lambda>d. ureturn (R1_sig d))
     else if w = 2 then ubind (unpack_array 65) (\<lambda>d. ubind (unpack_vector unpack_word) (\<lambda>a.
       ubind unpack_string (\<lambda>j. ureturn (WA_sig d a j))))
     else if w = 3 then ubind (unpack_array 65) (\<lambda>d. ureturn (EM_sig d))
     else (\<lambda>_. Inl assert_exception))"

text \<open>Insertion at \<^verbatim>\<open>std::upper_bound\<close> of the id.\<close>

definition emplace_extension :: "extensions_type \<Rightarrow> u16 \<Rightarrow> bytes \<Rightarrow> extensions_type" where
  "emplace_extension exts eid data =
     takeWhile (\<lambda>ext. \<not> eid < fst ext) exts @ (eid, data) # dropWhile (\<lambda>ext. \<not> eid < fst ext) exts"

definition pack_protocol_feature_activation :: "digest_type list packer" where
  "pack_protocol_feature_activation protocol_features = pack_vector pack_sha256 protocol_features"

definition unpack_protocol_feature_activation :: "digest_type list unpacker" where
  "unpack_protocol_feature_activation =
     ubind (unpack_vector unpack_sha256) (\<lambda>ds s. ebind (activation_reflector_init ds) (\<lambda>ds. Inr (ds, s)))"

definition pack_s_header :: "s_header packer" where
  "pack_s_header h =
     pseq (pack_word (sh_contract_name h)) (pseq (pack_sha256 (sh_previous_s_id h))
       (pseq (pack_sha256 (sh_current_s_id h)) (pack_sha256 (sh_current_s_root h))))"

definition unpack_s_header :: "s_header unpacker" where
  "unpack_s_header = ubind unpack_word (\<lambda>n. ubind unpack_sha256 (\<lambda>p.
     ubind unpack_sha256 (\<lambda>c. ubind unpack_sha256 (\<lambda>r.
       ureturn \<lparr>sh_contract_name = n, sh_previous_s_id = p, sh_current_s_id = c, sh_current_s_root = r\<rparr>))))"

text \<open>
  \<^verbatim>\<open>decompose::extract\<close>: the type with that id is unpacked from the data, whatever follows it is
  ignored. The flag is \<^verbatim>\<open>enforce_unique\<close>; \<open>None\<close> means that no type has the id.
\<close>

definition extract_extension :: "u16 \<Rightarrow> bytes \<Rightarrow> (block_header_extension \<times> bool) option result" where
  "extract_extension eid data =
     (if eid = protocol_feature_activation_id
      then ebind (unpack_protocol_feature_activation data)
             (\<lambda>(ds, _). Inr (Some (Ext_protocol_feature_activation ds, True)))
      else if eid = producer_schedule_change_id
      then ebind (unpack_schedule data) (\<lambda>(s, _). Inr (Some (Ext_producer_schedule_change s, True)))
      else if eid = s_root_id
      then ebind (unpack_s_header data) (\<lambda>(h, _). Inr (Some (Ext_s_root h, True)))
      else Inr None)"

section \<open>Headers\<close>

record block_header =
  bh_timestamp :: block_timestamp
  bh_producer :: account_name
  bh_confirmed :: u16
  bh_previous :: block_id_type
  bh_transaction_mroot :: digest_type
  bh_action_mroot :: digest_type
  bh_schedule_version :: u32
  bh_new_producers :: "legacy_producer_schedule option"
  bh_header_extensions :: extensions_type

record signed_block_header = block_header +
  bh_producer_signature :: signature_type

definition pack_block_header :: "('a block_header_scheme) packer" where
  "pack_block_header h =
     pseq (pack_word (slot (bh_timestamp h)))
    (pseq (pack_word (bh_producer h))
    (pseq (pack_word (bh_confirmed h))
    (pseq (pack_sha256 (bh_previous h))
    (pseq (pack_sha256 (bh_transaction_mroot h))
    (pseq (pack_sha256 (bh_action_mroot h))
    (pseq (pack_word (bh_schedule_version h))
    (pseq (pack_optional pack_legacy_schedule (bh_new_producers h))
          (pack_vector (pack_pair pack_word pack_bytes) (bh_header_extensions h)))))))))"

definition unpack_block_header :: "block_header unpacker" where
  "unpack_block_header =
     ubind unpack_word (\<lambda>t. ubind unpack_word (\<lambda>p. ubind unpack_word (\<lambda>c.
     ubind unpack_sha256 (\<lambda>prev. ubind unpack_sha256 (\<lambda>tm. ubind unpack_sha256 (\<lambda>am.
     ubind unpack_word (\<lambda>v. ubind (unpack_optional unpack_legacy_schedule) (\<lambda>np.
     ubind (unpack_vector (unpack_pair unpack_word unpack_bytes)) (\<lambda>exts.
       ureturn \<lparr>bh_timestamp = \<lparr>slot = t\<rparr>, bh_producer = p, bh_confirmed = c, bh_previous = prev,
         bh_transaction_mroot = tm, bh_action_mroot = am, bh_schedule_version = v,
         bh_new_producers = np, bh_header_extensions = exts\<rparr>)))))))))"

definition header_digest :: "(bytes \<Rightarrow> digest_type) \<Rightarrow> ('a block_header_scheme) \<Rightarrow> digest_type result" where
  "header_digest sha h = ebind (pack_block_header h) (\<lambda>bs. Inr (sha bs))"

definition endian_reverse_u32 :: "u32 \<Rightarrow> u32" where
  "endian_reverse_u32 x =
     (drop_bit 0x18 x AND 0xFF)
     OR push_bit 0x08 (drop_bit 0x10 x AND 0xFF)
     OR push_bit 0x10 (drop_bit 0x08 x AND 0xFF)
     OR push_bit 0x18 (x AND 0xFF)"

text \<open>The argument of type \<^verbatim>\<open>uint64_t\<close> is narrowed to the parameter's 32 bits.\<close>

definition num_from_id :: "block_id_type \<Rightarrow> u32" where
  "num_from_id bid = endian_reverse_u32 (ucast (h0 bid))"

definition block_num :: "('a block_header_scheme) \<Rightarrow> u32" where
  "block_num h = num_from_id (bh_previous h) + 1"

definition calculate_id :: "(bytes \<Rightarrow> digest_type) \<Rightarrow> ('a block_header_scheme) \<Rightarrow> block_id_type result" where
  "calculate_id sha h =
     ebind (header_digest sha h) (\<lambda>d.
       Inr (SHA256 ((h0 d AND 0xffffffff00000000) + ucast (endian_reverse_u32 (block_num h)))
              (h1 d) (h2 d) (h3 d)))"

text \<open>\<^verbatim>\<open>flat_multimap::emplace\<close> inserts after the entries with the same key.\<close>

definition fmm_emplace :: "'k::linorder \<Rightarrow> 'v \<Rightarrow> ('k \<times> 'v) list \<Rightarrow> ('k \<times> 'v) list" where
  "fmm_emplace k v m = takeWhile (\<lambda>e. fst e \<le> k) m @ (k, v) # dropWhile (\<lambda>e. fst e \<le> k) m"

fun extract_extensions ::
  "nat \<Rightarrow> u16 \<Rightarrow> extensions_type \<Rightarrow> (u16 \<times> block_header_extension) list
   \<Rightarrow> (u16 \<times> block_header_extension) list result" where
  "extract_extensions i lower_bound [] results = Inr results"
| "extract_extensions i lower_bound ((eid, data) # es) results =
     ebind (sys_assert (eid \<ge> lower_bound) invalid_block_header_extension) (\<lambda>_.
     ebind (extract_extension eid data) (\<lambda>match.
       (case match of
          None \<Rightarrow> Inl invalid_block_header_extension
        | Some (ext, enforce_unique) \<Rightarrow>
            ebind (sys_assert (enforce_unique \<longrightarrow> i = 0 \<or> eid > lower_bound)
                     invalid_block_header_extension) (\<lambda>_.
              extract_extensions (Suc i) eid es (fmm_emplace eid ext results)))))"

definition validate_and_extract_header_extensions ::
  "('a block_header_scheme) \<Rightarrow> (u16 \<times> block_header_extension) list result" where
  "validate_and_extract_header_extensions h = extract_extensions 0 0 (bh_header_extensions h) []"

subsection \<open>Block extensions\<close>

record 't signed_block = signed_block_header +
  sb_transactions :: "'t list"
  sb_block_extensions :: extensions_type

definition additional_signatures_id :: u16 where
  "additional_signatures_id = 2"

text \<open>
  The set of the check is ordered by \<^verbatim>\<open>operator<\<close> on signatures, which compares kind and data, so an
  element is refused exactly when it equals an earlier one.
\<close>

fun signatures_unique :: "signature_type list \<Rightarrow> signature_type list \<Rightarrow> unit result" where
  "signatures_unique [] unique_sigs = Inr ()"
| "signatures_unique (s # ss) unique_sigs =
     ebind (sys_assert (s \<notin> set unique_sigs) ill_formed_additional_block_signatures_extension)
       (\<lambda>_. signatures_unique ss (s # unique_sigs))"

definition additional_signatures_reflector_init :: "signature_type list \<Rightarrow> signature_type list result" where
  "additional_signatures_reflector_init signatures =
     ebind (sys_assert (length signatures > 0) ill_formed_additional_block_signatures_extension) (\<lambda>_.
     ebind (signatures_unique signatures []) (\<lambda>_. Inr signatures))"

definition extract_block_extension :: "u16 \<Rightarrow> bytes \<Rightarrow> (signature_type list \<times> bool) option result" where
  "extract_block_extension eid data =
     (if eid = additional_signatures_id
      then ebind (unpack_vector unpack_signature data) (\<lambda>(ss, _).
           ebind (additional_signatures_reflector_init ss) (\<lambda>ss. Inr (Some (ss, True))))
      else Inr None)"

fun extract_block_extensions ::
  "nat \<Rightarrow> u16 \<Rightarrow> extensions_type \<Rightarrow> (u16 \<times> signature_type list) list
   \<Rightarrow> (u16 \<times> signature_type list) list result" where
  "extract_block_extensions i lower_bound [] results = Inr results"
| "extract_block_extensions i lower_bound ((eid, data) # es) results =
     ebind (sys_assert (eid \<ge> lower_bound) invalid_block_extension) (\<lambda>_.
     ebind (extract_block_extension eid data) (\<lambda>match.
       (case match of
          None \<Rightarrow> Inl invalid_block_extension
        | Some (ext, enforce_unique) \<Rightarrow>
            ebind (sys_assert (enforce_unique \<longrightarrow> i = 0 \<or> eid > lower_bound)
                     invalid_block_header_extension) (\<lambda>_.
              extract_block_extensions (Suc i) eid es (fmm_emplace eid ext results)))))"

definition validate_and_extract_extensions ::
  "('t, 'a) signed_block_scheme \<Rightarrow> (u16 \<times> signature_type list) list result" where
  "validate_and_extract_extensions b = extract_block_extensions 0 0 (sb_block_extensions b) []"

subsection \<open>Reading extracted extensions\<close>

definition ext_count :: "u16 \<Rightarrow> (u16 \<times> 'e) list \<Rightarrow> nat" where
  "ext_count eid exts = length (filter (\<lambda>e. fst e = eid) exts)"

text \<open>\<^verbatim>\<open>lower_bound(id)->second\<close>; dereferencing the end iterator is undefined.\<close>

definition ext_lower_bound :: "u16 \<Rightarrow> (u16 \<times> 'e) list \<Rightarrow> 'e result" where
  "ext_lower_bound eid exts =
     (case dropWhile (\<lambda>e. fst e < eid) exts of [] \<Rightarrow> Inl undefined_behaviour | e # _ \<Rightarrow> Inr (snd e))"

section \<open>Block numbers in ids\<close>

lemma bit_endian_reverse:
  "bit (endian_reverse_u32 x) n \<longleftrightarrow>
     (if n < 8 then bit x (n + 24) else if n < 16 then bit x (n + 8)
      else if n < 24 then bit x (n - 8) else n < 32 \<and> bit x (n - 24))"
proof -
  have m: "(0xFF :: u32) = mask 8" by (simp add: mask_eq_exp_minus_1)
  show ?thesis
    unfolding endian_reverse_u32_def m
    by (auto simp: bit_simps bit_mask_iff add.commute dest: bit_imp_le_length)
qed

lemma endian_reverse_twice: "endian_reverse_u32 (endian_reverse_u32 x) = x"
  by (rule bit_word_eqI) (auto simp: bit_endian_reverse)

lemma high_half_plus_low:
  "ucast ((x AND 0xffffffff00000000) + ucast (y :: u32) :: u64) = y"
proof -
  have m: "(0xffffffff00000000 :: u64) = NOT (mask 32)" by (simp add: mask_eq_exp_minus_1)
  have "(x AND 0xffffffff00000000) + ucast y = (x AND 0xffffffff00000000) OR ucast y"
    unfolding m by (intro disjunctive_add) (auto simp: bit_simps dest: bit_imp_le_length)
  then show ?thesis
    unfolding m by (intro bit_word_eqI) (auto simp: bit_simps dest: bit_imp_le_length)
qed

lemma num_from_calculated_id:
  "calculate_id sha h = Inr i \<Longrightarrow> num_from_id i = block_num h"
  by (auto simp: calculate_id_def num_from_id_def high_half_plus_low endian_reverse_twice ebind_Inr_iff)

definition sample_header :: block_header where
  "sample_header = \<lparr>bh_timestamp = \<lparr>slot = 7\<rparr>, bh_producer = 5, bh_confirmed = 1,
     bh_previous = SHA256 0x0200000000 0 0 0, bh_transaction_mroot = zero_digest,
     bh_action_mroot = zero_digest, bh_schedule_version = 0, bh_new_producers = None,
     bh_header_extensions = [(0, []), (2, [1])]\<rparr>"

text \<open>C33. The number written into a block id by \<^verbatim>\<open>calculate_id\<close> is read back by \<^verbatim>\<open>num_from_id\<close>, and a
  header that names the id as its previous block is numbered one more.\<close>

theorem block_num_of_child:
  assumes "calculate_id sha h = Inr i" and "bh_previous c = i"
  shows "num_from_id i = block_num h \<and> block_num c = block_num h + 1"
  using num_from_calculated_id [OF assms(1)] assms(2) by (simp add: block_num_def)

lemma sample_header_packs: "\<exists>bs. pack_block_header sample_header = Inr bs"
  by (simp add: sample_header_def pack_block_header_def pseq_Inr_iff pack_word_def pack_sha256_def
      pack_optional_def pack_vector_def pack_pair_def pack_bytes_def pack_bool_def pack_unsigned_int_def
      max_num_array_elements_def max_size_of_byte_arrays_def)

theorem block_num_of_child_witness:
  "\<exists>i. calculate_id (\<lambda>_. zero_digest) sample_header = Inr i
     \<and> block_num (sample_header\<lparr>bh_previous := i\<rparr>) = block_num sample_header + 1"
proof -
  obtain i where i: "calculate_id (\<lambda>_. zero_digest) sample_header = Inr i"
    using sample_header_packs by (auto simp: calculate_id_def header_digest_def)
  then show ?thesis
    using block_num_of_child [OF i, of "sample_header\<lparr>bh_previous := i\<rparr>"] by auto
qed

section \<open>Serialisation\<close>

interpretation s_header_codec: raw_codec "\<lambda>_. True" pack_s_header unpack_s_header
  by (rule raw_codecI)
    (auto simp: pack_s_header_def unpack_s_header_def pseq_Inr_iff word64_codec.unp_pk [OF TrueI]
        sha256_codec.unp_pk [OF TrueI])

lemma activation_reflector_init_iff:
  "activation_reflector_init ds = Inr ds' \<longleftrightarrow> ds' = ds \<and> ds \<noteq> [] \<and> distinct ds"
  by (auto simp: activation_reflector_init_def activation_digests_unique_iff)

interpretation activation_codec: raw_codec "\<lambda>ds. ds \<noteq> [] \<and> distinct ds"
  pack_protocol_feature_activation unpack_protocol_feature_activation
  by (rule raw_codecI)
    (simp add: pack_protocol_feature_activation_def unpack_protocol_feature_activation_def
        activation_reflector_init_iff ebind_Inr_iff list_all_iff
        raw_codec.unp_pk [OF raw_codec_vector [OF sha256_codec.raw_codec_axioms]])

abbreviation header_ok :: "('a block_header_scheme) \<Rightarrow> bool" where
  "header_ok h \<equiv> pred_option (\<lambda>s. list_all (key_ok \<circ> lpk_block_signing_key) (lps_producers s)) (bh_new_producers h)"

interpretation extensions_codec: raw_codec "\<lambda>_. True"
  "pack_vector (pack_pair pack_word pack_bytes) :: extensions_type packer"
  "unpack_vector (unpack_pair unpack_word unpack_bytes)"
  by (rule raw_codecI, rule raw_codec.unp_pk [OF raw_codec_vector [OF raw_codec_pair
      [OF word16_codec.raw_codec_axioms bytes_codec.raw_codec_axioms]]])
    (auto simp: list_all_iff)

lemma timestamp_of_slot [simp]: "\<lparr>slot = slot t\<rparr> = t"
  by (cases t) simp

interpretation block_header_codec: raw_codec header_ok pack_block_header unpack_block_header
  by (rule raw_codecI)
    (auto simp: pack_block_header_def unpack_block_header_def pseq_Inr_iff
        word64_codec.unp_pk [OF TrueI] word32_codec.unp_pk [OF TrueI] word16_codec.unp_pk [OF TrueI]
        sha256_codec.unp_pk [OF TrueI] extensions_codec.unp_pk [OF TrueI]
        raw_codec.unp_pk [OF raw_codec_optional [OF legacy_schedule_codec.raw_codec_axioms]])

text \<open>C32. A header read from its own serialised form is the same header, whatever follows it, so two
  headers with the same packed bytes, hence the same digest input, are equal.\<close>

theorem block_header_roundtrip:
  assumes "header_ok h" "header_ok h'" "pack_block_header h = Inr bs"
  shows "unpack_block_header (bs @ rest) = Inr (h, rest) \<and> (pack_block_header h' = Inr bs \<longrightarrow> h' = h)"
  using assms block_header_codec.unp_pk block_header_codec.pk_inject by blast

theorem block_header_roundtrip_witness:
  "\<exists>bs. pack_block_header sample_header = Inr bs \<and> unpack_block_header (bs @ [7]) = Inr (sample_header, [7])"
proof -
  obtain bs where bs: "pack_block_header sample_header = Inr bs"
    using sample_header_packs by blast
  then show ?thesis
    using block_header_roundtrip [of sample_header sample_header bs "[7]"] by (simp add: sample_header_def)
qed

section \<open>Extension order\<close>

lemma fmm_emplace_last: "\<forall>e \<in> set m. fst e \<le> k \<Longrightarrow> fmm_emplace k v m = m @ [(k, v)]"
  by (simp add: fmm_emplace_def)

lemma extract_extension_unique: "extract_extension eid data = Inr (Some (ext, u)) \<Longrightarrow> u"
  by (auto simp: extract_extension_def ebind_Inr_iff split: if_splits)

definition extracts :: "u16 \<times> bytes \<Rightarrow> u16 \<times> block_header_extension \<Rightarrow> bool" where
  "extracts e r \<longleftrightarrow> fst r = fst e \<and> extract_extension (fst e) (snd e) = Inr (Some (snd r, True))"

lemma extract_extensions_iff:
  assumes "\<forall>e \<in> set res. fst e \<le> lb"
  shows "extract_extensions i lb es res = Inr r \<longleftrightarrow>
    (\<exists>r'. r = res @ r' \<and> list_all2 extracts es r' \<and> sorted_wrt (<) (map fst es)
       \<and> (\<forall>e \<in> set es. lb \<le> fst e \<and> (i \<noteq> 0 \<longrightarrow> lb < fst e)))"
  using assms
proof (induction i lb es res rule: extract_extensions.induct)
  case (2 i lb eid data es res)
  show ?case
  proof (cases "\<exists>ext. extract_extension eid data = Inr (Some (ext, True)) \<and> lb \<le> eid \<and> (i = 0 \<or> lb < eid)")
    case True
    then obtain ext where e: "extract_extension eid data = Inr (Some (ext, True))"
      and lb: "lb \<le> eid" "i = 0 \<or> lb < eid" by blast
    have r: "\<forall>e \<in> set res. fst e \<le> eid" using 2(2) lb(1) by force
    have "extract_extensions i lb ((eid, data) # es) res = extract_extensions (Suc i) eid es (res @ [(eid, ext)])"
      using e lb r by (auto simp: ebind_sys_assert fmm_emplace_last)
    moreover have "extract_extensions (Suc i) eid es (res @ [(eid, ext)]) = Inr r \<longleftrightarrow>
      (\<exists>r'. r = (res @ [(eid, ext)]) @ r' \<and> list_all2 extracts es r' \<and> sorted_wrt (<) (map fst es)
         \<and> (\<forall>e \<in> set es. eid < fst e))"
      using 2(1) [of _ "Some (ext, True)" "(ext, True)" ext True] e lb r
      by (auto simp: fmm_emplace_last less_imp_le)
    moreover have "list_all2 extracts ((eid, data) # es) r' \<longleftrightarrow>
        (\<exists>r''. r' = (eid, ext) # r'' \<and> list_all2 extracts es r'')" for r'
      using e by (cases r') (auto simp: extracts_def prod_eq_iff)
    moreover have "sorted_wrt (<) (map fst ((eid, data) # es))
        \<and> (\<forall>e \<in> set ((eid, data) # es). lb \<le> fst e \<and> (i \<noteq> 0 \<longrightarrow> lb < fst e)) \<longleftrightarrow>
        sorted_wrt (<) (map fst es) \<and> (\<forall>e \<in> set es. eid < fst e)"
      using lb by (auto dest: less_imp_le intro: le_less_trans less_trans order_trans)
    ultimately show ?thesis by (auto simp del: sorted_wrt.simps extract_extensions.simps)
  next
    case False
    have "extract_extensions i lb ((eid, data) # es) res \<noteq> Inr r"
    proof
      assume "extract_extensions i lb ((eid, data) # es) res = Inr r"
      then obtain ext u where e: "extract_extension eid data = Inr (Some (ext, u))"
        and "lb \<le> eid" "u \<longrightarrow> i = 0 \<or> lb \<noteq> eid"
        by (auto simp: ebind_Inr_iff split: option.splits)
      with extract_extension_unique [OF e] False show False by (auto simp: less_le)
    qed
    moreover have "\<not> list_all2 extracts ((eid, data) # es) r'" if "lb \<le> eid" "i = 0 \<or> lb \<noteq> eid" for r'
      using False that by (auto simp: list_all2_Cons1 extracts_def less_le)
    ultimately show ?thesis by (auto simp del: extract_extensions.simps)
  qed
qed auto

lemma header_extensions_iff:
  "validate_and_extract_header_extensions h = Inr r \<longleftrightarrow>
     sorted_wrt (<) (map fst (bh_header_extensions h)) \<and> list_all2 extracts (bh_header_extensions h) r"
  by (auto simp: validate_and_extract_header_extensions_def extract_extensions_iff)

text \<open>C31. The header extensions of a header are accepted exactly when their ids are strictly
  ascending and each is a known id whose data unpacks; the result lists them in the same order.\<close>

theorem header_extensions_exact:
  "validate_and_extract_header_extensions h = Inr r \<longleftrightarrow>
     sorted_wrt (<) (map fst (bh_header_extensions h)) \<and> list_all2 extracts (bh_header_extensions h) r"
  by (rule header_extensions_iff)

section \<open>Block extensions\<close>

interpretation signature_codec: raw_codec
  "\<lambda>s. case s of K1_sig d \<Rightarrow> length d = 65 | R1_sig d \<Rightarrow> length d = 65 | WA_sig d a j \<Rightarrow> length d = 65
     | EM_sig d \<Rightarrow> length d = 65"
  pack_signature unpack_signature
proof (rule raw_codecI)
  fix s bs rest
  assume ok: "case s of K1_sig d \<Rightarrow> length d = 65 | R1_sig d \<Rightarrow> length d = 65 | WA_sig d a j \<Rightarrow> length d = 65
     | EM_sig d \<Rightarrow> length d = 65" and p: "pack_signature s = Inr bs"
  have v: "unpack_vector unpack_word (xs @ r) = Inr (a, r)" if "pack_vector pack_word a = Inr xs"
    for a xs r :: bytes
    using raw_codec.unp_pk [OF raw_codec_vector [OF word8_codec.raw_codec_axioms] _ that]
    by (simp add: list_all_iff)
  show "unpack_signature (bs @ rest) = Inr (s, rest)"
    using ok p
    by (cases s) (auto simp: unpack_signature_def pseq_Inr_iff unsigned_codec.unp_pk [OF TrueI]
        raw_codec.unp_pk [OF raw_codec_array [of 65]] v string_codec.unp_pk [OF TrueI])
qed

lemma signatures_unique_iff:
  "signatures_unique ss u =
     (if distinct ss \<and> set ss \<inter> set u = {} then Inr () else Inl ill_formed_additional_block_signatures_extension)"
  by (induction ss arbitrary: u) (auto simp: ebind_sys_assert)

lemma extract_block_extension_iff:
  "extract_block_extension eid data = Inr (Some (ss, u)) \<longleftrightarrow>
     eid = additional_signatures_id \<and> u \<and> ss \<noteq> [] \<and> distinct ss
     \<and> (\<exists>rest. unpack_vector unpack_signature data = Inr (ss, rest))"
  by (auto simp: extract_block_extension_def additional_signatures_reflector_init_def
      signatures_unique_iff ebind_Inr_iff split: if_splits)

text \<open>C25. A block's extensions are accepted exactly when there are none, or there is one list of
  additional signatures, not empty and without repetition.\<close>

theorem block_extensions_exact:
  "validate_and_extract_extensions b = Inr r \<longleftrightarrow>
     sb_block_extensions b = [] \<and> r = [] \<or>
     (\<exists>data ss rest. sb_block_extensions b = [(additional_signatures_id, data)]
        \<and> unpack_vector unpack_signature data = Inr (ss, rest) \<and> ss \<noteq> [] \<and> distinct ss
        \<and> r = [(additional_signatures_id, ss)])"
proof -
  have two: "extract_block_extensions i additional_signatures_id (e # es) res \<noteq> Inr r" if "i \<noteq> 0" for i e es res
  proof
    assume "extract_block_extensions i additional_signatures_id (e # es) res = Inr r"
    then obtain ss u where e: "extract_block_extension (fst e) (snd e) = Inr (Some (ss, u))"
      and "u \<longrightarrow> i = 0 \<or> fst e \<noteq> additional_signatures_id"
      by (cases e) (auto simp: ebind_Inr_iff split: option.splits)
    with that show False by (auto simp: extract_block_extension_iff)
  qed
  show ?thesis
  proof (cases "sb_block_extensions b")
    case Nil
    then show ?thesis by (auto simp: validate_and_extract_extensions_def)
  next
    case (Cons e es)
    obtain eid data where e: "e = (eid, data)" by (cases e)
    have step: "extract_block_extensions 0 0 ((eid, data) # es) [] = Inr r \<longleftrightarrow>
      (\<exists>ss u. extract_block_extension eid data = Inr (Some (ss, u))
         \<and> extract_block_extensions (Suc 0) eid es [(eid, ss)] = Inr r)"
      by (auto simp: ebind_Inr_iff fmm_emplace_def split: option.splits)
    show ?thesis
    proof (cases es)
      case Nil
      then show ?thesis
        using Cons e step by (auto simp: validate_and_extract_extensions_def extract_block_extension_iff)
    next
      case (Cons e' es')
      then show ?thesis
        using \<open>sb_block_extensions b = e # es\<close> e step two [of "Suc 0" e' es']
        by (auto simp: validate_and_extract_extensions_def extract_block_extension_iff
            simp del: extract_block_extensions.simps)
    qed
  qed
qed

end
