(* ===== verification/Header_State.thy ===== *)
theory Header_State
  imports Chain_Name Merkle Block_Header
begin

text \<open>
  The state a node keeps per block to validate the next header (block_header_state.hpp,
  block_header_state.cpp) and the block states built on it (block_state.cpp): producer scheduling, the
  confirmation counters of delegated proof of stake, promotion of pending schedules, the making and
  checking of headers, and block signatures.

  Parameters: \<open>sha\<close> is SHA-256 on bytes, \<open>recover\<close> the recovery of a public key from a signature and
  a digest, \<open>signer\<close> and \<open>validator\<close> the callbacks the source takes.
\<close>

definition producer_repetitions :: nat where
  "producer_repetitions = 12"

definition maximum_tracked_dpos_confirmations :: nat where
  "maximum_tracked_dpos_confirmations = 1024"

record block_header_state_common =
  bhs_block_num :: u32
  bhs_dpos_proposed_irreversible_blocknum :: u32
  bhs_dpos_irreversible_blocknum :: u32
  bhs_active_schedule :: producer_authority_schedule
  bhs_blockroot_merkle :: incremental_merkle
  bhs_producer_to_last_produced :: "(account_name \<times> u32) list"
  bhs_producer_to_last_implied_irb :: "(account_name \<times> u32) list"
  bhs_valid_block_signing_authority :: block_signing_authority
  bhs_confirm_count :: "u8 list"

record schedule_info =
  si_schedule_lib_num :: u32
  si_schedule_hash :: digest_type
  si_schedule :: producer_authority_schedule

record pending_block_header_state = block_header_state_common +
  pbs_prev_activated_protocol_features :: "digest_type list"
  pbs_prev_pending_schedule :: schedule_info
  pbs_was_pending_promoted :: bool
  pbs_previous :: block_id_type
  pbs_producer :: account_name
  pbs_timestamp :: block_timestamp
  pbs_active_schedule_version :: u32
  pbs_confirmed :: u16

record block_header_state = block_header_state_common +
  bhs_id :: block_id_type
  bhs_header :: signed_block_header
  bhs_pending_schedule :: schedule_info
  bhs_activated_protocol_features :: "digest_type list"
  bhs_additional_signatures :: "signature_type list"
  bhs_header_exts :: "(u16 \<times> block_header_extension) list"

type_synonym feature_validator = "block_timestamp \<Rightarrow> digest_type list \<Rightarrow> digest_type list \<Rightarrow> unit result"
type_synonym signer_callback_type = "digest_type \<Rightarrow> signature_type list result"
type_synonym key_recovery = "signature_type \<Rightarrow> digest_type \<Rightarrow> public_key_type result"

text \<open>\<^verbatim>\<open>digest_type::hash(std::make_pair(a, b))\<close>\<close>

definition hash_pair :: "(bytes \<Rightarrow> digest_type) \<Rightarrow> pair_hash" where
  "hash_pair sha = (\<lambda>(a, b). sha (sha256_data a @ sha256_data b))"

definition builtin_activated_in ::
  "digest_type list \<Rightarrow> protocol_feature_set \<Rightarrow> builtin_protocol_feature_t \<Rightarrow> bool" where
  "builtin_activated_in pfa pfs feature_codename =
     (case get_builtin_digest pfs feature_codename of None \<Rightarrow> False | Some digest \<Rightarrow> digest \<in> set pfa)"

section \<open>Building the next block's state\<close>

text \<open>A remainder by zero is undefined.\<close>

definition get_scheduled_producer :: "('a block_header_state_common_scheme) \<Rightarrow> block_timestamp \<Rightarrow> producer_authority result" where
  "get_scheduled_producer s t =
     (let producers = pas_producers (bhs_active_schedule s);
          divisor = length producers * producer_repetitions
      in if divisor = 0 then Inl undefined_behaviour
         else Inr (producers ! (unat (slot t) mod divisor div producer_repetitions)))"

text \<open>\<^verbatim>\<open>std::nth_element\<close> puts at the index what a full sort would put there.\<close>

definition calc_dpos_last_irreversible :: "('a block_header_state_common_scheme) \<Rightarrow> account_name \<Rightarrow> u32" where
  "calc_dpos_last_irreversible s producer_of_next_block =
     (let blocknums = map (\<lambda>(p, n). if p = producer_of_next_block
                                    then bhs_dpos_proposed_irreversible_blocknum s else n)
                        (bhs_producer_to_last_implied_irb s)
      in if length blocknums = 0 then 0
         else sort blocknums ! ((length blocknums - 1) div 3))"

definition grow_confirm_count :: "u8 list \<Rightarrow> u32 \<Rightarrow> u8 list" where
  "grow_confirm_count confirm_count required_confs =
     (if length confirm_count < maximum_tracked_dpos_confirmations
      then confirm_count @ [ucast required_confs]
      else tl confirm_count @ [ucast required_confs])"

text \<open>The second argument is \<^verbatim>\<open>i + 1\<close>, so that the loop ends at zero.\<close>

fun confirm_loop :: "u32 \<Rightarrow> nat \<Rightarrow> nat \<Rightarrow> u32 \<times> u8 list \<Rightarrow> u32 \<times> u8 list" where
  "confirm_loop bnum 0 blocks_to_confirm (proposed, cc) = (proposed, cc)"
| "confirm_loop bnum (Suc i) blocks_to_confirm (proposed, cc) =
     (if blocks_to_confirm = 0 then (proposed, cc)
      else let cc = cc[i := cc ! i - 1] in
        if cc ! i = 0
        then (bnum - of_nat (length cc - 1 - i), if i = length cc - 1 then [] else drop (Suc i) cc)
        else confirm_loop bnum i (blocks_to_confirm - 1) (proposed, cc))"

definition promoted_last_produced ::
  "account_name \<Rightarrow> u32 \<Rightarrow> u32 \<Rightarrow> (account_name \<times> u32) list \<Rightarrow> producer_authority list \<Rightarrow> (account_name \<times> u32) list" where
  "promoted_last_produced producer bnum irreversible last_produced producers =
     fm_assign producer bnum
       (fold (\<lambda>pro. fm_assign (pa_producer_name pro)
          (if pa_producer_name pro = producer then bnum
           else case fm_find (pa_producer_name pro) last_produced of
               Some n \<Rightarrow> n | None \<Rightarrow> irreversible)) producers [])"

definition promoted_implied_irb ::
  "account_name \<Rightarrow> u32 \<Rightarrow> u32 \<Rightarrow> (account_name \<times> u32) list \<Rightarrow> producer_authority list \<Rightarrow> (account_name \<times> u32) list" where
  "promoted_implied_irb producer proposed irreversible implied producers =
     fold (\<lambda>pro. fm_assign (pa_producer_name pro)
          (if pa_producer_name pro = producer then proposed
           else case fm_find (pa_producer_name pro) implied of
               Some n \<Rightarrow> n | None \<Rightarrow> irreversible)) producers []"

text \<open>The part of \<^verbatim>\<open>next\<close> after its checks (lines 59 to 170), with the scheduled producer and the
  tree of block ids to which the current id has been appended.\<close>

definition next_pending_state ::
  "block_header_state \<Rightarrow> block_timestamp \<Rightarrow> u16 \<Rightarrow> producer_authority \<Rightarrow> incremental_merkle
   \<Rightarrow> pending_block_header_state" where
  "next_pending_state s when' num_prev_blocks_to_confirm proauth blockroot_merkle =
     (let bnum = bhs_block_num s + 1;
         producer = pa_producer_name proauth;
         num_active_producers = length (pas_producers (bhs_active_schedule s));
         required_confs = of_nat (num_active_producers * 2 div 3) + 1;
         cc = grow_confirm_count (bhs_confirm_count s) required_confs;
         (proposed, cc) = confirm_loop bnum (length cc) (unat num_prev_blocks_to_confirm + 1)
                            (bhs_dpos_proposed_irreversible_blocknum s, cc);
         irreversible = calc_dpos_last_irreversible s producer;
         pending = si_schedule (bhs_pending_schedule s);
         promoted = (length (pas_producers pending) \<noteq> 0
                     \<and> irreversible \<ge> si_schedule_lib_num (bhs_pending_schedule s))
     in \<lparr>bhs_block_num = bnum,
             bhs_dpos_proposed_irreversible_blocknum = proposed,
             bhs_dpos_irreversible_blocknum = irreversible,
             bhs_active_schedule = (if promoted then pending else bhs_active_schedule s),
             bhs_blockroot_merkle = blockroot_merkle,
             bhs_producer_to_last_produced =
               (if promoted
                then promoted_last_produced producer bnum irreversible
                       (bhs_producer_to_last_produced s) (pas_producers pending)
                else fm_assign producer bnum (bhs_producer_to_last_produced s)),
             bhs_producer_to_last_implied_irb =
               (if promoted
                then promoted_implied_irb producer (bhs_dpos_proposed_irreversible_blocknum s) irreversible
                       (bhs_producer_to_last_implied_irb s) (pas_producers pending)
                else fm_assign producer (bhs_dpos_proposed_irreversible_blocknum s)
                       (bhs_producer_to_last_implied_irb s)),
             bhs_valid_block_signing_authority = pa_authority proauth,
             bhs_confirm_count = cc,
             pbs_prev_activated_protocol_features = bhs_activated_protocol_features s,
             pbs_prev_pending_schedule = bhs_pending_schedule s,
             pbs_was_pending_promoted = promoted,
             pbs_previous = bhs_id s,
             pbs_producer = producer,
             pbs_timestamp = when',
             pbs_active_schedule_version = pas_version (bhs_active_schedule s),
             pbs_confirmed = num_prev_blocks_to_confirm\<rparr>)"

definition bhs_next_pending ::
  "(bytes \<Rightarrow> digest_type) \<Rightarrow> block_timestamp \<Rightarrow> u16 \<Rightarrow> block_header_state \<Rightarrow> pending_block_header_state result" where
  "bhs_next_pending sha when' num_prev_blocks_to_confirm s =
     ebind (if slot when' \<noteq> 0
            then ebind (sys_assert (slot when' > slot (bh_timestamp (bhs_header s))) block_validate_exception)
                   (\<lambda>_. Inr when')
            else Inr \<lparr>slot = slot (bh_timestamp (bhs_header s)) + 1\<rparr>) (\<lambda>when'.
     ebind (get_scheduled_producer s when') (\<lambda>proauth.
     ebind (case fm_find (pa_producer_name proauth) (bhs_producer_to_last_produced s) of
              None \<Rightarrow> Inr ()
            | Some last_num \<Rightarrow> sys_assert (last_num < bhs_block_num s + 1 - ucast num_prev_blocks_to_confirm)
                             producer_double_confirm) (\<lambda>_.
     ebind (imk_append (hash_pair sha) (bhs_id s) (bhs_blockroot_merkle s)) (\<lambda>(_, blockroot_merkle).
       Inr (next_pending_state s when' num_prev_blocks_to_confirm proauth blockroot_merkle)))))"

section \<open>Making and checking headers\<close>

fun downgrade_producers :: "producer_authority list \<Rightarrow> producer_key list result" where
  "downgrade_producers [] = Inr []"
| "downgrade_producers (p # ps) =
     (case pa_authority p of BSA_v0 auth \<Rightarrow>
        ebind (sys_assert (length (bsa_keys auth) = 1 \<and> ucast (kw_weight (hd (bsa_keys auth))) = bsa_threshold auth)
                 producer_schedule_exception) (\<lambda>_.
        ebind (downgrade_producers ps) (\<lambda>ks.
          Inr (\<lparr>lpk_producer_name = pa_producer_name p, lpk_block_signing_key = kw_key (hd (bsa_keys auth))\<rparr> # ks))))"

definition default_signature :: signature_type where
  "default_signature = K1_sig (replicate 65 0)"

text \<open>The three extensions of \<^verbatim>\<open>make_block_header\<close>, in the order the source adds them.\<close>

definition with_activations :: "digest_type list \<Rightarrow> signed_block_header \<Rightarrow> signed_block_header result" where
  "with_activations new_activations h =
     (if length new_activations > 0
      then ebind (pack_protocol_feature_activation new_activations) (\<lambda>data.
             Inr (h\<lparr>bh_header_extensions :=
               emplace_extension (bh_header_extensions h) protocol_feature_activation_id data\<rparr>))
      else Inr h)"

definition with_new_producers ::
  "producer_authority_schedule option \<Rightarrow> bool \<Rightarrow> signed_block_header \<Rightarrow> signed_block_header result" where
  "with_new_producers new_producers wtmsig_enabled h =
     (case new_producers of
        None \<Rightarrow> Inr h
      | Some sched \<Rightarrow>
          if wtmsig_enabled
          then ebind (pack_schedule sched) (\<lambda>data.
                 Inr (h\<lparr>bh_header_extensions :=
                   emplace_extension (bh_header_extensions h) producer_schedule_change_id data\<rparr>))
          else ebind (downgrade_producers (pas_producers sched)) (\<lambda>ks.
                 Inr (h\<lparr>bh_new_producers := Some \<lparr>lps_version = pas_version sched, lps_producers = ks\<rparr>\<rparr>)))"

definition with_s_root :: "s_header option \<Rightarrow> signed_block_header \<Rightarrow> signed_block_header result" where
  "with_s_root s_hdr h =
     (case s_hdr of
        None \<Rightarrow> Inr h
      | Some sh \<Rightarrow>
          ebind (pack_s_header sh) (\<lambda>data.
            Inr (h\<lparr>bh_header_extensions := emplace_extension (bh_header_extensions h) s_root_id data\<rparr>)))"

definition make_block_header ::
  "digest_type \<Rightarrow> digest_type \<Rightarrow> producer_authority_schedule option \<Rightarrow> digest_type list \<Rightarrow> protocol_feature_set
   \<Rightarrow> s_header option \<Rightarrow> pending_block_header_state \<Rightarrow> signed_block_header result" where
  "make_block_header transaction_mroot action_mroot new_producers new_activations pfs s_hdr p =
     ebind (with_activations new_activations
              \<lparr>bh_timestamp = pbs_timestamp p, bh_producer = pbs_producer p, bh_confirmed = pbs_confirmed p,
               bh_previous = pbs_previous p, bh_transaction_mroot = transaction_mroot,
               bh_action_mroot = action_mroot, bh_schedule_version = pbs_active_schedule_version p,
               bh_new_producers = None, bh_header_extensions = [],
               bh_producer_signature = default_signature\<rparr>) (\<lambda>h.
     ebind (with_new_producers new_producers
              (builtin_activated_in (pbs_prev_activated_protocol_features p) pfs wtmsig_block_signatures) h) (\<lambda>h.
       with_s_root s_hdr h))"

text \<open>\<^verbatim>\<open>std::get\<close> on the extracted variant.\<close>

definition get_schedule_change :: "(u16 \<times> block_header_extension) list \<Rightarrow> producer_authority_schedule result" where
  "get_schedule_change exts =
     ebind (ext_lower_bound producer_schedule_change_id exts) (\<lambda>e.
       case e of Ext_producer_schedule_change s \<Rightarrow> Inr s | _ \<Rightarrow> Inl bad_variant_access)"

definition get_feature_activation :: "(u16 \<times> block_header_extension) list \<Rightarrow> digest_type list result" where
  "get_feature_activation exts =
     ebind (ext_lower_bound protocol_feature_activation_id exts) (\<lambda>e.
       case e of Ext_protocol_feature_activation ds \<Rightarrow> Inr ds | _ \<Rightarrow> Inl bad_variant_access)"

definition new_schedule_allowed :: "pending_block_header_state \<Rightarrow> u32 \<Rightarrow> unit result" where
  "new_schedule_allowed p version =
     ebind (sys_assert (version = pas_version (bhs_active_schedule p) + 1) producer_schedule_exception) (\<lambda>_.
       sys_assert (pas_producers (si_schedule (pbs_prev_pending_schedule p)) = []) producer_schedule_exception)"

definition check_legacy_schedule ::
  "(bytes \<Rightarrow> digest_type) \<Rightarrow> bool \<Rightarrow> signed_block_header \<Rightarrow> pending_block_header_state
   \<Rightarrow> (producer_authority_schedule \<times> digest_type) option result" where
  "check_legacy_schedule sha wtmsig_enabled h p =
     (case bh_new_producers h of
        None \<Rightarrow> Inr None
      | Some new_producers \<Rightarrow>
          ebind (sys_assert (\<not> wtmsig_enabled) producer_schedule_exception) (\<lambda>_.
          ebind (sys_assert (\<not> pbs_was_pending_promoted p) producer_schedule_exception) (\<lambda>_.
          ebind (new_schedule_allowed p (lps_version new_producers)) (\<lambda>_.
          ebind (pack_legacy_schedule new_producers) (\<lambda>bs.
            Inr (Some (upconvert_schedule new_producers, sha bs)))))))"

definition check_schedule_change ::
  "(bytes \<Rightarrow> digest_type) \<Rightarrow> bool \<Rightarrow> (u16 \<times> block_header_extension) list \<Rightarrow> pending_block_header_state
   \<Rightarrow> (producer_authority_schedule \<times> digest_type) option
   \<Rightarrow> (producer_authority_schedule \<times> digest_type) option result" where
  "check_schedule_change sha wtmsig_enabled exts p maybe_new =
     (if ext_count producer_schedule_change_id exts > 0
      then ebind (sys_assert wtmsig_enabled producer_schedule_exception) (\<lambda>_.
           ebind (sys_assert (\<not> pbs_was_pending_promoted p) producer_schedule_exception) (\<lambda>_.
           ebind (get_schedule_change exts) (\<lambda>new_schedule.
           ebind (new_schedule_allowed p (pas_version new_schedule)) (\<lambda>_.
           ebind (pack_schedule new_schedule) (\<lambda>bs.
             Inr (Some (new_schedule, sha bs)))))))
      else Inr maybe_new)"

text \<open>
  The condition is written in the source as \<^verbatim>\<open>exts.count(protocol_feature_activation::extension_id() > 0)\<close>:
  the comparison is the argument of \<^verbatim>\<open>count\<close>, as the number 0 or 1.
\<close>

definition activate_header_features ::
  "feature_validator \<Rightarrow> (u16 \<times> block_header_extension) list \<Rightarrow> pending_block_header_state \<Rightarrow> digest_type list result" where
  "activate_header_features validator exts p =
     (if ext_count (if protocol_feature_activation_id > 0 then 1 else 0) exts \<noteq> 0
      then ebind (get_feature_activation exts) (\<lambda>new_features.
           ebind (validator (pbs_timestamp p) (pbs_prev_activated_protocol_features p) new_features) (\<lambda>_.
             extend_activation_set (pbs_prev_activated_protocol_features p) new_features True))
      else Inr (pbs_prev_activated_protocol_features p))"

definition next_pending_schedule ::
  "pending_block_header_state \<Rightarrow> (producer_authority_schedule \<times> digest_type) option \<Rightarrow> schedule_info" where
  "next_pending_schedule p maybe_new =
     (case maybe_new of
        Some (sched, sched_hash) \<Rightarrow>
          \<lparr>si_schedule_lib_num = bhs_block_num p, si_schedule_hash = sched_hash, si_schedule = sched\<rparr>
      | None \<Rightarrow>
          \<lparr>si_schedule_lib_num = si_schedule_lib_num (pbs_prev_pending_schedule p),
           si_schedule_hash = si_schedule_hash (pbs_prev_pending_schedule p),
           si_schedule =
             (if pbs_was_pending_promoted p
              then \<lparr>pas_version = pas_version (si_schedule (pbs_prev_pending_schedule p)), pas_producers = []\<rparr>
              else si_schedule (pbs_prev_pending_schedule p))\<rparr>)"

definition finished_state ::
  "pending_block_header_state \<Rightarrow> signed_block_header \<Rightarrow> block_id_type \<Rightarrow> (u16 \<times> block_header_extension) list
   \<Rightarrow> (producer_authority_schedule \<times> digest_type) option \<Rightarrow> digest_type list \<Rightarrow> block_header_state" where
  "finished_state p h bid exts maybe_new activated =
     \<lparr>bhs_block_num = bhs_block_num p,
     bhs_dpos_proposed_irreversible_blocknum = bhs_dpos_proposed_irreversible_blocknum p,
     bhs_dpos_irreversible_blocknum = bhs_dpos_irreversible_blocknum p,
     bhs_active_schedule = bhs_active_schedule p,
     bhs_blockroot_merkle = bhs_blockroot_merkle p,
     bhs_producer_to_last_produced = bhs_producer_to_last_produced p,
     bhs_producer_to_last_implied_irb = bhs_producer_to_last_implied_irb p,
     bhs_valid_block_signing_authority = bhs_valid_block_signing_authority p,
     bhs_confirm_count = bhs_confirm_count p,
     bhs_id = bid, bhs_header = h,
     bhs_pending_schedule = next_pending_schedule p maybe_new,
     bhs_activated_protocol_features = activated,
     bhs_additional_signatures = [],
     bhs_header_exts = exts\<rparr>"

definition finish_next_unsigned ::
  "(bytes \<Rightarrow> digest_type) \<Rightarrow> signed_block_header \<Rightarrow> protocol_feature_set \<Rightarrow> feature_validator
   \<Rightarrow> pending_block_header_state \<Rightarrow> block_header_state result" where
  "finish_next_unsigned sha h pfs validator p =
     ebind (sys_assert (bh_timestamp h = pbs_timestamp p) block_validate_exception) (\<lambda>_.
     ebind (sys_assert (bh_previous h = pbs_previous p) unlinkable_block_exception) (\<lambda>_.
     ebind (sys_assert (bh_confirmed h = pbs_confirmed p) block_validate_exception) (\<lambda>_.
     ebind (sys_assert (bh_producer h = pbs_producer p) wrong_producer) (\<lambda>_.
     ebind (sys_assert (bh_schedule_version h = pbs_active_schedule_version p) producer_schedule_exception) (\<lambda>_.
     ebind (validate_and_extract_header_extensions h) (\<lambda>exts.
     let wtmsig_enabled =
           (if bh_new_producers h \<noteq> None \<or> ext_count producer_schedule_change_id exts > 0
            then builtin_activated_in (pbs_prev_activated_protocol_features p) pfs wtmsig_block_signatures
            else False)
     in ebind (check_legacy_schedule sha wtmsig_enabled h p) (\<lambda>maybe_new.
        ebind (check_schedule_change sha wtmsig_enabled exts p maybe_new) (\<lambda>maybe_new.
        ebind (activate_header_features validator exts p) (\<lambda>activated.
        ebind (calculate_id sha h) (\<lambda>bid.
          Inr (finished_state p h bid exts maybe_new activated)))))))))))"

section \<open>Signatures\<close>

definition sig_digest :: "(bytes \<Rightarrow> digest_type) \<Rightarrow> block_header_state \<Rightarrow> digest_type result" where
  "sig_digest sha s =
     ebind (header_digest sha (bhs_header s)) (\<lambda>digest.
       let header_bmroot = hash_pair sha (digest, get_root (bhs_blockroot_merkle s))
       in Inr (hash_pair sha (header_bmroot, si_schedule_hash (bhs_pending_schedule s))))"

fun collect_keys ::
  "key_recovery \<Rightarrow> digest_type \<Rightarrow> signature_type list \<Rightarrow> public_key_type list \<Rightarrow> public_key_type list result" where
  "collect_keys recover digest [] keys = Inr keys"
| "collect_keys recover digest (s # ss) keys =
     ebind (recover s digest) (\<lambda>k.
     ebind (sys_assert (k \<notin> set keys) wrong_signing_key) (\<lambda>_.
       collect_keys recover digest ss (fs_insert k keys)))"

definition verify_signee ::
  "(bytes \<Rightarrow> digest_type) \<Rightarrow> key_recovery \<Rightarrow> block_header_state \<Rightarrow> unit result" where
  "verify_signee sha recover s =
     (let authority = bhs_valid_block_signing_authority s;
          num_keys_in_authority = (case authority of BSA_v0 a \<Rightarrow> length (bsa_keys a))
      in ebind (sys_assert (1 + length (bhs_additional_signatures s) \<le> num_keys_in_authority) wrong_signing_key) (\<lambda>_.
         ebind (sig_digest sha s) (\<lambda>digest.
         ebind (recover (bh_producer_signature (bhs_header s)) digest) (\<lambda>k.
         ebind (collect_keys recover digest (bhs_additional_signatures s) [k]) (\<lambda>keys.
           let (is_satisfied, relevant_sig_count) = keys_satisfy_and_relevant keys authority
           in ebind (sys_assert (relevant_sig_count = length keys) wrong_signing_key) (\<lambda>_.
                sys_assert is_satisfied wrong_signing_key))))))"

definition sign_header ::
  "(bytes \<Rightarrow> digest_type) \<Rightarrow> key_recovery \<Rightarrow> signer_callback_type \<Rightarrow> block_header_state \<Rightarrow> block_header_state result" where
  "sign_header sha recover signer s =
     ebind (sig_digest sha s) (\<lambda>d.
     ebind (signer d) (\<lambda>sigs.
     ebind (sys_assert (sigs \<noteq> []) no_block_signatures) (\<lambda>_.
       let s' = s\<lparr>bhs_header := (bhs_header s)\<lparr>bh_producer_signature := last sigs\<rparr>,
                  bhs_additional_signatures := butlast sigs\<rparr>
       in ebind (verify_signee sha recover s') (\<lambda>_. Inr s'))))"

text \<open>The two overloads of \<^verbatim>\<open>finish_next\<close>: for a received block, and for a block produced here.\<close>

definition finish_next ::
  "(bytes \<Rightarrow> digest_type) \<Rightarrow> key_recovery \<Rightarrow> signed_block_header \<Rightarrow> signature_type list \<Rightarrow> protocol_feature_set
   \<Rightarrow> feature_validator \<Rightarrow> bool \<Rightarrow> pending_block_header_state \<Rightarrow> block_header_state result" where
  "finish_next sha recover h additional_signatures pfs validator skip_validate_signee p =
     ebind (if additional_signatures \<noteq> []
            then sys_assert (builtin_activated_in (pbs_prev_activated_protocol_features p) pfs wtmsig_block_signatures)
                   producer_schedule_exception
            else Inr ()) (\<lambda>_.
     ebind (finish_next_unsigned sha h pfs validator p) (\<lambda>s.
       let s = (if additional_signatures \<noteq> [] then s\<lparr>bhs_additional_signatures := additional_signatures\<rparr> else s)
       in ebind (if \<not> skip_validate_signee then verify_signee sha recover s else Inr ()) (\<lambda>_. Inr s)))"

definition finish_next_signing ::
  "(bytes \<Rightarrow> digest_type) \<Rightarrow> key_recovery \<Rightarrow> signed_block_header \<Rightarrow> protocol_feature_set
   \<Rightarrow> feature_validator \<Rightarrow> signer_callback_type \<Rightarrow> pending_block_header_state
   \<Rightarrow> (block_header_state \<times> signed_block_header) result" where
  "finish_next_signing sha recover h pfs validator signer p =
     ebind (finish_next_unsigned sha h pfs validator p) (\<lambda>s.
     ebind (sign_header sha recover signer s) (\<lambda>s.
     ebind (if bhs_additional_signatures s \<noteq> []
            then sys_assert (builtin_activated_in (pbs_prev_activated_protocol_features p) pfs wtmsig_block_signatures)
                   producer_schedule_exception
            else Inr ()) (\<lambda>_.
       Inr (s, h\<lparr>bh_producer_signature := bh_producer_signature (bhs_header s)\<rparr>))))"

definition bhs_next ::
  "(bytes \<Rightarrow> digest_type) \<Rightarrow> key_recovery \<Rightarrow> signed_block_header \<Rightarrow> signature_type list \<Rightarrow> protocol_feature_set
   \<Rightarrow> feature_validator \<Rightarrow> bool \<Rightarrow> block_header_state \<Rightarrow> block_header_state result" where
  "bhs_next sha recover h additional_signatures pfs validator skip_validate_signee s =
     ebind (bhs_next_pending sha (bh_timestamp h) (bh_confirmed h) s) (\<lambda>p.
       finish_next sha recover h additional_signatures pfs validator skip_validate_signee p)"

definition get_new_protocol_feature_activations :: "block_header_state \<Rightarrow> digest_type list result" where
  "get_new_protocol_feature_activations s =
     (if ext_count protocol_feature_activation_id (bhs_header_exts s) = 0 then Inr []
      else get_feature_activation (bhs_header_exts s))"

section \<open>Block states\<close>

definition extract_additional_signatures :: "('t, 'a) signed_block_scheme \<Rightarrow> signature_type list result" where
  "extract_additional_signatures b =
     ebind (validate_and_extract_extensions b) (\<lambda>exts.
       if ext_count additional_signatures_id exts > 0
       then ext_lower_bound additional_signatures_id exts else Inr [])"

definition block_state_of_block ::
  "(bytes \<Rightarrow> digest_type) \<Rightarrow> key_recovery \<Rightarrow> block_header_state \<Rightarrow> 't signed_block \<Rightarrow> protocol_feature_set
   \<Rightarrow> feature_validator \<Rightarrow> bool \<Rightarrow> (block_header_state \<times> 't signed_block) result" where
  "block_state_of_block sha recover prev b pfs validator skip_validate_signee =
     ebind (extract_additional_signatures b) (\<lambda>sigs.
     ebind (bhs_next sha recover (signed_block_header.truncate b) sigs pfs validator skip_validate_signee prev) (\<lambda>s.
       Inr (s, b)))"

definition block_state_of_pending ::
  "(bytes \<Rightarrow> digest_type) \<Rightarrow> key_recovery \<Rightarrow> pending_block_header_state \<Rightarrow> 't signed_block \<Rightarrow> protocol_feature_set
   \<Rightarrow> feature_validator \<Rightarrow> signer_callback_type \<Rightarrow> (block_header_state \<times> 't signed_block) result" where
  "block_state_of_pending sha recover cur b pfs validator signer =
     ebind (finish_next_signing sha recover (signed_block_header.truncate b) pfs validator signer cur) (\<lambda>(s, h).
       let b = b\<lparr>bh_producer_signature := bh_producer_signature h\<rparr>
       in if bhs_additional_signatures s \<noteq> []
          then ebind (sys_assert (builtin_activated_in (pbs_prev_activated_protocol_features cur) pfs wtmsig_block_signatures)
                        block_validate_exception) (\<lambda>_.
               ebind (pack_vector pack_signature (bhs_additional_signatures s)) (\<lambda>data.
                 Inr (s, b\<lparr>sb_block_extensions :=
                   emplace_extension (sb_block_extensions b) additional_signatures_id data\<rparr>)))
          else Inr (s, b))"

section \<open>The genesis state\<close>

definition system_account_name :: account_name where
  "system_account_name = string_to_uint64_t ''sysio''"

definition genesis_header :: "block_timestamp \<Rightarrow> digest_type \<Rightarrow> signed_block_header" where
  "genesis_header initial_timestamp chain_id =
     \<lparr>bh_timestamp = initial_timestamp, bh_producer = 0, bh_confirmed = 1, bh_previous = zero_digest,
      bh_transaction_mroot = zero_digest, bh_action_mroot = chain_id, bh_schedule_version = 0,
      bh_new_producers = None, bh_header_extensions = [], bh_producer_signature = default_signature\<rparr>"

definition initial_schedule :: "public_key_type \<Rightarrow> producer_authority_schedule" where
  "initial_schedule initial_key =
     \<lparr>pas_version = 0,
      pas_producers = [\<lparr>pa_producer_name = system_account_name,
        pa_authority = BSA_v0 \<lparr>bsa_threshold = 1, bsa_keys = [\<lparr>kw_key = initial_key, kw_weight = 1\<rparr>]\<rparr>\<rparr>]\<rparr>"

definition genesis_state ::
  "(bytes \<Rightarrow> digest_type) \<Rightarrow> block_timestamp \<Rightarrow> digest_type \<Rightarrow> public_key_type \<Rightarrow> block_header_state result" where
  "genesis_state sha initial_timestamp chain_id initial_key =
     (let h = genesis_header initial_timestamp chain_id in
      ebind (pack_legacy_schedule \<lparr>lps_version = 0, lps_producers =
               [\<lparr>lpk_producer_name = system_account_name, lpk_block_signing_key = initial_key\<rparr>]\<rparr>) (\<lambda>bs.
      ebind (calculate_id sha h) (\<lambda>bid.
        Inr \<lparr>bhs_block_num = block_num h,
             bhs_dpos_proposed_irreversible_blocknum = 0,
             bhs_dpos_irreversible_blocknum = 0,
             bhs_active_schedule = initial_schedule initial_key,
             bhs_blockroot_merkle = empty_incremental_merkle,
             bhs_producer_to_last_produced = [],
             bhs_producer_to_last_implied_irb = [],
             bhs_valid_block_signing_authority = BSA_v0 \<lparr>bsa_threshold = 0, bsa_keys = []\<rparr>,
             bhs_confirm_count = [],
             bhs_id = bid, bhs_header = h,
             bhs_pending_schedule = \<lparr>si_schedule_lib_num = 0, si_schedule_hash = sha bs,
               si_schedule = initial_schedule initial_key\<rparr>,
             bhs_activated_protocol_features = [],
             bhs_additional_signatures = [],
             bhs_header_exts = []\<rparr>)))"

end
