(* ===== verification/Header_Validation.thy ===== *)
theory Header_Validation
  imports Header_State
begin

text \<open>
  What the header checks accept: the signatures that \<open>verify_signee\<close> takes, and that a header made
  by \<open>make_block_header\<close> passes the checks of the node that receives it and carries its contents
  across.
\<close>

section \<open>Block signatures\<close>

lemma fold_fs_insert_fresh:
  "fs_wf keys \<Longrightarrow> distinct ks \<Longrightarrow> set ks \<inter> set keys = {} \<Longrightarrow>
   fs_wf (fold fs_insert ks keys) \<and> set (fold fs_insert ks keys) = set ks \<union> set keys
     \<and> length (fold fs_insert ks keys) = length ks + length keys"
proof (induction ks arbitrary: keys)
  case (Cons k ks)
  have "length (fs_insert k keys) = Suc (length keys)"
    using Cons.prems distinct_card [OF fs_wf_distinct [of "fs_insert k keys"]] distinct_card [OF fs_wf_distinct [of keys]]
    by simp
  with Cons show ?case by auto
qed simp

lemma collect_keys_iff:
  "collect_keys recover digest ss keys = Inr r \<longleftrightarrow>
     (\<exists>ks. list_all2 (\<lambda>sig k. recover sig digest = Inr k) ss ks \<and> distinct ks \<and> set ks \<inter> set keys = {}
        \<and> r = fold fs_insert ks keys)"
proof (induction ss arbitrary: keys)
  case (Cons s ss)
  show ?case
  proof (cases "recover s digest")
    case (Inr k)
    then show ?thesis using Cons [of "fs_insert k keys"] by (force simp: list_all2_Cons1)
  qed (simp add: list_all2_Cons1)
qed auto

lemma relevant_keys_cong: "set ks = set ks' \<Longrightarrow> relevant_keys ks = relevant_keys ks'"
  by (simp add: relevant_keys_def)

lemma verify_signee_iff:
  "verify_signee sha recover s = Inr () \<longleftrightarrow>
     (\<exists>digest ks. sig_digest sha s = Inr digest
        \<and> list_all2 (\<lambda>sig k. recover sig digest = Inr k)
            (bh_producer_signature (bhs_header s) # bhs_additional_signatures s) ks
        \<and> distinct ks
        \<and> (let a = the_v0 (bhs_valid_block_signing_authority s) in
            length ks \<le> length (bsa_keys a) \<and> length (relevant_keys ks (bsa_keys a)) = length ks
            \<and> unat (bsa_threshold a) \<le> key_weight_sum (relevant_keys ks (bsa_keys a))))"
    (is "?lhs \<longleftrightarrow> ?rhs")
proof -
  obtain a where a: "bhs_valid_block_signing_authority s = BSA_v0 a"
    by (cases "bhs_valid_block_signing_authority s")
  let ?sigs = "bhs_additional_signatures s" and ?sig = "bh_producer_signature (bhs_header s)"
  have "?lhs \<longleftrightarrow> (\<exists>digest k ks. sig_digest sha s = Inr digest \<and> recover ?sig digest = Inr k
      \<and> list_all2 (\<lambda>sig k. recover sig digest = Inr k) ?sigs ks \<and> distinct ks \<and> k \<notin> set ks
      \<and> Suc (length ?sigs) \<le> length (bsa_keys a)
      \<and> length (relevant_keys (fold fs_insert ks [k]) (bsa_keys a)) = length (fold fs_insert ks [k])
      \<and> unat (bsa_threshold a) \<le> key_weight_sum (relevant_keys (fold fs_insert ks [k]) (bsa_keys a)))"
    by (auto simp: verify_signee_def a keys_satisfy_exact ebind_Inr_iff collect_keys_iff simp del: keys_satisfy_and_relevant.simps)
  also have "\<dots> \<longleftrightarrow> (\<exists>digest k ks. sig_digest sha s = Inr digest \<and> recover ?sig digest = Inr k
      \<and> list_all2 (\<lambda>sig k. recover sig digest = Inr k) ?sigs ks \<and> distinct (k # ks)
      \<and> length (k # ks) \<le> length (bsa_keys a)
      \<and> length (relevant_keys (k # ks) (bsa_keys a)) = length (k # ks)
      \<and> unat (bsa_threshold a) \<le> key_weight_sum (relevant_keys (k # ks) (bsa_keys a)))"
  proof -
    have fresh: "set (fold fs_insert ks [k]) = set (k # ks)" "length (fold fs_insert ks [k]) = Suc (length ks)"
      if "distinct ks" "k \<notin> set ks" for k ks
      using fold_fs_insert_fresh [of "[k]" ks] that by simp_all
    have rk: "relevant_keys (fold fs_insert ks [k]) = relevant_keys (k # ks)" if "distinct ks" "k \<notin> set ks" for k ks
      by (rule relevant_keys_cong) (rule fresh(1) [OF that])
    show ?thesis by (intro ex_cong1) (auto simp: rk fresh(2) dest: list_all2_lengthD)
  qed
  also have "\<dots> \<longleftrightarrow> ?rhs"
    by (simp only: a block_signing_authority.sel Let_def list_all2_Cons1) blast
  finally show ?thesis .
qed

text \<open>With different keys in the authority, the count of relevant keys decides whether all presented keys are known.\<close>

lemma relevant_keys_all:
  assumes "distinct ks" and "distinct (map kw_key kws)"
  shows "(length ks \<le> length kws \<and> length (relevant_keys ks kws) = length ks) \<longleftrightarrow> set ks \<subseteq> kw_key ` set kws"
proof -
  have keys: "kw_key ` set (relevant_keys ks kws) = set ks \<inter> kw_key ` set kws" by (auto simp: relevant_keys_def)
  have "distinct (map kw_key (relevant_keys ks kws))"
    using assms(2) unfolding relevant_keys_def by (auto simp: distinct_map intro: inj_on_subset)
  then have "length (relevant_keys ks kws) = card (set ks \<inter> kw_key ` set kws)"
    using distinct_card [of "map kw_key (relevant_keys ks kws)"] keys by simp
  moreover have "length (relevant_keys ks kws) \<le> length kws" by (simp add: relevant_keys_def)
  moreover have "length ks = card (set ks)" using distinct_card [OF assms(1)] by simp
  moreover have "card (set ks \<inter> kw_key ` set kws) = card (set ks) \<longleftrightarrow> set ks \<subseteq> kw_key ` set kws"
    using card_subset_eq [of "set ks" "set ks \<inter> kw_key ` set kws"] by (auto simp: Int_absorb2)
  ultimately show ?thesis by auto
qed

section \<open>Headers made here are accepted there\<close>

lemma emplace_extension_last:
  "\<forall>e \<in> set exts. fst e \<le> eid \<Longrightarrow> emplace_extension exts eid data = exts @ [(eid, data)]"
  by (simp add: emplace_extension_def not_less)

lemma extract_packed:
  "pack_protocol_feature_activation ds = Inr data \<Longrightarrow> ds \<noteq> [] \<Longrightarrow> distinct ds \<Longrightarrow>
   extract_extension protocol_feature_activation_id data = Inr (Some (Ext_protocol_feature_activation ds, True))"
  "pack_schedule sched = Inr data \<Longrightarrow> list_all producer_ok (pas_producers sched) \<Longrightarrow>
   extract_extension producer_schedule_change_id data = Inr (Some (Ext_producer_schedule_change sched, True))"
  "pack_s_header h = Inr data \<Longrightarrow> extract_extension s_root_id data = Inr (Some (Ext_s_root h, True))"
  using activation_codec.unp_pk [of ds data "[]"] schedule_codec.unp_pk [of sched data "[]"]
    s_header_codec.unp_pk [of h data "[]"]
  by (simp_all add: extract_extension_def protocol_feature_activation_id_def producer_schedule_change_id_def
      s_root_id_def)

text \<open>The extensions of a made header, as they are extracted again.\<close>

definition header_contents ::
  "digest_type list \<Rightarrow> producer_authority_schedule option \<Rightarrow> bool \<Rightarrow> s_header option
   \<Rightarrow> (u16 \<times> block_header_extension) list" where
  "header_contents acts new_producers wtmsig s_hdr =
     (if acts \<noteq> [] then [(protocol_feature_activation_id, Ext_protocol_feature_activation acts)] else []) @
     (case new_producers of
        Some sched \<Rightarrow> if wtmsig then [(producer_schedule_change_id, Ext_producer_schedule_change sched)] else []
      | None \<Rightarrow> []) @
     (case s_hdr of Some sh \<Rightarrow> [(s_root_id, Ext_s_root sh)] | None \<Rightarrow> [])"

lemmas extension_ids = protocol_feature_activation_id_def producer_schedule_change_id_def s_root_id_def

text \<open>Each step appends to the extracted extensions, and leaves the other fields.\<close>

definition extends_header ::
  "signed_block_header \<Rightarrow> (u16 \<times> block_header_extension) list \<Rightarrow> signed_block_header \<Rightarrow> bool" where
  "extends_header h ext h' \<longleftrightarrow>
     (\<exists>es. bh_header_extensions h' = bh_header_extensions h @ es \<and> list_all2 extracts es ext) \<and>
     bh_timestamp h' = bh_timestamp h \<and> bh_producer h' = bh_producer h \<and> bh_confirmed h' = bh_confirmed h \<and>
     bh_previous h' = bh_previous h \<and> bh_schedule_version h' = bh_schedule_version h"

lemma with_activations_extends:
  assumes "with_activations acts h = Inr h'" and "distinct acts" and "bh_header_extensions h = []"
  shows "extends_header h (if acts \<noteq> [] then [(protocol_feature_activation_id, Ext_protocol_feature_activation acts)]
    else []) h' \<and> bh_new_producers h' = bh_new_producers h"
  using assms
  by (auto simp: with_activations_def extends_header_def ebind_Inr_iff emplace_extension_last extracts_def
      extract_packed split: if_splits)

lemma with_new_producers_extends:
  assumes "with_new_producers np w h = Inr h'" and "\<forall>e \<in> set (bh_header_extensions h). fst e \<le> producer_schedule_change_id"
    and "pred_option (\<lambda>sched. list_all producer_ok (pas_producers sched)) np"
  shows "extends_header h (case np of Some sched \<Rightarrow>
      if w then [(producer_schedule_change_id, Ext_producer_schedule_change sched)] else [] | None \<Rightarrow> []) h'
    \<and> (bh_new_producers h = None \<longrightarrow> (bh_new_producers h' \<noteq> None) = (np \<noteq> None \<and> \<not> w))
    \<and> (\<forall>leg. bh_new_producers h = None \<longrightarrow> bh_new_producers h' = Some leg \<longrightarrow> lps_version leg = pas_version (the np))"
  using assms
  by (auto simp: with_new_producers_def extends_header_def ebind_Inr_iff emplace_extension_last extracts_def
      extract_packed split: if_splits option.splits)

lemma with_s_root_extends:
  assumes "with_s_root sh h = Inr h'" and "\<forall>e \<in> set (bh_header_extensions h). fst e \<le> s_root_id"
  shows "extends_header h (case sh of Some sh \<Rightarrow> [(s_root_id, Ext_s_root sh)] | None \<Rightarrow> []) h'
    \<and> bh_new_producers h' = bh_new_producers h"
  using assms
  by (auto simp: with_s_root_def extends_header_def ebind_Inr_iff emplace_extension_last extracts_def
      extract_packed split: if_splits option.splits)

lemma list_all2_extracts_fst: "list_all2 extracts es rs \<Longrightarrow> map fst es = map fst rs"
  by (induction rule: list_all2_induct) (auto simp: extracts_def)

lemma made_header:
  assumes "make_block_header tm am np acts pfs s_hdr p = Inr h" and "distinct acts"
    and "pred_option (\<lambda>sched. list_all producer_ok (pas_producers sched)) np"
    and w: "w = builtin_activated_in (pbs_prev_activated_protocol_features p) pfs wtmsig_block_signatures"
  shows "validate_and_extract_header_extensions h = Inr (header_contents acts np w s_hdr)"
    and "bh_timestamp h = pbs_timestamp p" and "bh_producer h = pbs_producer p"
    and "bh_confirmed h = pbs_confirmed p" and "bh_previous h = pbs_previous p"
    and "bh_schedule_version h = pbs_active_schedule_version p"
    and "(bh_new_producers h \<noteq> None) = (np \<noteq> None \<and> \<not> w)"
    and "\<And>leg. bh_new_producers h = Some leg \<Longrightarrow> lps_version leg = pas_version (the np)"
proof -
  let ?h0 = "\<lparr>bh_timestamp = pbs_timestamp p, bh_producer = pbs_producer p, bh_confirmed = pbs_confirmed p,
    bh_previous = pbs_previous p, bh_transaction_mroot = tm, bh_action_mroot = am,
    bh_schedule_version = pbs_active_schedule_version p, bh_new_producers = None, bh_header_extensions = [],
    bh_producer_signature = default_signature\<rparr>"
  let ?e0 = "if acts \<noteq> [] then [(protocol_feature_activation_id, Ext_protocol_feature_activation acts)] else []"
    and ?e1 = "case np of Some sched \<Rightarrow>
      if w then [(producer_schedule_change_id, Ext_producer_schedule_change sched)] else [] | None \<Rightarrow> []"
    and ?e2 = "case s_hdr of Some sh \<Rightarrow> [(s_root_id, Ext_s_root sh)] | None \<Rightarrow> []"
  from assms(1) obtain h1 h2 where h: "with_activations acts ?h0 = Inr h1" "with_new_producers np w h1 = Inr h2"
    "with_s_root s_hdr h2 = Inr h"
    by (auto simp: make_block_header_def ebind_Inr_iff w)
  from with_activations_extends [OF h(1) assms(2)] have x1: "extends_header ?h0 ?e0 h1" "bh_new_producers h1 = None"
    by simp_all
  then obtain es0 where es0: "bh_header_extensions h1 = es0" "list_all2 extracts es0 ?e0"
    by (auto simp: extends_header_def)
  have "\<forall>i \<in> set (map fst es0). i \<le> producer_schedule_change_id"
    unfolding list_all2_extracts_fst [OF es0(2)] by (simp add: extension_ids)
  then have x2: "extends_header h1 ?e1 h2" "(bh_new_producers h2 \<noteq> None) = (np \<noteq> None \<and> \<not> w)"
    "\<forall>leg. bh_new_producers h2 = Some leg \<longrightarrow> lps_version leg = pas_version (the np)"
    using with_new_producers_extends [OF h(2) _ assms(3)] es0(1) x1(2) by (simp_all add: ball_Un)
  then obtain es1 where es1: "bh_header_extensions h2 = es0 @ es1" "list_all2 extracts es1 ?e1"
    using es0(1) by (auto simp: extends_header_def)
  have fst01: "map fst (es0 @ es1) = map fst (?e0 @ ?e1)"
    using list_all2_extracts_fst [OF es0(2)] list_all2_extracts_fst [OF es1(2)] by simp
  have "\<forall>i \<in> set (map fst (es0 @ es1)). i \<le> s_root_id"
    unfolding fst01 by (cases np) (auto simp: extension_ids)
  then have x3: "extends_header h2 ?e2 h" "bh_new_producers h = bh_new_producers h2"
    using with_s_root_extends [OF h(3)] es1(1) by (auto simp: ball_Un)
  then obtain es2 where es2: "bh_header_extensions h = es0 @ es1 @ es2" "list_all2 extracts es2 ?e2"
    using es1(1) by (auto simp: extends_header_def)
  have "map fst (bh_header_extensions h) = map fst (?e0 @ ?e1 @ ?e2)"
    using fst01 list_all2_extracts_fst [OF es2(2)] es2(1) by simp
  then have "sorted_wrt (<) (map fst (bh_header_extensions h))"
    by (cases np; cases s_hdr) (simp_all add: extension_ids)
  moreover have "list_all2 extracts (bh_header_extensions h) (?e0 @ ?e1 @ ?e2)"
    unfolding es2(1) by (intro list_all2_appendI es0(2) es1(2) es2(2))
  ultimately show "validate_and_extract_header_extensions h = Inr (header_contents acts np w s_hdr)"
    by (simp add: header_extensions_iff header_contents_def)
  show "bh_timestamp h = pbs_timestamp p" "bh_producer h = pbs_producer p" "bh_confirmed h = pbs_confirmed p"
    "bh_previous h = pbs_previous p" "bh_schedule_version h = pbs_active_schedule_version p"
    "(bh_new_producers h \<noteq> None) = (np \<noteq> None \<and> \<not> w)"
    "\<And>leg. bh_new_producers h = Some leg \<Longrightarrow> lps_version leg = pas_version (the np)"
    using x1 x2 x3 by (simp_all add: extends_header_def)
qed

lemma header_contents_read:
  "ext_count producer_schedule_change_id (header_contents acts np w sh) > 0 \<longleftrightarrow> np \<noteq> None \<and> w"
  "np = Some sched \<Longrightarrow> w \<Longrightarrow> get_schedule_change (header_contents acts np w sh) = Inr sched"
  "ext_count protocol_feature_activation_id (header_contents acts np w sh) = 0 \<longleftrightarrow> acts = []"
  "acts \<noteq> [] \<Longrightarrow> get_feature_activation (header_contents acts np w sh) = Inr acts"
  by (auto simp: header_contents_def ext_count_def extension_ids get_schedule_change_def get_feature_activation_def
      ext_lower_bound_def split: option.splits)

text \<open>A schedule may be proposed when it has the next version and none is pending or being promoted.\<close>

definition new_schedule_ok :: "pending_block_header_state \<Rightarrow> producer_authority_schedule \<Rightarrow> bool" where
  "new_schedule_ok p sched \<longleftrightarrow>
     list_all producer_ok (pas_producers sched)
     \<and> pas_version sched = pas_version (bhs_active_schedule p) + 1 \<and> \<not> pbs_was_pending_promoted p
     \<and> pas_producers (si_schedule (pbs_prev_pending_schedule p)) = []"

lemma legacy_schedule_packs:
  assumes "calculate_id sha h = Inr bid" and "bh_new_producers h = Some leg"
  shows "\<exists>bs. pack_legacy_schedule leg = Inr bs"
  using assms by (auto simp: calculate_id_def header_digest_def pack_block_header_def pack_optional_def
      ebind_Inr_iff pseq_Inr_iff)

lemma made_schedule_checked:
  assumes "make_block_header tm am np acts pfs s_hdr p = Inr h" and "distinct acts"
    and np: "pred_option (new_schedule_ok p) np"
    and w: "w = builtin_activated_in (pbs_prev_activated_protocol_features p) pfs wtmsig_block_signatures"
    and bid: "calculate_id sha h = Inr bid"
  shows "\<exists>maybe maybe'. check_legacy_schedule sha (np \<noteq> None \<and> w) h p = Inr maybe
    \<and> check_schedule_change sha (np \<noteq> None \<and> w) (header_contents acts np w s_hdr) p maybe = Inr maybe'
    \<and> (case np of None \<Rightarrow> maybe' = None
       | Some sched \<Rightarrow> \<exists>sched' d. maybe' = Some (sched', d) \<and> pas_version sched' = pas_version sched \<and> (w \<longrightarrow> sched' = sched))"
proof -
  have ok: "pred_option (\<lambda>sched. list_all producer_ok (pas_producers sched)) np"
    using np by (rule option.pred_mono_strong) (simp add: new_schedule_ok_def)
  note m = made_header [OF assms(1,2) ok w]
  show ?thesis
  proof (cases np)
    case None
    with m(7) show ?thesis
      by (simp add: check_legacy_schedule_def check_schedule_change_def header_contents_read)
  next
    case (Some sched)
    then have n: "new_schedule_ok p sched" using np by simp
    show ?thesis
    proof (cases w)
      case True
      with Some m(7) have "bh_new_producers h = None" by simp
      moreover have "\<exists>bs. pack_schedule sched = Inr bs"
        using assms(1) Some True w
        by (auto simp: make_block_header_def with_new_producers_def ebind_Inr_iff)
      ultimately show ?thesis
        using Some True n
        by (auto simp: check_legacy_schedule_def check_schedule_change_def header_contents_read
            new_schedule_allowed_def new_schedule_ok_def)
    next
      case False
      with Some m(7) obtain leg where leg: "bh_new_producers h = Some leg" by auto
      have "lps_version leg = pas_version sched" using m(8) [OF leg] Some by simp
      moreover obtain bs where "pack_legacy_schedule leg = Inr bs" using legacy_schedule_packs [OF bid leg] by blast
      ultimately show ?thesis
        using Some False n leg
        by (simp add: check_legacy_schedule_def check_schedule_change_def header_contents_read
            new_schedule_allowed_def new_schedule_ok_def upconvert_schedule_def)
    qed
  qed
qed

lemma made_features_activated:
  assumes "distinct acts" and "fs_wf (pbs_prev_activated_protocol_features p)"
    and "set acts \<inter> set (pbs_prev_activated_protocol_features p) = {}"
    and "acts = [] \<or> validator (pbs_timestamp p) (pbs_prev_activated_protocol_features p) acts = Inr ()"
  shows "\<exists>u. activate_header_features validator (header_contents acts np w s_hdr) p = Inr u
    \<and> set u = set (pbs_prev_activated_protocol_features p) \<union> set acts"
proof (cases "acts = []")
  case True
  then show ?thesis
    using header_contents_read(3) [of acts np w s_hdr]
    by (simp add: activate_header_features_def protocol_feature_activation_id_def)
next
  case False
  let ?u = "fold fs_insert (set_union (pbs_prev_activated_protocol_features p) (sort acts)) []"
  have "extend_activation_set (pbs_prev_activated_protocol_features p) acts True = Inr ?u"
    using assms(1-3) by (auto simp: extend_activation_set_eq)
  moreover have "set ?u = set (pbs_prev_activated_protocol_features p) \<union> set acts"
    using fold_fs_insert [of "[]" "set_union (pbs_prev_activated_protocol_features p) (sort acts)"] by simp
  ultimately show ?thesis
    using False assms(4) header_contents_read(3) [of acts np w s_hdr] header_contents_read(4) [OF False, of np w s_hdr]
    by (simp add: activate_header_features_def protocol_feature_activation_id_def)
qed

lemma made_header_finishes:
  assumes make: "make_block_header tm am np acts pfs s_hdr p = Inr h" and acts: "distinct acts"
    "fs_wf (pbs_prev_activated_protocol_features p)" "set acts \<inter> set (pbs_prev_activated_protocol_features p) = {}"
    "acts = [] \<or> validator (pbs_timestamp p) (pbs_prev_activated_protocol_features p) acts = Inr ()"
    and np: "pred_option (new_schedule_ok p) np"
    and bid: "calculate_id sha h = Inr bid"
  shows "\<exists>s. finish_next_unsigned sha h pfs validator p = Inr s
    \<and> bhs_id s = bid \<and> bhs_header s = h
    \<and> get_new_protocol_feature_activations s = Inr acts
    \<and> set (bhs_activated_protocol_features s) = set (pbs_prev_activated_protocol_features p) \<union> set acts
    \<and> (case np of None \<Rightarrow> bhs_pending_schedule s = next_pending_schedule p None
       | Some sched \<Rightarrow> pas_version (si_schedule (bhs_pending_schedule s)) = pas_version sched
           \<and> si_schedule_lib_num (bhs_pending_schedule s) = bhs_block_num p
           \<and> (builtin_activated_in (pbs_prev_activated_protocol_features p) pfs wtmsig_block_signatures \<longrightarrow>
                si_schedule (bhs_pending_schedule s) = sched))"
proof -
  define w where "w = builtin_activated_in (pbs_prev_activated_protocol_features p) pfs wtmsig_block_signatures"
  let ?exts = "header_contents acts np w s_hdr"
  have ok: "pred_option (\<lambda>sched. list_all producer_ok (pas_producers sched)) np"
    using np by (rule option.pred_mono_strong) (simp add: new_schedule_ok_def)
  note m = made_header [OF make acts(1) ok w_def]
  obtain maybe maybe' where c: "check_legacy_schedule sha (np \<noteq> None \<and> w) h p = Inr maybe"
    "check_schedule_change sha (np \<noteq> None \<and> w) ?exts p maybe = Inr maybe'"
    and new: "case np of None \<Rightarrow> maybe' = None
       | Some sched \<Rightarrow> \<exists>sched' d. maybe' = Some (sched', d) \<and> pas_version sched' = pas_version sched \<and> (w \<longrightarrow> sched' = sched)"
    using made_schedule_checked [OF make acts(1) np w_def bid] by blast
  obtain u where u: "activate_header_features validator ?exts p = Inr u"
    "set u = set (pbs_prev_activated_protocol_features p) \<union> set acts"
    using made_features_activated [of acts p validator np w s_hdr] acts by blast
  have wt: "(if bh_new_producers h \<noteq> None \<or> ext_count producer_schedule_change_id ?exts > 0 then w else False)
      = (np \<noteq> None \<and> w)"
    using m(7) by (simp add: header_contents_read)
  have fin: "finish_next_unsigned sha h pfs validator p = Inr (finished_state p h bid ?exts maybe' u)"
    by (simp only: finish_next_unsigned_def Let_def m(1-6) simp_thms sys_assert_simps ebind_simps
        w_def [symmetric] wt c u(1) bid)
  have "get_new_protocol_feature_activations (finished_state p h bid ?exts maybe' u) = Inr acts"
    by (simp add: get_new_protocol_feature_activations_def finished_state_def header_contents_read)
  with fin u(2) new show ?thesis
    by (cases np) (auto simp: finished_state_def next_pending_schedule_def w_def)
qed

section \<open>Properties\<close>


definition sample_pending :: pending_block_header_state where
  "sample_pending = \<lparr>bhs_block_num = 9, bhs_dpos_proposed_irreversible_blocknum = 8,
     bhs_dpos_irreversible_blocknum = 2, bhs_active_schedule = empty_schedule,
     bhs_blockroot_merkle = empty_incremental_merkle, bhs_producer_to_last_produced = [],
     bhs_producer_to_last_implied_irb = [], bhs_valid_block_signing_authority = BSA_v0 \<lparr>bsa_threshold = 0, bsa_keys = []\<rparr>,
     bhs_confirm_count = [], pbs_prev_activated_protocol_features = [],
     pbs_prev_pending_schedule = \<lparr>si_schedule_lib_num = 0, si_schedule_hash = zero_digest, si_schedule = empty_schedule\<rparr>,
     pbs_was_pending_promoted = False, pbs_previous = zero_digest, pbs_producer = 3, pbs_timestamp = \<lparr>slot = 5\<rparr>,
     pbs_active_schedule_version = 0, pbs_confirmed = 1\<rparr>"

lemma sample_made_header:
  "\<exists>h bid. make_block_header zero_digest zero_digest (Some \<lparr>pas_version = 1, pas_producers = []\<rparr>) [SHA256 1 0 0 0]
       empty_protocol_feature_set None sample_pending = Inr h \<and> calculate_id (\<lambda>_. zero_digest) h = Inr bid"
  by (simp add: make_block_header_def with_activations_def with_new_producers_def with_s_root_def
      sample_pending_def builtin_activated_in_def get_builtin_digest_eq empty_protocol_feature_set_def
      pack_protocol_feature_activation_def pack_legacy_schedule_def emplace_extension_def calculate_id_def header_digest_def
      pack_block_header_def pseq_def pack_word_def pack_sha256_def pack_optional_def pack_pair_def
      pack_vector_def pack_bytes_def pack_bool_def pack_unsigned_int_def max_num_array_elements_def
      max_size_of_byte_arrays_def varint_bytes.simps [of 1])


text \<open>C18. When the keys of the block signing authority are pairwise different, which setting a producer schedule
  checks, \<^verbatim>\<open>verify_signee\<close> accepts a block exactly when the header has a digest to sign, a key is recovered
  from each of its signatures, these keys are pairwise different and all of them keys of the authority,
  and the weights the authority gives them, summed without bound, reach its threshold.\<close>

theorem verify_signee_exact:
  assumes "distinct (map kw_key (bsa_keys (the_v0 (bhs_valid_block_signing_authority s))))"
  shows "verify_signee sha recover s = Inr () \<longleftrightarrow>
     (\<exists>digest ks. sig_digest sha s = Inr digest
        \<and> list_all2 (\<lambda>sig k. recover sig digest = Inr k)
            (bh_producer_signature (bhs_header s) # bhs_additional_signatures s) ks
        \<and> distinct ks
        \<and> (let a = the_v0 (bhs_valid_block_signing_authority s) in
            set ks \<subseteq> kw_key ` set (bsa_keys a) \<and> unat (bsa_threshold a) \<le> key_weight_sum (relevant_keys ks (bsa_keys a))))"
  unfolding verify_signee_iff Let_def using relevant_keys_all [OF _ assms] by blast

definition sample_signed :: block_header_state where
  "sample_signed = \<lparr>bhs_block_num = 2, bhs_dpos_proposed_irreversible_blocknum = 1,
     bhs_dpos_irreversible_blocknum = 1, bhs_active_schedule = empty_schedule,
     bhs_blockroot_merkle = empty_incremental_merkle, bhs_producer_to_last_produced = [],
     bhs_producer_to_last_implied_irb = [], bhs_valid_block_signing_authority = BSA_v0 \<lparr>bsa_threshold = 2,
       bsa_keys = [\<lparr>kw_key = K1_key [1], kw_weight = 1\<rparr>, \<lparr>kw_key = K1_key [2], kw_weight = 1\<rparr>]\<rparr>,
     bhs_confirm_count = [], bhs_id = zero_digest, bhs_header = genesis_header \<lparr>slot = 2\<rparr> zero_digest,
     bhs_pending_schedule = \<lparr>si_schedule_lib_num = 0, si_schedule_hash = zero_digest, si_schedule = empty_schedule\<rparr>,
     bhs_activated_protocol_features = [], bhs_additional_signatures = [K1_sig []], bhs_header_exts = []\<rparr>"

lemma sample_signed_digest: "sig_digest (\<lambda>_. zero_digest) sample_signed = Inr zero_digest"
  by (simp add: sig_digest_def header_digest_def sample_signed_def genesis_header_def hash_pair_def pack_block_header_def
      pseq_def pack_word_def pack_sha256_def pack_optional_def pack_vector_def pack_bytes_def pack_bool_def
      pack_unsigned_int_def max_num_array_elements_def)

theorem verify_signee_exact_witness:
  "distinct (map kw_key (bsa_keys (the_v0 (bhs_valid_block_signing_authority sample_signed)))) \<and>
   verify_signee (\<lambda>_. zero_digest) (\<lambda>sig _. Inr (if sig = K1_sig [] then K1_key [2] else K1_key [1])) sample_signed = Inr ()"
proof -
  have d: "distinct (map kw_key (bsa_keys (the_v0 (bhs_valid_block_signing_authority sample_signed))))"
    by (simp add: sample_signed_def)
  have "verify_signee (\<lambda>_. zero_digest) (\<lambda>sig _. Inr (if sig = K1_sig [] then K1_key [2] else K1_key [1])) sample_signed = Inr ()"
    unfolding verify_signee_exact [OF d] using sample_signed_digest
    by (intro exI [of _ zero_digest] exI [of _ "[K1_key [1], K1_key [2]]"])
      (simp add: sample_signed_def genesis_header_def default_signature_def relevant_keys_def key_weight_sum_def)
  with d show ?thesis by blast
qed

end
