(* ===== verification/Fork_Database.thy ===== *)
theory Fork_Database
  imports Header_State
begin

text \<open>
  The fork database (fork_database.hpp, fork_database.cpp): the tree of blocks above the last
  irreversible block, the choice of the best head, and the branches handed to the controller for a fork
  switch.

  The multi-index container is the list of its elements in insertion order. Its unique index by id is a
  search for the id; the index by previous id lists the children of a block in insertion order; the
  ordered index by validity, irreversible block, number and id is the comparison \<open>by_lib_less\<close>, of
  which only the first elements are used. Block states are shared pointers in the source. The database
  changes no field of a block state but \<open>validated\<close>, which it reads only through the index, so head and
  root are kept as copies.
\<close>

record block_state = block_header_state +
  bst_validated :: bool

record fork_database =
  fdb_index :: "block_state list"
  fdb_root :: "block_state option"
  fdb_head :: "block_state option"

abbreviation prev_id :: "('a block_header_state_scheme) \<Rightarrow> block_id_type" where
  "prev_id s \<equiv> bh_previous (bhs_header s)"

definition first_preferred :: "('a block_header_state_scheme) \<Rightarrow> ('b block_header_state_scheme) \<Rightarrow> bool" where
  "first_preferred lhs rhs \<longleftrightarrow>
     (bhs_dpos_irreversible_blocknum lhs, bhs_block_num lhs) > (bhs_dpos_irreversible_blocknum rhs, bhs_block_num rhs)"

text \<open>The order of the index: valid first, then higher irreversible block, then higher number, then id.\<close>

definition by_lib_less :: "block_state \<Rightarrow> block_state \<Rightarrow> bool" where
  "by_lib_less a b \<longleftrightarrow>
     (if bst_validated a \<noteq> bst_validated b then bst_validated a
      else if bhs_dpos_irreversible_blocknum a \<noteq> bhs_dpos_irreversible_blocknum b
      then bhs_dpos_irreversible_blocknum a > bhs_dpos_irreversible_blocknum b
      else if bhs_block_num a \<noteq> bhs_block_num b then bhs_block_num a > bhs_block_num b
      else sha256_less (bhs_id a) (bhs_id b))"

fun by_lib_begin :: "block_state list \<Rightarrow> block_state option" where
  "by_lib_begin [] = None"
| "by_lib_begin (b # bs) =
     (case by_lib_begin bs of
        None \<Rightarrow> Some b
      | Some c \<Rightarrow> if by_lib_less c b then Some c else Some b)"

section \<open>Operations\<close>

definition get_block :: "fork_database \<Rightarrow> block_id_type \<Rightarrow> block_state option" where
  "get_block db bid = find (\<lambda>b. bhs_id b = bid) (fdb_index db)"

definition get_block_header :: "fork_database \<Rightarrow> block_id_type \<Rightarrow> block_state option result" where
  "get_block_header db bid =
     (case fdb_root db of
        None \<Rightarrow> Inl undefined_behaviour
      | Some root \<Rightarrow> if bhs_id root = bid then Inr (Some root) else Inr (get_block db bid))"

definition fdb_reset :: "block_header_state \<Rightarrow> fork_database" where
  "fdb_reset root_bhs =
     (let root = block_header_state.extend root_bhs \<lparr>bst_validated = True\<rparr>
      in \<lparr>fdb_index = [], fdb_root = Some root, fdb_head = Some root\<rparr>)"

definition rollback_head_to_root :: "fork_database \<Rightarrow> fork_database" where
  "rollback_head_to_root db =
     db\<lparr>fdb_index := map (\<lambda>b. b\<lparr>bst_validated := False\<rparr>) (fdb_index db), fdb_head := fdb_root db\<rparr>"

text \<open>The check of a reloaded block; an exception of the validator is rethrown as \<open>fork_database_exception\<close>.\<close>

definition validate_reloaded :: "feature_validator \<Rightarrow> block_state \<Rightarrow> block_state \<Rightarrow> unit result" where
  "validate_reloaded validator n prev_bh =
     (let r = (if ext_count protocol_feature_activation_id (bhs_header_exts n) > 0
               then ebind (get_feature_activation (bhs_header_exts n)) (\<lambda>new_features.
                      validator (bh_timestamp (bhs_header n)) (bhs_activated_protocol_features prev_bh) new_features)
               else Inr ())
      in case r of Inl e \<Rightarrow> Inl fork_database_exception | Inr u \<Rightarrow> Inr u)"

definition add_impl ::
  "block_state \<Rightarrow> bool \<Rightarrow> bool \<Rightarrow> feature_validator \<Rightarrow> fork_database \<Rightarrow> fork_database result" where
  "add_impl n ignore_duplicate do_validate validator db =
     ebind (sys_assert (fdb_root db \<noteq> None) fork_database_exception) (\<lambda>_.
     ebind (get_block_header db (prev_id n)) (\<lambda>prev_bh.
     (case prev_bh of
        None \<Rightarrow> Inl unlinkable_block_exception
      | Some prev_bh \<Rightarrow>
          ebind (if do_validate then validate_reloaded validator n prev_bh else Inr ()) (\<lambda>_.
          if get_block db (bhs_id n) \<noteq> None
          then (if ignore_duplicate then Inr db else Inl fork_database_exception)
          else let db = db\<lparr>fdb_index := fdb_index db @ [n]\<rparr>
               in case by_lib_begin (fdb_index db) of
                    None \<Rightarrow> Inl undefined_behaviour
                  | Some candidate \<Rightarrow>
                      Inr (if bst_validated candidate then db\<lparr>fdb_head := Some candidate\<rparr> else db)))))"

definition fdb_add :: "block_state \<Rightarrow> bool \<Rightarrow> fork_database \<Rightarrow> fork_database result" where
  "fdb_add n ignore_duplicate db = add_impl n ignore_duplicate False (\<lambda>_ _ _. Inr ()) db"

text \<open>\<^verbatim>\<open>lower_bound(false)\<close> of the ordered index is the first block that is not validated.\<close>

definition pending_head :: "fork_database \<Rightarrow> block_state option result" where
  "pending_head db =
     (case by_lib_begin (filter (\<lambda>b. \<not> bst_validated b) (fdb_index db)) of
        None \<Rightarrow> Inr (fdb_head db)
      | Some b \<Rightarrow>
          (case fdb_head db of
             None \<Rightarrow> Inl undefined_behaviour
           | Some head \<Rightarrow> Inr (if first_preferred b head then Some b else Some head)))"

text \<open>
  The queue of \<^verbatim>\<open>remove_impl\<close>: the first argument list is what has been scanned, the second what
  is still to be scanned.
\<close>

partial_function (option) remove_queue ::
  "block_state list \<Rightarrow> block_id_type \<Rightarrow> block_id_type list \<Rightarrow> block_id_type list
   \<Rightarrow> (block_id_type list result) option" where
  "remove_queue index head_id scanned queue =
     (if queue = [] then Some (Inr scanned)
      else if hd queue = head_id then Some (Inl fork_database_exception)
      else remove_queue index head_id (scanned @ [hd queue])
             (tl queue @ map bhs_id (filter (\<lambda>b. prev_id b = hd queue) index)))"

definition erase_blocks :: "block_id_type list \<Rightarrow> fork_database \<Rightarrow> fork_database" where
  "erase_blocks ids db = db\<lparr>fdb_index := filter (\<lambda>b. bhs_id b \<notin> set ids) (fdb_index db)\<rparr>"

text \<open>\<open>None\<close> is a scan that does not end.\<close>

definition remove_impl :: "block_id_type \<Rightarrow> fork_database \<Rightarrow> (fork_database result) option" where
  "remove_impl bid db =
     (case fdb_head db of
        None \<Rightarrow> Some (Inl undefined_behaviour)
      | Some head \<Rightarrow>
          map_option (\<lambda>r. ebind r (\<lambda>ids. Inr (erase_blocks ids db)))
            (remove_queue (fdb_index db) (bhs_id head) [] [bid]))"

text \<open>The blocks between the new root and the old one.\<close>

partial_function (option) blocks_to_remove ::
  "fork_database \<Rightarrow> block_id_type \<Rightarrow> block_id_type list \<Rightarrow> block_state \<Rightarrow> (block_id_type list result) option" where
  "blocks_to_remove db root_id ids b =
     (let ids = ids @ [prev_id b] in
      case get_block db (prev_id b) of
        None \<Rightarrow> Some (if prev_id b = root_id then Inr ids else Inl fork_database_exception)
      | Some p \<Rightarrow> blocks_to_remove db root_id ids p)"

text \<open>
  The removals are done one after the other, so that an exception leaves the database with the
  removals made so far: the result is the exception, if any, and the database.
\<close>

fun remove_each :: "block_id_type list \<Rightarrow> fork_database \<Rightarrow> (chain_error option \<times> fork_database) option" where
  "remove_each [] db = Some (None, db)"
| "remove_each (i # ids) db =
     (case remove_impl i db of
        None \<Rightarrow> None
      | Some (Inl e) \<Rightarrow> Some (Some e, db)
      | Some (Inr db) \<Rightarrow> remove_each ids db)"

definition advance_root :: "block_id_type \<Rightarrow> fork_database \<Rightarrow> (chain_error option \<times> fork_database) option" where
  "advance_root bid db =
     (case fdb_root db of
        None \<Rightarrow> Some (Some fork_database_exception, db)
      | Some root \<Rightarrow>
          (case get_block db bid of
             None \<Rightarrow> Some (Some fork_database_exception, db)
           | Some new_root \<Rightarrow>
               if \<not> bst_validated new_root then Some (Some fork_database_exception, db)
               else (case blocks_to_remove db (bhs_id root) [] new_root of
                       None \<Rightarrow> None
                     | Some (Inl e) \<Rightarrow> Some (Some e, db)
                     | Some (Inr ids) \<Rightarrow>
                         (case remove_each ids (erase_blocks [bid] db) of
                            None \<Rightarrow> None
                          | Some (Some e, db) \<Rightarrow> Some (Some e, db)
                          | Some (None, db) \<Rightarrow> Some (None, db\<lparr>fdb_root := Some new_root\<rparr>)))))"

definition mark_valid :: "block_state \<Rightarrow> fork_database \<Rightarrow> fork_database result" where
  "mark_valid h db =
     (if bst_validated h then Inr db
      else ebind (sys_assert (get_block db (bhs_id h) \<noteq> None) fork_database_exception) (\<lambda>_.
        let db = db\<lparr>fdb_index :=
              map (\<lambda>b. if bhs_id b = bhs_id h then b\<lparr>bst_validated := True\<rparr> else b) (fdb_index db)\<rparr>
        in case (by_lib_begin (fdb_index db), fdb_head db) of
             (Some candidate, Some head) \<Rightarrow>
               Inr (if first_preferred candidate head then db\<lparr>fdb_head := Some candidate\<rparr> else db)
           | _ \<Rightarrow> Inl undefined_behaviour))"

section \<open>Branches\<close>

partial_function (option) fetch_branch_loop ::
  "fork_database \<Rightarrow> u32 \<Rightarrow> block_state option \<Rightarrow> block_state list \<Rightarrow> (block_state list) option" where
  "fetch_branch_loop db trim_after_block_num s acc =
     (case s of
        None \<Rightarrow> Some acc
      | Some b \<Rightarrow>
          fetch_branch_loop db trim_after_block_num (get_block db (prev_id b))
            (if bhs_block_num b \<le> trim_after_block_num then acc @ [b] else acc))"

definition fetch_branch :: "block_id_type \<Rightarrow> u32 \<Rightarrow> fork_database \<Rightarrow> (block_state list) option" where
  "fetch_branch h trim_after_block_num db =
     fetch_branch_loop db trim_after_block_num (get_block db h) []"

partial_function (option) search_on_branch_loop ::
  "fork_database \<Rightarrow> u32 \<Rightarrow> block_state option \<Rightarrow> (block_state option) option" where
  "search_on_branch_loop db bnum s =
     (case s of
        None \<Rightarrow> Some None
      | Some b \<Rightarrow> if bhs_block_num b = bnum then Some (Some b)
                  else search_on_branch_loop db bnum (get_block db (prev_id b)))"

definition search_on_branch :: "block_id_type \<Rightarrow> u32 \<Rightarrow> fork_database \<Rightarrow> (block_state option) option" where
  "search_on_branch h bnum db = search_on_branch_loop db bnum (get_block db h)"

definition block_or_root :: "fork_database \<Rightarrow> block_state \<Rightarrow> block_id_type \<Rightarrow> block_state option" where
  "block_or_root db root bid = (if bid = bhs_id root then Some root else get_block db bid)"

text \<open>Both leading loops: walk down from a block while its number is above the other's.\<close>

partial_function (option) walk_down ::
  "fork_database \<Rightarrow> block_state \<Rightarrow> u32 \<Rightarrow> block_state \<Rightarrow> block_state list
   \<Rightarrow> ((block_state \<times> block_state list) result) option" where
  "walk_down db root bnum b acc =
     (if bhs_block_num b > bnum
      then (case block_or_root db root (prev_id b) of
              None \<Rightarrow> Some (Inl fork_db_block_not_found)
            | Some p \<Rightarrow> walk_down db root bnum p (acc @ [b]))
      else Some (Inr (b, acc)))"

partial_function (option) walk_both ::
  "fork_database \<Rightarrow> block_state \<Rightarrow> block_state \<Rightarrow> block_state list \<Rightarrow> block_state list
   \<Rightarrow> ((block_state list \<times> block_state list) result) option" where
  "walk_both db first second acc1 acc2 =
     (if prev_id first \<noteq> prev_id second
      then (case get_block db (prev_id first) of
              None \<Rightarrow> Some (Inl fork_db_block_not_found)
            | Some p1 \<Rightarrow>
                (case get_block db (prev_id second) of
                   None \<Rightarrow> Some (Inl fork_db_block_not_found)
                 | Some p2 \<Rightarrow> walk_both db p1 p2 (acc1 @ [first]) (acc2 @ [second])))
      else Some (Inr (acc1 @ [first], acc2 @ [second])))"

definition fetch_branch_from ::
  "block_id_type \<Rightarrow> block_id_type \<Rightarrow> fork_database \<Rightarrow> ((block_state list \<times> block_state list) result) option" where
  "fetch_branch_from first second db =
     (case fdb_root db of
        None \<Rightarrow> Some (Inl undefined_behaviour)
      | Some root \<Rightarrow>
          (case (block_or_root db root first, block_or_root db root second) of
             (Some b1, Some b2) \<Rightarrow>
               Option.bind (walk_down db root (bhs_block_num b2) b1 []) (\<lambda>r1.
                 case r1 of
                   Inl e \<Rightarrow> Some (Inl e)
                 | Inr (b1, acc1) \<Rightarrow>
                     Option.bind (walk_down db root (bhs_block_num b1) b2 []) (\<lambda>r2.
                       case r2 of
                         Inl e \<Rightarrow> Some (Inl e)
                       | Inr (b2, acc2) \<Rightarrow>
                           if bhs_id b1 = bhs_id b2 then Some (Inr (acc1, acc2))
                           else walk_both db b1 b2 acc1 acc2))
           | _ \<Rightarrow> Some (Inl fork_db_block_not_found)))"

section \<open>Saving and reloading\<close>

text \<open>The contents of the file \<^verbatim>\<open>fork_db.dat\<close>, as the records the source writes in order.\<close>

record fork_db_file =
  fdf_totem :: u32
  fdf_version :: u32
  fdf_root :: block_header_state
  fdf_blocks :: "block_state list"
  fdf_head_id :: "block_id_type option"

definition magic_number :: u32 where
  "magic_number = 0x30510FDB"

definition min_supported_version :: u32 where
  "min_supported_version = 1"

definition max_supported_version :: u32 where
  "max_supported_version = 1"

fun by_lib_insert :: "block_state \<Rightarrow> block_state list \<Rightarrow> block_state list" where
  "by_lib_insert b [] = [b]"
| "by_lib_insert b (c # cs) = (if by_lib_less b c then b # c # cs else c # by_lib_insert b cs)"

definition by_lib_index :: "block_state list \<Rightarrow> block_state list" where
  "by_lib_index bs = foldr by_lib_insert bs []"

text \<open>Both iterators run backwards: each list starts with its least preferred block.\<close>

fun close_merge :: "block_state list \<Rightarrow> block_state list \<Rightarrow> block_state list" where
  "close_merge [] us = us"
| "close_merge vs [] = vs"
| "close_merge (v # vs) (u # us) =
     (if first_preferred v u then u # close_merge (v # vs) us else v # close_merge vs (u # us))"

definition close_order :: "block_state list \<Rightarrow> block_state list" where
  "close_order index =
     (let indx = by_lib_index index
      in close_merge (rev (filter bst_validated indx)) (rev (filter (\<lambda>b. \<not> bst_validated b) indx)))"

definition close_impl :: "fork_database \<Rightarrow> fork_db_file option \<times> fork_database" where
  "close_impl db =
     (case fdb_root db of
        None \<Rightarrow> (None, db)
      | Some root \<Rightarrow>
          (Some \<lparr>fdf_totem = magic_number, fdf_version = max_supported_version,
                 fdf_root = block_header_state.truncate root,
                 fdf_blocks = close_order (fdb_index db),
                 fdf_head_id = map_option bhs_id (fdb_head db)\<rparr>,
           db\<lparr>fdb_index := []\<rparr>))"

definition reload_block :: "feature_validator \<Rightarrow> block_state \<Rightarrow> fork_database \<Rightarrow> fork_database result" where
  "reload_block validator b db =
     ebind (validate_and_extract_header_extensions (bhs_header b)) (\<lambda>exts.
       add_impl (b\<lparr>bhs_header_exts := exts\<rparr>) False True validator db)"

definition open_head :: "block_id_type option \<Rightarrow> fork_database \<Rightarrow> fork_database result" where
  "open_head head_id db =
     (case (head_id, fdb_root db) of
        (Some head_id, Some root) \<Rightarrow>
          if bhs_id root = head_id then Inr (db\<lparr>fdb_head := Some root\<rparr>)
          else (case get_block db head_id of
                  None \<Rightarrow> Inl fork_database_exception
                | Some b \<Rightarrow> Inr (db\<lparr>fdb_head := Some b\<rparr>))
      | _ \<Rightarrow> Inl out_of_range)"

definition open_check :: "fork_database \<Rightarrow> unit result" where
  "open_check db =
     (case (fdb_root db, fdb_head db) of
        (Some root, Some head) \<Rightarrow>
          (case by_lib_begin (fdb_index db) of
             Some candidate \<Rightarrow>
               if bst_validated candidate
               then sys_assert (\<not> first_preferred candidate head) fork_database_exception
               else sys_assert (bhs_id head = bhs_id root) fork_database_exception
           | None \<Rightarrow> sys_assert (bhs_id head = bhs_id root) fork_database_exception)
      | _ \<Rightarrow> Inl undefined_behaviour)"

definition open_impl :: "feature_validator \<Rightarrow> fork_db_file option \<Rightarrow> fork_database \<Rightarrow> fork_database result" where
  "open_impl validator file db =
     (case file of
        None \<Rightarrow> Inr db
      | Some f \<Rightarrow>
          ebind (sys_assert (fdf_totem f = magic_number) fork_database_exception) (\<lambda>_.
          ebind (sys_assert (fdf_version f \<ge> min_supported_version \<and> fdf_version f \<le> max_supported_version)
                   fork_database_exception) (\<lambda>_.
          ebind (efold (reload_block validator) (fdf_blocks f) (fdb_reset (fdf_root f))) (\<lambda>db.
          ebind (open_head (fdf_head_id f) db) (\<lambda>db.
          ebind (open_check db) (\<lambda>_. Inr db))))))"

section \<open>The order of the index\<close>

definition by_lib_key :: "block_state \<Rightarrow> bool \<times> int \<times> int \<times> u64 \<times> u64 \<times> u64 \<times> u64" where
  "by_lib_key b =
     (\<not> bst_validated b, - uint (bhs_dpos_irreversible_blocknum b), - uint (bhs_block_num b),
      h0 (bhs_id b), h1 (bhs_id b), h2 (bhs_id b), h3 (bhs_id b))"

lemma by_lib_less_key: "by_lib_less a b \<longleftrightarrow> by_lib_key a < by_lib_key b"
  by (auto simp: by_lib_less_def by_lib_key_def sha256_less_def less_prod_def' word_less_def word_uint_eq_iff)

lemma by_lib_begin_None [simp]: "by_lib_begin bs = None \<longleftrightarrow> bs = []"
  by (cases bs) (auto split: option.splits)

lemma by_lib_begin_least:
  "by_lib_begin bs = Some c \<Longrightarrow> c \<in> set bs \<and> (\<forall>b \<in> set bs. by_lib_key c \<le> by_lib_key b)"
proof (induction bs arbitrary: c)
  case (Cons b bs)
  then show ?case
    by (fastforce simp: by_lib_less_key split: option.splits if_splits)
qed simp

lemma not_preferred_key:
  "by_lib_key c \<le> by_lib_key b \<Longrightarrow> bst_validated c = bst_validated b \<Longrightarrow> \<not> first_preferred b c"
  by (auto simp: by_lib_key_def first_preferred_def less_eq_prod_def less_prod_def word_less_def word_le_def word_uint_eq_iff)

lemma valid_key: "by_lib_key c \<le> by_lib_key b \<Longrightarrow> bst_validated b \<Longrightarrow> bst_validated c"
  by (auto simp: by_lib_key_def less_eq_prod_def)

lemma not_preferred_trans:
  "\<not> first_preferred a b \<Longrightarrow> \<not> first_preferred b c \<Longrightarrow> \<not> first_preferred a c"
  unfolding first_preferred_def not_less by (rule order_trans)

section \<open>The tree\<close>

text \<open>A block state made by the header checks carries its number in its id, one above its parent's.\<close>

definition block_ok :: "('a block_header_state_scheme) \<Rightarrow> bool" where
  "block_ok b \<longleftrightarrow> num_from_id (bhs_id b) = bhs_block_num b
     \<and> unat (bhs_block_num b) = Suc (unat (num_from_id (prev_id b)))"

definition tree_inv :: "block_state \<Rightarrow> block_state list \<Rightarrow> bool" where
  "tree_inv root index \<longleftrightarrow>
     num_from_id (bhs_id root) = bhs_block_num root \<and> distinct (map bhs_id index) \<and>
     (\<forall>b \<in> set index. block_ok b \<and> bhs_block_num root < bhs_block_num b
        \<and> (prev_id b = bhs_id root \<or> (\<exists>p \<in> set index. bhs_id p = prev_id b)))"

text \<open>The parts of a block state the database never changes.\<close>

abbreviation block_core :: "block_state \<Rightarrow> block_header_state" where
  "block_core b \<equiv> block_header_state.truncate b"

definition head_inv :: "block_state \<Rightarrow> block_state \<Rightarrow> block_state list \<Rightarrow> bool" where
  "head_inv root head index \<longleftrightarrow>
     (block_core head = block_core root \<or> (\<exists>b \<in> set index. bst_validated b \<and> block_core b = block_core head)) \<and>
     (\<forall>b \<in> set index. bst_validated b \<longrightarrow> \<not> first_preferred b head)"

definition fdb_inv :: "fork_database \<Rightarrow> bool" where
  "fdb_inv db \<longleftrightarrow>
     (\<exists>root head. fdb_root db = Some root \<and> fdb_head db = Some head \<and> tree_inv root (fdb_index db)
        \<and> head_inv root head (fdb_index db))"

lemma block_core_eqD:
  assumes "block_core a = block_core b"
  shows "bhs_id a = bhs_id b" "bhs_header a = bhs_header b" "bhs_block_num a = bhs_block_num b"
    "bhs_dpos_irreversible_blocknum a = bhs_dpos_irreversible_blocknum b"
  using assms by (auto simp: block_header_state.truncate_def)

lemma block_core_validated [simp]: "block_core (b\<lparr>bst_validated := v\<rparr>) = block_core b"
  by (simp add: block_header_state.truncate_def)

lemma get_block_SomeD: "get_block db i = Some b \<Longrightarrow> b \<in> set (fdb_index db) \<and> bhs_id b = i"
  by (auto simp: get_block_def find_Some_iff)

lemma get_block_None: "get_block db i = None \<longleftrightarrow> i \<notin> bhs_id ` set (fdb_index db)"
  by (auto simp: get_block_def find_None_iff)

lemma get_block_member:
  assumes "distinct (map bhs_id (fdb_index db))" and "b \<in> set (fdb_index db)"
  shows "get_block db (bhs_id b) = Some b"
proof -
  obtain c where c: "get_block db (bhs_id b) = Some c" using assms(2) get_block_None by fastforce
  with assms get_block_SomeD [OF c] show ?thesis by (metis distinct_map inj_onD)
qed

lemma tree_inv_root: "tree_inv root index \<Longrightarrow> bhs_id root \<notin> bhs_id ` set index"
  by (force simp: tree_inv_def block_ok_def)

lemma tree_inv_parent:
  assumes "tree_inv root (fdb_index db)" and "b \<in> set (fdb_index db)" and "prev_id b \<noteq> bhs_id root"
  shows "\<exists>p. get_block db (prev_id b) = Some p \<and> p \<in> set (fdb_index db)
    \<and> unat (bhs_block_num b) = Suc (unat (bhs_block_num p))"
proof -
  from assms obtain p where p: "p \<in> set (fdb_index db)" "bhs_id p = prev_id b" by (auto simp: tree_inv_def)
  then have "get_block db (prev_id b) = Some p"
    using get_block_member [of db p] assms(1) by (simp add: tree_inv_def)
  moreover have "unat (bhs_block_num b) = Suc (unat (bhs_block_num p))"
    using assms(1,2) p unfolding tree_inv_def block_ok_def by metis
  ultimately show ?thesis using p(1) by blast
qed

lemma tree_inv_root_parent:
  "tree_inv root (fdb_index db) \<Longrightarrow> prev_id b = bhs_id root \<Longrightarrow> get_block db (prev_id b) = None"
  using tree_inv_root by (simp add: get_block_None)

lemma tree_inv_validated:
  "tree_inv root (map (\<lambda>b. if P b then b\<lparr>bst_validated := v\<rparr> else b) index) = tree_inv root index"
proof -
  have id: "bhs_id (if P b then b\<lparr>bst_validated := v\<rparr> else b) = bhs_id b"
    "bhs_header (if P b then b\<lparr>bst_validated := v\<rparr> else b) = bhs_header b"
    "bhs_block_num (if P b then b\<lparr>bst_validated := v\<rparr> else b) = bhs_block_num b" for b by simp_all
  show ?thesis
    unfolding tree_inv_def block_ok_def by (simp only: map_map comp_def id set_map ball_simps bex_simps)
qed

section \<open>Adding, validating, rolling back\<close>

lemma tree_inv_add:
  assumes "tree_inv root index" and "block_ok n" and "bhs_id n \<notin> bhs_id ` set index"
    and "prev_id n = bhs_id root \<or> (\<exists>p \<in> set index. bhs_id p = prev_id n)"
  shows "tree_inv root (index @ [n])"
proof -
  have "bhs_block_num root < bhs_block_num n"
  proof (cases "prev_id n = bhs_id root")
    case True
    with assms(1,2) show ?thesis by (simp add: tree_inv_def block_ok_def word_less_nat_alt)
  next
    case False
    with assms(4) obtain p where p: "p \<in> set index" "bhs_id p = prev_id n" by auto
    with assms(1) have "bhs_block_num root < bhs_block_num p" "num_from_id (prev_id n) = bhs_block_num p"
      by (auto simp: tree_inv_def block_ok_def)
    with assms(2) show ?thesis by (simp add: block_ok_def word_less_nat_alt)
  qed
  with assms show ?thesis by (auto simp: tree_inv_def)
qed

lemma best_head_inv:
  assumes "by_lib_begin index = Some c" and "bst_validated c"
  shows "head_inv root c index"
  using by_lib_begin_least [OF assms(1)] assms(2) not_preferred_key by (auto simp: head_inv_def)

lemma no_valid_blocks:
  "by_lib_begin index = Some c \<Longrightarrow> \<not> bst_validated c \<Longrightarrow> b \<in> set index \<Longrightarrow> \<not> bst_validated b"
  using by_lib_begin_least valid_key by blast

lemma add_impl_inv:
  assumes "add_impl n ig v validator db = Inr db'" and "fdb_inv db" and "block_ok n"
  shows "fdb_inv db' \<and> (\<exists>b \<in> set (fdb_index db'). bhs_id b = bhs_id n)"
proof -
  from assms(2) obtain root head where r: "fdb_root db = Some root" "fdb_head db = Some head"
    and t: "tree_inv root (fdb_index db)" and h: "head_inv root head (fdb_index db)" by (auto simp: fdb_inv_def)
  show ?thesis
  proof (cases "get_block db (bhs_id n)")
    case (Some b)
    with assms(1) have "db' = db"
      by (auto simp: add_impl_def ebind_Inr_iff Let_def split: option.splits if_splits)
    with assms(2) get_block_SomeD [OF Some] show ?thesis by auto
  next
    case None
    let ?index = "fdb_index db @ [n]"
    have "prev_id n = bhs_id root \<or> (\<exists>p \<in> set (fdb_index db). bhs_id p = prev_id n)"
      using assms(1) r(1) get_block_None [of db "prev_id n"]
      by (cases "get_block db (prev_id n)")
        (auto simp: add_impl_def get_block_header_def dest: get_block_SomeD split: if_splits)
    then have t': "tree_inv root ?index"
      using tree_inv_add [OF t assms(3)] None get_block_None by blast
    obtain c where c: "by_lib_begin ?index = Some c" using by_lib_begin_None [of ?index] by blast
    have db': "db' = (if bst_validated c then db\<lparr>fdb_index := ?index, fdb_head := Some c\<rparr> else db\<lparr>fdb_index := ?index\<rparr>)"
      using assms(1) None c by (auto simp: add_impl_def ebind_Inr_iff Let_def split: option.splits)
    show ?thesis
    proof (cases "bst_validated c")
      case True
      then show ?thesis using best_head_inv [OF c] r t' db' by (auto simp: fdb_inv_def)
    next
      case False
      then have "head_inv root head ?index"
        using no_valid_blocks [OF c] h by (auto simp: head_inv_def)
      then show ?thesis using False r t' db' by (auto simp: fdb_inv_def)
    qed
  qed
qed

lemma rollback_inv:
  assumes "fdb_inv db"
  shows "fdb_inv (rollback_head_to_root db)"
  using assms tree_inv_validated [of _ "\<lambda>_. True" False]
  by (auto simp: fdb_inv_def rollback_head_to_root_def head_inv_def)

lemma reset_inv:
  assumes "num_from_id (bhs_id s) = bhs_block_num s"
  shows "fdb_inv (fdb_reset s)"
  using assms by (simp add: fdb_inv_def fdb_reset_def tree_inv_def head_inv_def block_header_state.defs Let_def)

lemma mark_valid_inv:
  assumes "mark_valid h db = Inr db'" and "fdb_inv db"
  shows "fdb_inv db'"
proof (cases "bst_validated h")
  case False
  from assms(2) obtain root head where r: "fdb_root db = Some root" "fdb_head db = Some head"
    and t: "tree_inv root (fdb_index db)" and hd: "head_inv root head (fdb_index db)" by (auto simp: fdb_inv_def)
  let ?f = "\<lambda>b. if bhs_id b = bhs_id h then b\<lparr>bst_validated := True\<rparr> else b"
  let ?index = "map ?f (fdb_index db)"
  have t': "tree_inv root ?index" unfolding tree_inv_validated by (rule t)
  from assms(1) False r obtain c where c: "by_lib_begin ?index = Some c"
    and db': "db' = (if first_preferred c head then db\<lparr>fdb_index := ?index, fdb_head := Some c\<rparr> else db\<lparr>fdb_index := ?index\<rparr>)"
    and g: "get_block db (bhs_id h) \<noteq> None"
    by (auto simp: mark_valid_def ebind_Inr_iff Let_def split: option.splits)
  from g obtain b where "b \<in> set (fdb_index db)" "bhs_id b = bhs_id h" by (auto simp: get_block_None)
  then have "?f b \<in> set ?index" "bst_validated (?f b)" by auto
  then have cv: "bst_validated c" using no_valid_blocks [OF c] by blast
  have best: "\<not> first_preferred b c" if "b \<in> set ?index" "bst_validated b" for b
    using by_lib_begin_least [OF c] that cv not_preferred_key by blast
  show ?thesis
  proof (cases "first_preferred c head")
    case True
    then show ?thesis using best_head_inv [OF c cv] r t' db' by (auto simp: fdb_inv_def)
  next
    case False
    have keep: "?f b \<in> set ?index \<and> bst_validated (?f b) \<and> block_core (?f b) = block_core b"
      if "b \<in> set (fdb_index db)" "bst_validated b" for b using that by simp
    have "block_core head = block_core root \<or> (\<exists>b \<in> set ?index. bst_validated b \<and> block_core b = block_core head)"
    proof (cases "block_core head = block_core root")
      case False
      with hd obtain b where "b \<in> set (fdb_index db)" "bst_validated b" "block_core b = block_core head"
        unfolding head_inv_def by blast
      with keep [of b] show ?thesis by (intro disjI2 bexI [of _ "?f b"]) simp_all
    qed simp
    moreover have "\<not> first_preferred b head" if "b \<in> set ?index" "bst_validated b" for b
      using best [OF that] False by (rule not_preferred_trans)
    ultimately have "head_inv root head ?index" unfolding head_inv_def by blast
    then show ?thesis using False r t' db' by (auto simp: fdb_inv_def)
  qed
qed (use assms in \<open>simp add: mark_valid_def\<close>)

end
