(* ===== verification/Dpos.thy ===== *)
theory Dpos
  imports Header_State
begin

text \<open>
  Irreversibility under delegated proof of stake: the last irreversible block is the highest block
  that more than two thirds of the producers imply, the counters and maps of a header state stay within
  their bounds along a chain of headers, and the tree of block ids each header state carries is that of
  the chain.
\<close>

section \<open>The one-third rule\<close>

text \<open>What each producer implies to be irreversible, once the next block counts for its producer.\<close>

definition implied_votes :: "('a block_header_state_common_scheme) \<Rightarrow> account_name \<Rightarrow> u32 list" where
  "implied_votes s producer =
     map (\<lambda>(p, n). if p = producer then bhs_dpos_proposed_irreversible_blocknum s else n)
       (bhs_producer_to_last_implied_irb s)"

lemma length_filter_sort: "length (filter P (sort xs)) = length (filter P (xs :: 'k::linorder list))"
  by (metis mset_filter mset_sort size_mset)

lemma sorted_nth_count:
  fixes xs :: "'k::linorder list"
  assumes "sorted xs" and "k < length xs"
  shows "v \<le> xs ! k \<longleftrightarrow> length xs - k \<le> length (filter (\<lambda>x. v \<le> x) xs)"
proof
  assume v: "v \<le> xs ! k"
  have "v \<le> x" if "x \<in> set (drop k xs)" for x
  proof -
    from that obtain i where "i < length xs - k" "x = xs ! (k + i)" by (auto simp: in_set_conv_nth)
    with assms(1) sorted_nth_mono [of xs k "k + i"] v show ?thesis
      by (metis add.commute le_add1 less_diff_conv order_trans)
  qed
  then have "filter (\<lambda>x. v \<le> x) (drop k xs) = drop k xs" by (simp add: filter_id_conv)
  then have "length xs - k = length (filter (\<lambda>x. v \<le> x) (drop k xs))" by simp
  also have "\<dots> \<le> length (filter (\<lambda>x. v \<le> x) (take k xs @ drop k xs))"
    unfolding filter_append length_append by (rule le_add2)
  finally show "length xs - k \<le> length (filter (\<lambda>x. v \<le> x) xs)" by simp
next
  assume c: "length xs - k \<le> length (filter (\<lambda>x. v \<le> x) xs)"
  show "v \<le> xs ! k"
  proof (rule ccontr)
    assume v: "\<not> v \<le> xs ! k"
    have "\<not> v \<le> x" if "x \<in> set (take (Suc k) xs)" for x
    proof -
      from that obtain i where "i < Suc k" "i < length xs" "x = xs ! i" by (auto simp: in_set_conv_nth)
      with assms sorted_nth_mono [of xs i k] v show ?thesis by (metis less_Suc_eq_le order_trans)
    qed
    then have "filter (\<lambda>x. v \<le> x) (take (Suc k) xs) = []" by (simp add: filter_empty_conv)
    then have "filter (\<lambda>x. v \<le> x) xs = filter (\<lambda>x. v \<le> x) (drop (Suc k) xs)"
      by (metis append_Nil append_take_drop_id filter_append)
    then have "length (filter (\<lambda>x. v \<le> x) xs) \<le> length (drop (Suc k) xs)"
      by (metis length_filter_le)
    with c assms(2) show False by simp
  qed
qed

lemma third_index: "xs \<noteq> [] \<Longrightarrow> (length xs - 1) div 3 < length xs"
  using length_greater_0_conv [of xs] by linarith

lemma implied_votes_Nil [simp]: "implied_votes s producer = [] \<longleftrightarrow> bhs_producer_to_last_implied_irb s = []"
  by (simp add: implied_votes_def)

lemma calc_dpos_eq:
  "bhs_producer_to_last_implied_irb s \<noteq> [] \<Longrightarrow>
   calc_dpos_last_irreversible s producer =
     sort (implied_votes s producer) ! ((length (implied_votes s producer) - 1) div 3)"
  by (simp add: calc_dpos_last_irreversible_def implied_votes_def Let_def)

lemma calc_dpos_exact:
  assumes "bhs_producer_to_last_implied_irb s \<noteq> []"
  shows "v \<le> calc_dpos_last_irreversible s producer \<longleftrightarrow>
    2 * length (implied_votes s producer) < 3 * length (filter (\<lambda>n. v \<le> n) (implied_votes s producer))"
proof -
  let ?votes = "implied_votes s producer"
  have "?votes \<noteq> []" using assms by simp
  then have idx: "(length ?votes - 1) div 3 < length ?votes" and n: "length ?votes > 0"
    using third_index [of ?votes] by simp_all
  have "v \<le> sort ?votes ! ((length ?votes - 1) div 3) \<longleftrightarrow>
      length ?votes - (length ?votes - 1) div 3 \<le> length (filter (\<lambda>n. v \<le> n) ?votes)"
    using sorted_nth_count [of "sort ?votes" "(length ?votes - 1) div 3" v] idx
    by (simp add: length_filter_sort)
  moreover have "n - (n - 1) div 3 \<le> m \<longleftrightarrow> 2 * n < 3 * m" if "n > 0" for n m :: nat
    using that by linarith
  ultimately show ?thesis using n assms by (simp add: calc_dpos_eq)
qed

section \<open>The invariant of header states\<close>

definition hs_inv :: "('a block_header_state_common_scheme) \<Rightarrow> bool" where
  "hs_inv s \<longleftrightarrow>
     fm_wf (bhs_producer_to_last_produced s) \<and> fm_wf (bhs_producer_to_last_implied_irb s) \<and>
     bhs_dpos_irreversible_blocknum s \<le> bhs_dpos_proposed_irreversible_blocknum s \<and>
     unat (bhs_dpos_proposed_irreversible_blocknum s) + length (bhs_confirm_count s) \<le> unat (bhs_block_num s) \<and>
     length (bhs_confirm_count s) \<le> maximum_tracked_dpos_confirmations \<and>
     (\<forall>p n. fm_find p (bhs_producer_to_last_implied_irb s) = Some n \<longrightarrow>
        n \<le> bhs_dpos_proposed_irreversible_blocknum s) \<and>
     (\<forall>p n. fm_find p (bhs_producer_to_last_produced s) = Some n \<longrightarrow> n \<le> bhs_block_num s)"

lemma length_grow_confirm_count:
  "length cc \<le> maximum_tracked_dpos_confirmations \<Longrightarrow>
   0 < length (grow_confirm_count cc r) \<and> length (grow_confirm_count cc r) \<le> Suc (length cc)
   \<and> length (grow_confirm_count cc r) \<le> maximum_tracked_dpos_confirmations"
  by (auto simp: grow_confirm_count_def maximum_tracked_dpos_confirmations_def)

lemma confirm_loop_cases:
  assumes "confirm_loop bnum i b (proposed, cc) = (proposed', cc')" and "i \<le> length cc"
  shows "proposed' = proposed \<and> length cc' = length cc \<or>
    (\<exists>j < length cc. proposed' = bnum - of_nat (length cc - 1 - j) \<and> length cc' = length cc - 1 - j)"
  using assms
proof (induction i arbitrary: b cc)
  case (Suc i)
  let ?cc = "cc[i := cc ! i - 1]"
  show ?case
  proof (cases "b \<noteq> 0 \<and> ?cc ! i \<noteq> 0")
    case True
    with Suc.prems have "confirm_loop bnum i (b - 1) (proposed, ?cc) = (proposed', cc')"
      by (simp add: Let_def split: if_splits)
    from Suc.IH [OF this] Suc.prems show ?thesis by simp
  next
    case False
    with Suc.prems show ?thesis
      by (auto simp: Let_def split: if_splits intro: exI [of _ i])
  qed
qed simp

text \<open>One round of confirmations: the proposed irreversible block only grows, and what is left of the
  counters are the blocks above it.\<close>

lemma confirm_loop_bounds:
  assumes "confirm_loop bnum (length cc) b (proposed, cc) = (proposed', cc')"
    and "unat proposed + length cc \<le> unat bnum"
  shows "unat proposed' + length cc' \<le> unat bnum" and "proposed \<le> proposed'" and "length cc' \<le> length cc"
proof -
  have *: "unat proposed' + length cc' \<le> unat bnum \<and> unat proposed \<le> unat proposed' \<and> length cc' \<le> length cc"
  proof (cases "proposed' = proposed \<and> length cc' = length cc")
    case True
    with assms(2) show ?thesis by simp
  next
    case False
    with confirm_loop_cases [OF assms(1)] obtain j where j: "j < length cc"
      "proposed' = bnum - of_nat (length cc - 1 - j)" "length cc' = length cc - 1 - j" by auto
    let ?d = "length cc - 1 - j"
    have "?d \<le> unat bnum" using assms(2) by linarith
    moreover have "unat (of_nat ?d :: u32) = ?d"
      using assms(2) unat_u32_less [of bnum] by (simp add: unsigned_of_nat take_bit_nat_eq_self)
    ultimately have "unat proposed' = unat bnum - ?d"
      using j(2) by (simp add: unat_sub word_le_nat_alt)
    then show ?thesis using j assms(2) by linarith
  qed
  then show "unat proposed' + length cc' \<le> unat bnum" "proposed \<le> proposed'" "length cc' \<le> length cc"
    by (simp_all add: word_le_nat_alt)
qed

lemma calc_dpos_le:
  assumes "hs_inv s"
  shows "calc_dpos_last_irreversible s producer \<le> bhs_dpos_proposed_irreversible_blocknum s"
proof (cases "bhs_producer_to_last_implied_irb s = []")
  case True
  then show ?thesis by (simp add: calc_dpos_last_irreversible_def)
next
  case False
  let ?votes = "implied_votes s producer"
  have "\<forall>n \<in> set ?votes. n \<le> bhs_dpos_proposed_irreversible_blocknum s"
    using assms by (auto simp: hs_inv_def implied_votes_def fm_find_eq_Some_iff)
  moreover have "sort ?votes ! ((length ?votes - 1) div 3) \<in> set ?votes"
    using False third_index [of ?votes] by (metis implied_votes_Nil length_sort nth_mem set_sort)
  ultimately show ?thesis using False by (simp add: calc_dpos_eq)
qed

lemma promoted_implied_find:
  "fm_find k (promoted_implied_irb producer proposed irreversible implied producers) =
    (if k \<in> pa_producer_name ` set producers
     then Some (if k = producer then proposed else case fm_find k implied of Some n \<Rightarrow> n | None \<Rightarrow> irreversible)
     else None)"
  unfolding promoted_implied_irb_def by (subst flat_map.find_fold_assign) simp_all

lemma promoted_implied_wf: "fm_wf (promoted_implied_irb producer proposed irreversible implied producers)"
  unfolding promoted_implied_irb_def by (rule flat_map.wf_fold_assign) simp

lemma promoted_last_produced_wf:
  "fm_wf (promoted_last_produced producer bnum irreversible last_produced producers)"
  unfolding promoted_last_produced_def by (intro fm_wf_assign flat_map.wf_fold_assign) simp

lemma promoted_last_produced_find:
  "fm_find k (promoted_last_produced producer bnum irreversible last_produced producers) =
    (if k = producer then Some bnum
     else if k \<in> pa_producer_name ` set producers
     then Some (case fm_find k last_produced of Some n \<Rightarrow> n | None \<Rightarrow> irreversible)
     else None)"
  unfolding promoted_last_produced_def
  by (subst fm_find_assign, rule flat_map.wf_fold_assign, simp, subst flat_map.find_fold_assign) simp_all

section \<open>One step keeps the invariant\<close>

text \<open>The fields of the state \<^const>\<open>bhs_next_pending\<close> returns.\<close>

lemma next_pending_cases:
  assumes "bhs_next_pending sha w n s = Inr p"
  shows "\<exists>t proauth d bm. get_scheduled_producer s t = Inr proauth
    \<and> imk_append (hash_pair sha) (bhs_id s) (bhs_blockroot_merkle s) = Inr (d, bm)
    \<and> p = next_pending_state s t n proauth bm"
  using assms by (auto simp: bhs_next_pending_def ebind_Inr_iff)

lemma next_pending_fields:
  assumes "bhs_next_pending sha w n s = Inr p"
  shows "\<exists>proauth. get_scheduled_producer s (pbs_timestamp p) = Inr proauth
      \<and> pbs_producer p = pa_producer_name proauth
      \<and> bhs_valid_block_signing_authority p = pa_authority proauth"
    and "bhs_block_num p = bhs_block_num s + 1"
    and "\<exists>d. imk_append (hash_pair sha) (bhs_id s) (bhs_blockroot_merkle s) = Inr (d, bhs_blockroot_merkle p)"
    and "confirm_loop (bhs_block_num s + 1)
           (length (grow_confirm_count (bhs_confirm_count s)
              (of_nat (length (pas_producers (bhs_active_schedule s)) * 2 div 3) + 1)))
           (unat n + 1)
           (bhs_dpos_proposed_irreversible_blocknum s,
            grow_confirm_count (bhs_confirm_count s)
              (of_nat (length (pas_producers (bhs_active_schedule s)) * 2 div 3) + 1))
         = (bhs_dpos_proposed_irreversible_blocknum p, bhs_confirm_count p)"
    and "bhs_dpos_irreversible_blocknum p = calc_dpos_last_irreversible s (pbs_producer p)"
    and "pbs_was_pending_promoted p \<longleftrightarrow>
           pas_producers (si_schedule (bhs_pending_schedule s)) \<noteq> []
           \<and> bhs_dpos_irreversible_blocknum p \<ge> si_schedule_lib_num (bhs_pending_schedule s)"
    and "bhs_active_schedule p =
           (if pbs_was_pending_promoted p then si_schedule (bhs_pending_schedule s) else bhs_active_schedule s)"
    and "bhs_producer_to_last_produced p =
           (if pbs_was_pending_promoted p
            then promoted_last_produced (pbs_producer p) (bhs_block_num p) (bhs_dpos_irreversible_blocknum p)
                   (bhs_producer_to_last_produced s) (pas_producers (si_schedule (bhs_pending_schedule s)))
            else fm_assign (pbs_producer p) (bhs_block_num p) (bhs_producer_to_last_produced s))"
    and "bhs_producer_to_last_implied_irb p =
           (if pbs_was_pending_promoted p
            then promoted_implied_irb (pbs_producer p) (bhs_dpos_proposed_irreversible_blocknum s)
                   (bhs_dpos_irreversible_blocknum p) (bhs_producer_to_last_implied_irb s)
                   (pas_producers (si_schedule (bhs_pending_schedule s)))
            else fm_assign (pbs_producer p) (bhs_dpos_proposed_irreversible_blocknum s)
                   (bhs_producer_to_last_implied_irb s))"
    and "pbs_prev_activated_protocol_features p = bhs_activated_protocol_features s"
    and "pbs_prev_pending_schedule p = bhs_pending_schedule s"
    and "pbs_previous p = bhs_id s" and "pbs_confirmed p = n"
    and "pbs_active_schedule_version p = pas_version (bhs_active_schedule s)"
  using next_pending_cases [OF assms]
  by (-, (elim exE conjE, simp add: next_pending_state_def Let_def case_prod_unfold)+)

lemma unat_plus_1: "w \<noteq> - 1 \<Longrightarrow> unat (w + 1) = Suc (unat (w :: 'a::len word))"
  using unatSuc [of w] by (simp add: add.commute eq_neg_iff_add_eq_0)

text \<open>
  Blocks are numbered by 32 bits; a step is within them when the number of the next block does not wrap.
\<close>

lemma next_pending_inv:
  assumes "bhs_next_pending sha w n s = Inr p" and "hs_inv s" and "bhs_block_num s \<noteq> - 1"
  shows "hs_inv p" and "bhs_dpos_proposed_irreversible_blocknum s \<le> bhs_dpos_proposed_irreversible_blocknum p"
proof -
  note f = next_pending_fields [OF assms(1)]
  let ?cc = "grow_confirm_count (bhs_confirm_count s)
    (of_nat (length (pas_producers (bhs_active_schedule s)) * 2 div 3) + 1)"
  have bn: "unat (bhs_block_num s + 1) = Suc (unat (bhs_block_num s))"
    using assms(3) by (rule unat_plus_1)
  have cc: "length ?cc \<le> Suc (length (bhs_confirm_count s))" "length ?cc \<le> maximum_tracked_dpos_confirmations"
    using length_grow_confirm_count [of "bhs_confirm_count s"] assms(2) by (auto simp: hs_inv_def)
  have pre: "unat (bhs_dpos_proposed_irreversible_blocknum s) + length ?cc \<le> unat (bhs_block_num s + 1)"
    using assms(2) bn cc(1) by (auto simp: hs_inv_def)
  note c = confirm_loop_bounds [OF f(4) pre]
  show mono: "bhs_dpos_proposed_irreversible_blocknum s \<le> bhs_dpos_proposed_irreversible_blocknum p"
    by (rule c(2))
  have irr: "bhs_dpos_irreversible_blocknum p \<le> bhs_dpos_proposed_irreversible_blocknum s"
    unfolding f(5) using assms(2) by (rule calc_dpos_le)
  have le: "bhs_dpos_proposed_irreversible_blocknum s \<le> bhs_block_num p" "bhs_block_num s \<le> bhs_block_num p"
    using pre bn f(2) by (simp_all add: word_le_nat_alt)
  have wf: "fm_wf (bhs_producer_to_last_produced s)" "fm_wf (bhs_producer_to_last_implied_irb s)"
    and imp: "\<And>p' n. fm_find p' (bhs_producer_to_last_implied_irb s) = Some n \<Longrightarrow>
      n \<le> bhs_dpos_proposed_irreversible_blocknum s"
    and lp: "\<And>p' n. fm_find p' (bhs_producer_to_last_produced s) = Some n \<Longrightarrow> n \<le> bhs_block_num s"
    using assms(2) by (auto simp: hs_inv_def)
  have up: "m \<le> bhs_dpos_proposed_irreversible_blocknum p"
    if "m \<le> bhs_dpos_proposed_irreversible_blocknum s" for m
    using that mono by (rule order_trans)
  have up': "m \<le> bhs_block_num p" if "m \<le> bhs_dpos_proposed_irreversible_blocknum s \<or> m \<le> bhs_block_num s" for m
    using that le by (blast intro: order_trans)
  have "fm_find q (bhs_producer_to_last_implied_irb p) = Some m \<Longrightarrow>
      m \<le> bhs_dpos_proposed_irreversible_blocknum p" for q m
    using imp [of q] irr wf(2) unfolding f(9)
    by (auto simp: promoted_implied_find fm_find_assign split: if_splits option.splits intro!: up)
  moreover have "fm_find q (bhs_producer_to_last_produced p) = Some m \<Longrightarrow> m \<le> bhs_block_num p" for q m
    using lp [of q] irr wf(1) unfolding f(8)
    by (auto simp: promoted_last_produced_find fm_find_assign split: if_splits option.splits intro!: up')
  moreover have "fm_wf (bhs_producer_to_last_implied_irb p)" "fm_wf (bhs_producer_to_last_produced p)"
    unfolding f(8,9) using wf by (simp_all add: promoted_implied_wf promoted_last_produced_wf)
  ultimately show "hs_inv p"
    using c(1,3) up [OF irr] cc(2) f(2) by (simp add: hs_inv_def)
qed

lemma new_schedule_checked:
  assumes "check_legacy_schedule sha w h p = Inr maybe" and "check_schedule_change sha w exts p maybe = Inr maybe'"
    and "maybe' = Some (sched, d)"
  shows "\<not> pbs_was_pending_promoted p \<and> pas_version sched = pas_version (bhs_active_schedule p) + 1
    \<and> pas_producers (si_schedule (pbs_prev_pending_schedule p)) = []"
  using assms
  by (auto simp: check_legacy_schedule_def check_schedule_change_def new_schedule_allowed_def ebind_Inr_iff
      upconvert_schedule_def split: if_splits option.splits)

lemma finish_next_unsigned_cases:
  assumes "finish_next_unsigned sha h pfs validator p = Inr s"
  shows "\<exists>w maybe maybe' exts activated bid.
      bh_previous h = pbs_previous p \<and> check_legacy_schedule sha w h p = Inr maybe
      \<and> check_schedule_change sha w exts p maybe = Inr maybe'
      \<and> calculate_id sha h = Inr bid \<and> s = finished_state p h bid exts maybe' activated"
  using assms unfolding finish_next_unsigned_def Let_def
  by (simp only: ebind_Inr_iff sys_assert_simps sum.inject) blast

text \<open>The common part of a header state is that of the pending state it was made from.\<close>

definition same_common ::
  "('a block_header_state_common_scheme) \<Rightarrow> ('b block_header_state_common_scheme) \<Rightarrow> bool" where
  "same_common s p \<longleftrightarrow> block_header_state_common.truncate s = block_header_state_common.truncate p"

lemma same_common_iff:
  "same_common s p \<longleftrightarrow>
     bhs_block_num s = bhs_block_num p
     \<and> bhs_dpos_proposed_irreversible_blocknum s = bhs_dpos_proposed_irreversible_blocknum p
     \<and> bhs_dpos_irreversible_blocknum s = bhs_dpos_irreversible_blocknum p
     \<and> bhs_active_schedule s = bhs_active_schedule p
     \<and> bhs_blockroot_merkle s = bhs_blockroot_merkle p
     \<and> bhs_producer_to_last_produced s = bhs_producer_to_last_produced p
     \<and> bhs_producer_to_last_implied_irb s = bhs_producer_to_last_implied_irb p
     \<and> bhs_valid_block_signing_authority s = bhs_valid_block_signing_authority p
     \<and> bhs_confirm_count s = bhs_confirm_count p"
  by (auto simp: same_common_def block_header_state_common.truncate_def)

lemma same_common_inv: "same_common s p \<Longrightarrow> hs_inv p \<Longrightarrow> hs_inv s"
  by (simp add: same_common_iff hs_inv_def)

lemma finish_next_cases:
  assumes "finish_next sha recover h sigs pfs validator skip p = Inr s'"
  shows "\<exists>s. finish_next_unsigned sha h pfs validator p = Inr s
    \<and> s' = (if sigs \<noteq> [] then s\<lparr>bhs_additional_signatures := sigs\<rparr> else s)"
  using assms unfolding finish_next_def Let_def by (simp only: ebind_Inr_iff sum.inject) blast

lemma bhs_next_cases:
  assumes "bhs_next sha recover h sigs pfs validator skip s = Inr s'"
  shows "\<exists>p maybe. bhs_next_pending sha (bh_timestamp h) (bh_confirmed h) s = Inr p
      \<and> same_common s' p \<and> bhs_header s' = h \<and> calculate_id sha h = Inr (bhs_id s')
      \<and> bh_previous h = bhs_id s \<and> bhs_pending_schedule s' = next_pending_schedule p maybe
      \<and> (\<forall>sched d. maybe = Some (sched, d) \<longrightarrow> \<not> pbs_was_pending_promoted p
            \<and> pas_version sched = pas_version (bhs_active_schedule p) + 1)"
proof -
  from assms obtain p where p: "bhs_next_pending sha (bh_timestamp h) (bh_confirmed h) s = Inr p"
    and fin: "finish_next sha recover h sigs pfs validator skip p = Inr s'"
    by (auto simp: bhs_next_def ebind_Inr_iff)
  from finish_next_cases [OF fin] obtain s1 where f: "finish_next_unsigned sha h pfs validator p = Inr s1"
    and s': "s' = (if sigs \<noteq> [] then s1\<lparr>bhs_additional_signatures := sigs\<rparr> else s1)" by blast
  from finish_next_unsigned_cases [OF f] obtain w maybe maybe' exts activated bid where
    prev: "bh_previous h = pbs_previous p" and c: "check_legacy_schedule sha w h p = Inr maybe"
      "check_schedule_change sha w exts p maybe = Inr maybe'" and i: "calculate_id sha h = Inr bid"
    and s1: "s1 = finished_state p h bid exts maybe' activated"
    by blast
  have "same_common s' p" "bhs_header s' = h" "bhs_id s' = bid"
    "bhs_pending_schedule s' = next_pending_schedule p maybe'"
    by (simp_all add: s' s1 same_common_iff finished_state_def)
  moreover have "bh_previous h = bhs_id s" using prev next_pending_fields(12) [OF p] by simp
  ultimately show ?thesis
    using p i new_schedule_checked [OF c] by blast
qed

section \<open>Chains of headers\<close>

text \<open>
  Before the first block the map of implied blocks is empty and the initial schedule is pending, so the
  first block promotes it; afterwards the map has exactly the active producers.
\<close>

definition schedules_ok :: "producer_authority_schedule \<Rightarrow> producer_authority_schedule \<Rightarrow> bool" where
  "schedules_ok active pending \<longleftrightarrow>
     (pas_version pending = pas_version active \<or> pas_version pending = pas_version active + 1) \<and>
     (pas_producers pending \<noteq> [] \<longrightarrow> pas_version pending = pas_version active + 1 \<or> pending = active)"

definition header_state_inv :: "block_header_state \<Rightarrow> bool" where
  "header_state_inv s \<longleftrightarrow>
     hs_inv s \<and> num_from_id (bhs_id s) = bhs_block_num s \<and>
     (let active = bhs_active_schedule s; pending = si_schedule (bhs_pending_schedule s) in
      (fst ` set (bhs_producer_to_last_implied_irb s) = pa_producer_name ` set (pas_producers active) \<or>
       bhs_producer_to_last_implied_irb s = [] \<and> pas_producers pending \<noteq> []
         \<and> si_schedule_lib_num (bhs_pending_schedule s) = 0) \<and>
      schedules_ok active pending)"

definition lib_backed :: "('a block_header_state_common_scheme) \<Rightarrow> bool" where
  "lib_backed s \<longleftrightarrow>
     bhs_dpos_irreversible_blocknum s = 0 \<or>
     2 * length (bhs_producer_to_last_implied_irb s)
       < 3 * length (filter (\<lambda>e. bhs_dpos_irreversible_blocknum s \<le> snd e) (bhs_producer_to_last_implied_irb s))"

lemma scheduled_producer_active:
  "get_scheduled_producer s t = Inr pro \<Longrightarrow> pro \<in> set (pas_producers (bhs_active_schedule s))"
  by (auto simp: get_scheduled_producer_def Let_def producer_repetitions_def less_mult_imp_div_less
      split: if_splits intro!: nth_mem)

lemma length_filter_mono:
  "(\<And>x. x \<in> set xs \<Longrightarrow> P x \<Longrightarrow> Q x) \<Longrightarrow> length (filter P xs) \<le> length (filter Q xs)"
  by (induction xs) (auto simp: le_SucI)

lemma fst_set_find: "fst ` set m = {k. fm_find k m \<noteq> None}"
  by (auto simp: fm_find_None_iff)

lemma next_pending_implied_dom:
  assumes "bhs_next_pending sha w n s = Inr p" and "header_state_inv s"
  shows "fst ` set (bhs_producer_to_last_implied_irb p) = pa_producer_name ` set (pas_producers (bhs_active_schedule p))"
proof (cases "pbs_was_pending_promoted p")
  case True
  then show ?thesis
    using next_pending_fields(7,9) [OF assms(1)] by (auto simp: fst_set_find promoted_implied_find)
next
  case False
  note f = next_pending_fields [OF assms(1)]
  obtain pro where "get_scheduled_producer s (pbs_timestamp p) = Inr pro" "pbs_producer p = pa_producer_name pro"
    using f(1) by blast
  then have "pbs_producer p \<in> pa_producer_name ` set (pas_producers (bhs_active_schedule s))"
    using scheduled_producer_active by fastforce
  moreover have "fst ` set (bhs_producer_to_last_implied_irb s)
      = pa_producer_name ` set (pas_producers (bhs_active_schedule s))"
    using False f(6) assms(2) by (auto simp: header_state_inv_def Let_def)
  ultimately show ?thesis using False f(7,9) by (simp add: insert_absorb)
qed

lemma map_snd_assign:
  "fm_wf m \<Longrightarrow> k \<in> fst ` set m \<Longrightarrow> map snd (fm_assign k v m) = map (\<lambda>(q, n). if q = k then v else n) m"
proof (induction m)
  case (Cons e m)
  have "map snd m = map (\<lambda>(q, n). if q = k then v else n) m" if "k \<notin> fst ` set m"
    using that by (auto simp: image_iff)
  with Cons show ?case by (cases e) auto
qed simp

text \<open>
  The last irreversible block of a step is at least one that was backed before it, and is itself
  backed when the step promotes no schedule.
\<close>

lemma next_pending_lib:
  assumes "bhs_next_pending sha w n s = Inr p" and "header_state_inv s"
  shows "lib_backed s \<Longrightarrow> bhs_dpos_irreversible_blocknum s \<le> bhs_dpos_irreversible_blocknum p"
    and "\<not> pbs_was_pending_promoted p \<Longrightarrow> lib_backed p"
proof -
  note f = next_pending_fields [OF assms(1)]
  let ?m = "bhs_producer_to_last_implied_irb s"
  have inv: "hs_inv s" using assms(2) by (simp add: header_state_inv_def)
  show "bhs_dpos_irreversible_blocknum s \<le> bhs_dpos_irreversible_blocknum p" if "lib_backed s"
  proof (cases "bhs_dpos_irreversible_blocknum s = 0")
    case False
    let ?v = "bhs_dpos_irreversible_blocknum s"
    have "length (filter (\<lambda>e. ?v \<le> snd e) ?m) \<le> length (filter (\<lambda>n. ?v \<le> n) (implied_votes s (pbs_producer p)))"
      using inv unfolding implied_votes_def filter_map length_map
      by (intro length_filter_mono) (auto simp: hs_inv_def)
    moreover have "?m \<noteq> []" using False that by (auto simp: lib_backed_def)
    ultimately show ?thesis
      using False that unfolding f(5) by (simp add: calc_dpos_exact lib_backed_def implied_votes_def)
  qed simp
  show "lib_backed p" if np: "\<not> pbs_was_pending_promoted p"
  proof (cases "?m = []")
    case True
    then show ?thesis using f(5) by (simp add: lib_backed_def calc_dpos_last_irreversible_def)
  next
    case False
    have "pbs_producer p \<in> fst ` set (bhs_producer_to_last_implied_irb p)"
      using np f(9) by simp
    then have "pbs_producer p \<in> fst ` set ?m"
      using next_pending_implied_dom [OF assms] np f(7) False assms(2)
      by (auto simp: header_state_inv_def Let_def)
    then have votes: "implied_votes s (pbs_producer p) = map snd (bhs_producer_to_last_implied_irb p)"
      using np f(9) inv by (simp add: hs_inv_def map_snd_assign implied_votes_def)
    show ?thesis
      using calc_dpos_exact [OF False, of "bhs_dpos_irreversible_blocknum p" "pbs_producer p"] f(5)
      by (simp add: lib_backed_def votes filter_map comp_def)
  qed
qed

lemma next_schedules_ok:
  assumes "bhs_next_pending sha w n s = Inr p"
    and "schedules_ok (bhs_active_schedule s) (si_schedule (bhs_pending_schedule s))"
    and "\<forall>sched d. maybe = Some (sched, d) \<longrightarrow> \<not> pbs_was_pending_promoted p
        \<and> pas_version sched = pas_version (bhs_active_schedule p) + 1"
  shows "schedules_ok (bhs_active_schedule p) (si_schedule (next_pending_schedule p maybe))"
proof (cases maybe)
  case None
  then show ?thesis
    using assms(2) next_pending_fields(7,11) [OF assms(1)]
    by (cases "pbs_was_pending_promoted p") (simp_all add: next_pending_schedule_def schedules_ok_def)
next
  case (Some x)
  then show ?thesis
    using assms(3) by (cases x) (simp add: next_pending_schedule_def schedules_ok_def)
qed

lemma bhs_next_inv:
  assumes "bhs_next sha recover h sigs pfs validator skip s = Inr s'"
    and "header_state_inv s" and "bhs_block_num s \<noteq> - 1"
  shows "header_state_inv s'"
    and "bhs_dpos_proposed_irreversible_blocknum s \<le> bhs_dpos_proposed_irreversible_blocknum s'"
    and "lib_backed s \<Longrightarrow> bhs_dpos_irreversible_blocknum s \<le> bhs_dpos_irreversible_blocknum s'"
    and "pas_producers (si_schedule (bhs_pending_schedule s)) = []
           \<or> bhs_dpos_irreversible_blocknum s' < si_schedule_lib_num (bhs_pending_schedule s) \<Longrightarrow> lib_backed s'"
proof -
  from bhs_next_cases [OF assms(1)] obtain p maybe where
    p: "bhs_next_pending sha (bh_timestamp h) (bh_confirmed h) s = Inr p" and sc: "same_common s' p"
    and i: "calculate_id sha h = Inr (bhs_id s')" and prev: "bh_previous h = bhs_id s"
    and pend: "bhs_pending_schedule s' = next_pending_schedule p maybe"
    and new: "\<forall>sched d. maybe = Some (sched, d) \<longrightarrow> \<not> pbs_was_pending_promoted p
        \<and> pas_version sched = pas_version (bhs_active_schedule p) + 1" by blast
  note f = next_pending_fields [OF p] and sc' = sc [unfolded same_common_iff]
  have inv: "hs_inv s" using assms(2) by (simp add: header_state_inv_def)
  note n = next_pending_inv [OF p inv assms(3)] and l = next_pending_lib [OF p assms(2)]
  have num: "num_from_id (bhs_id s') = bhs_block_num s'"
    using num_from_calculated_id [OF i] prev assms(2) sc' f(2) by (simp add: block_num_def header_state_inv_def)
  have "schedules_ok (bhs_active_schedule s') (si_schedule (bhs_pending_schedule s'))"
    using next_schedules_ok [OF p _ new] assms(2) sc' pend by (simp add: header_state_inv_def Let_def)
  moreover have "fst ` set (bhs_producer_to_last_implied_irb s')
      = pa_producer_name ` set (pas_producers (bhs_active_schedule s'))"
    using next_pending_implied_dom [OF p assms(2)] sc' by simp
  ultimately show "header_state_inv s'"
    using num same_common_inv [OF sc n(1)] by (simp add: header_state_inv_def Let_def)
  show "bhs_dpos_proposed_irreversible_blocknum s \<le> bhs_dpos_proposed_irreversible_blocknum s'"
    using n(2) sc' by simp
  show "bhs_dpos_irreversible_blocknum s \<le> bhs_dpos_irreversible_blocknum s'" if "lib_backed s"
    using l(1) [OF that] sc' by simp
  show "lib_backed s'" if "pas_producers (si_schedule (bhs_pending_schedule s)) = []
      \<or> bhs_dpos_irreversible_blocknum s' < si_schedule_lib_num (bhs_pending_schedule s)"
    using l(2) f(6) that sc' by (auto simp: lib_backed_def not_le)
qed

text \<open>
  The states reached from genesis by valid headers, with the ids of the blocks before them. Block
  numbers are 32 bits wide; the chain stops before they wrap.
\<close>

inductive header_chain ::
  "(bytes \<Rightarrow> digest_type) \<Rightarrow> key_recovery \<Rightarrow> protocol_feature_set \<Rightarrow> feature_validator
   \<Rightarrow> block_id_type list \<Rightarrow> block_header_state \<Rightarrow> bool"
  for sha recover pfs validator where
  genesis: "genesis_state sha t chain_id key = Inr s \<Longrightarrow> header_chain sha recover pfs validator [] s"
| block: "header_chain sha recover pfs validator ids s \<Longrightarrow>
    bhs_next sha recover h sigs pfs validator skip s = Inr s' \<Longrightarrow> bhs_block_num s \<noteq> - 1 \<Longrightarrow>
    header_chain sha recover pfs validator (ids @ [bhs_id s]) s'"

inductive_cases header_chain_snocE: "header_chain sha recover pfs validator (ids @ [i]) s"

lemma genesis_inv:
  assumes "genesis_state sha t chain_id key = Inr s"
  shows "header_state_inv s" and "bhs_block_num s = 1" and "bhs_blockroot_merkle s = empty_incremental_merkle"
    and "lib_backed s"
proof -
  have z: "num_from_id zero_digest = 0"
    by (simp add: num_from_id_def zero_digest_def endian_reverse_u32_def)
  then have "block_num (genesis_header t chain_id) = 1" by (simp add: block_num_def genesis_header_def)
  with assms show "header_state_inv s" "bhs_block_num s = 1" "bhs_blockroot_merkle s = empty_incremental_merkle"
    "lib_backed s"
    by (auto simp: genesis_state_def Let_def ebind_Inr_iff header_state_inv_def hs_inv_def initial_schedule_def
        schedules_ok_def
        lib_backed_def dest: num_from_calculated_id)
qed

lemma header_chain_state:
  assumes "header_chain sha recover pfs validator ids s"
  shows "header_state_inv s \<and> unat (bhs_block_num s) = Suc (length ids)
    \<and> imk_inv (hash_pair sha) ids (bhs_blockroot_merkle s)"
  using assms
proof (induction rule: header_chain.induct)
  case (genesis t chain_id key s)
  then show ?case using genesis_inv [OF genesis] by (simp add: imk_inv_empty)
next
  case (block ids s h sigs skip s')
  from bhs_next_cases [OF block.hyps(2)] obtain p where
    p: "bhs_next_pending sha (bh_timestamp h) (bh_confirmed h) s = Inr p" and sc: "same_common s' p" by blast
  note f = next_pending_fields [OF p]
  obtain d where d: "imk_append (hash_pair sha) (bhs_id s) (bhs_blockroot_merkle s) = Inr (d, bhs_blockroot_merkle p)"
    using f(3) by blast
  have "length ids < 2 ^ 64 - 1" using block.IH unat_u32_less [of "bhs_block_num s"] by simp
  then obtain m where "imk_append (hash_pair sha) (bhs_id s) (bhs_blockroot_merkle s)
      = Inr (merkle (hash_pair sha) (ids @ [bhs_id s]), m)" "imk_inv (hash_pair sha) (ids @ [bhs_id s]) m"
    using imk_append_inv [of "hash_pair sha" ids "bhs_blockroot_merkle s" "bhs_id s"] block.IH by metis
  with d sc have "imk_inv (hash_pair sha) (ids @ [bhs_id s]) (bhs_blockroot_merkle s')"
    by (simp add: same_common_iff)
  moreover have "unat (bhs_block_num s') = Suc (Suc (length ids))"
    using sc f(2) unat_plus_1 [OF block.hyps(3)] block.IH by (simp add: same_common_iff)
  ultimately show ?case using bhs_next_inv(1) [OF block.hyps(2) _ block.hyps(3)] block.IH by simp
qed

section \<open>A sample chain\<close>

text \<open>A constant hash function and one producer: the genesis state and a first block on it.\<close>

definition sample_sha :: "bytes \<Rightarrow> digest_type" where
  "sample_sha bs = zero_digest"

definition sample_recover :: key_recovery where
  "sample_recover sig d = Inr (K1_key (replicate 33 0))"

definition sample_validator :: feature_validator where
  "sample_validator t old new = Inr ()"

definition sample_block_header :: signed_block_header where
  "sample_block_header = (genesis_header \<lparr>slot = 2\<rparr> zero_digest)
     \<lparr>bh_producer := system_account_name, bh_previous := SHA256 0x01000000 0 0 0\<rparr>"

lemmas pack_defs = pack_block_header_def pseq_def pack_word_def pack_sha256_def pack_optional_def
  pack_vector_def pack_bytes_def pack_bool_def pack_unsigned_int_def max_num_array_elements_def

lemma sample_header_digest:
  "bh_new_producers h = None \<Longrightarrow> bh_header_extensions h = [] \<Longrightarrow> header_digest sample_sha h = Inr zero_digest"
  by (simp add: header_digest_def sample_sha_def pack_defs)

lemma sample_id:
  "bh_new_producers h = None \<Longrightarrow> bh_header_extensions h = [] \<Longrightarrow>
   calculate_id sample_sha h = Inr (SHA256 (ucast (endian_reverse_u32 (block_num h))) 0 0 0)"
  by (simp add: calculate_id_def sample_header_digest zero_digest_def)

lemma genesis_id: "calculate_id sample_sha (genesis_header t c) = Inr (SHA256 0x01000000 0 0 0)"
  by (simp add: sample_id block_num_def num_from_id_def genesis_header_def zero_digest_def
      endian_reverse_u32_def)

lemma sample_genesis: "\<exists>s. genesis_state sample_sha \<lparr>slot = 1\<rparr> zero_digest (K1_key (replicate 33 0)) = Inr s"
proof -
  have "\<exists>bs. pack_legacy_schedule \<lparr>lps_version = 0, lps_producers =
      [\<lparr>lpk_producer_name = system_account_name, lpk_block_signing_key = K1_key (replicate 33 0)\<rparr>]\<rparr> = Inr bs"
    by (simp add: pack_legacy_schedule_def pack_producer_key_def pack_array_def pack_defs)
  then show ?thesis by (auto simp: genesis_state_def genesis_id Let_def)
qed

lemma sample_block:
  assumes "genesis_state sample_sha \<lparr>slot = 1\<rparr> zero_digest (K1_key (replicate 33 0)) = Inr s"
  shows "\<exists>s'. bhs_next sample_sha sample_recover sample_block_header [] pfs sample_validator True s = Inr s'"
proof -
  have s: "bhs_id s = SHA256 0x01000000 0 0 0" "bhs_header s = genesis_header \<lparr>slot = 1\<rparr> zero_digest"
    "bhs_producer_to_last_produced s = []" "bhs_active_schedule s = initial_schedule (K1_key (replicate 33 0))"
    "bhs_blockroot_merkle s = empty_incremental_merkle"
    using assms genesis_id by (auto simp: genesis_state_def Let_def ebind_Inr_iff)
  obtain d m where m: "imk_append (hash_pair sample_sha) (bhs_id s) (bhs_blockroot_merkle s) = Inr (d, m)"
    using imk_append_inv [OF imk_inv_empty, of "hash_pair sample_sha" "bhs_id s"] s(5)
    by (metis diff_is_0_eq list.size(3) not_le one_less_numeral_iff semiring_norm(76) one_less_power zero_less_diff zero_less_numeral)
  have "get_scheduled_producer s t = Inr (hd (pas_producers (initial_schedule (K1_key (replicate 33 0)))))" for t
    by (simp add: get_scheduled_producer_def s initial_schedule_def producer_repetitions_def Let_def)
  then obtain p where p: "bhs_next_pending sample_sha \<lparr>slot = 2\<rparr> 1 s = Inr p"
    and pf: "p = next_pending_state s \<lparr>slot = 2\<rparr> 1
      (hd (pas_producers (initial_schedule (K1_key (replicate 33 0))))) m"
    using m by (simp add: bhs_next_pending_def s genesis_header_def)
  have "validate_and_extract_header_extensions sample_block_header = Inr []"
    by (simp add: validate_and_extract_header_extensions_def sample_block_header_def genesis_header_def)
  moreover have "calculate_id sample_sha sample_block_header = Inr (SHA256 0x02000000 0 0 0)"
    by (simp add: sample_id sample_block_header_def genesis_header_def block_num_def num_from_id_def
        endian_reverse_u32_def)
  ultimately have "\<exists>s'. finish_next_unsigned sample_sha sample_block_header pfs sample_validator p = Inr s'"
    using pf s(1,4)
    by (simp add: finish_next_unsigned_def Let_def sample_block_header_def genesis_header_def next_pending_state_def
        case_prod_unfold initial_schedule_def check_legacy_schedule_def check_schedule_change_def
        activate_header_features_def ext_count_def)
  then show ?thesis
    using p by (auto simp: bhs_next_def finish_next_def sample_block_header_def genesis_header_def)
qed

lemma sample_chain:
  "\<exists>s i. header_chain sample_sha sample_recover pfs sample_validator [i] s"
proof -
  obtain s where s: "genesis_state sample_sha \<lparr>slot = 1\<rparr> zero_digest (K1_key (replicate 33 0)) = Inr s"
    using sample_genesis by blast
  moreover obtain s' where
    "bhs_next sample_sha sample_recover sample_block_header [] pfs sample_validator True s = Inr s'"
    using sample_block [OF s] by blast
  moreover have "bhs_block_num s \<noteq> - 1" using genesis_inv(2) [OF s] by simp
  ultimately show ?thesis
    using header_chain.block [OF header_chain.genesis [OF s]] by fastforce
qed

section \<open>Properties\<close>

text \<open>C20. The irreversible block of the next header state, \<^verbatim>\<open>dpos_irreversible_blocknum\<close>, is the highest block that more
  than two thirds of the producers imply, where some producer has an implied block: a block is at or below it exactly when it is at or below the implied block of more than two
  thirds of them, the producer of the next block counting with the currently proposed block.\<close>

theorem dpos_irreversible_exact:
  assumes "bhs_producer_to_last_implied_irb s \<noteq> []"
  shows "v \<le> calc_dpos_last_irreversible s producer \<longleftrightarrow>
    2 * length (bhs_producer_to_last_implied_irb s)
      < 3 * length (filter (\<lambda>(p, n). v \<le> (if p = producer then bhs_dpos_proposed_irreversible_blocknum s else n))
               (bhs_producer_to_last_implied_irb s))"
  using calc_dpos_exact [OF assms, of v producer]
  by (simp add: implied_votes_def filter_map comp_def case_prod_unfold)

definition sample_common :: block_header_state_common where
  "sample_common = \<lparr>bhs_block_num = 9, bhs_dpos_proposed_irreversible_blocknum = 8,
     bhs_dpos_irreversible_blocknum = 2, bhs_active_schedule = empty_schedule,
     bhs_blockroot_merkle = empty_incremental_merkle, bhs_producer_to_last_produced = [],
     bhs_producer_to_last_implied_irb = [(1, 3), (2, 5), (3, 6), (4, 7)],
     bhs_valid_block_signing_authority = BSA_v0 \<lparr>bsa_threshold = 0, bsa_keys = []\<rparr>, bhs_confirm_count = []\<rparr>"

theorem dpos_irreversible_exact_witness:
  "6 \<le> calc_dpos_last_irreversible sample_common 1 \<and> \<not> 7 \<le> calc_dpos_last_irreversible sample_common 1"
  using dpos_irreversible_exact [of sample_common 6 1] dpos_irreversible_exact [of sample_common 7 1]
  by (simp add: sample_common_def)

text \<open>C19. In every state reached from genesis the irreversible block is at or below the proposed one,
  the tracked confirmations are those of blocks above the proposed one, every producer's implied block
  is at or below the proposed one and its last block at or below the head, exactly the active producers
  have an implied block once there is one, the id carries the block number, and a pending schedule has
  the next version.\<close>

theorem header_chain_invariant:
  assumes "header_chain sha recover pfs validator ids s"
  shows "header_state_inv s"
  using header_chain_state [OF assms] by blast

theorem header_chain_invariant_witness:
  "\<exists>i s. header_chain sample_sha sample_recover empty_protocol_feature_set sample_validator [i] s
     \<and> header_state_inv s"
  using sample_chain [of empty_protocol_feature_set] header_chain_invariant by blast

text \<open>C16. The tree of block ids in a state reached from genesis has the merkle root of the ids of all
  blocks before it, in order, and the block number counts them.\<close>

theorem blockroot_is_merkle_of_chain:
  assumes "header_chain sha recover pfs validator ids s"
  shows "get_root (bhs_blockroot_merkle s) = merkle (hash_pair sha) ids \<and> unat (bhs_block_num s) = length ids + 1"
  using header_chain_state [OF assms] get_root_inv by auto

theorem blockroot_is_merkle_of_chain_witness:
  "\<exists>i s. header_chain sample_sha sample_recover empty_protocol_feature_set sample_validator [i] s
     \<and> get_root (bhs_blockroot_merkle s) = merkle (hash_pair sample_sha) [i] \<and> unat (bhs_block_num s) = 2"
  using sample_chain [of empty_protocol_feature_set] blockroot_is_merkle_of_chain
  by (metis One_nat_def Suc_1 add_2_eq_Suc' length_Cons list.size(3) plus_1_eq_Suc)

text \<open>C15. Along a chain the proposed irreversible block never decreases; the last irreversible block does
  not decrease either when more than two thirds of the producers back it, which again holds after every
  block that promotes no pending schedule.\<close>

theorem irreversible_block_monotone:
  assumes "bhs_next sha recover h sigs pfs validator skip s = Inr s'"
    and "header_state_inv s" and "bhs_block_num s \<noteq> - 1"
  shows "bhs_dpos_proposed_irreversible_blocknum s \<le> bhs_dpos_proposed_irreversible_blocknum s'
    \<and> (lib_backed s \<longrightarrow> bhs_dpos_irreversible_blocknum s \<le> bhs_dpos_irreversible_blocknum s')
    \<and> (pas_producers (si_schedule (bhs_pending_schedule s)) = []
         \<or> bhs_dpos_irreversible_blocknum s' < si_schedule_lib_num (bhs_pending_schedule s) \<longrightarrow> lib_backed s')"
  using bhs_next_inv [OF assms] by blast

theorem irreversible_block_monotone_witness:
  "\<exists>s s'. bhs_next sample_sha sample_recover sample_block_header [] empty_protocol_feature_set sample_validator True s
       = Inr s' \<and> lib_backed s \<and> bhs_dpos_irreversible_blocknum s \<le> bhs_dpos_irreversible_blocknum s'"
proof -
  obtain s where s: "genesis_state sample_sha \<lparr>slot = 1\<rparr> zero_digest (K1_key (replicate 33 0)) = Inr s"
    using sample_genesis by blast
  obtain s' where s': "bhs_next sample_sha sample_recover sample_block_header [] empty_protocol_feature_set
      sample_validator True s = Inr s'"
    using sample_block [OF s] by blast
  then show ?thesis
    using irreversible_block_monotone [OF s' genesis_inv(1) [OF s]] genesis_inv(2,4) [OF s] by auto
qed

end
