(* ===== verification/Fork_Tree.thy ===== *)
theory Fork_Tree
  imports Fork_Database Dpos
begin

text \<open>
  The fork database as a tree (src/libraries/chain/fork_database.cpp): what removing a block, advancing
  the root and walking a branch do. The loops of \<^verbatim>\<open>remove_impl\<close>, \<^verbatim>\<open>advance_root\<close>,
  \<^verbatim>\<open>fetch_branch\<close> and \<^verbatim>\<open>fetch_branch_from\<close> are shown to end on every database that satisfies the
  invariant, and their results are described by the tree.
\<close>

section \<open>Removing subtrees\<close>

text \<open>The id, and the blocks that build on it.\<close>

inductive_set subtree :: "block_state list \<Rightarrow> block_id_type \<Rightarrow> block_id_type set"
  for index start where
  start: "start \<in> subtree index start"
| child: "i \<in> subtree index start \<Longrightarrow> b \<in> set index \<Longrightarrow> prev_id b = i \<Longrightarrow> bhs_id b \<in> subtree index start"

lemma subtree_num:
  assumes "i \<in> subtree index start" and "\<forall>b \<in> set index. block_ok b"
  shows "unat (num_from_id start) \<le> unat (num_from_id i)"
  using assms(1)
proof (induction rule: subtree.induct)
  case (child i b)
  moreover have "unat (num_from_id (bhs_id b)) = Suc (unat (num_from_id i))"
    using assms(2) child.hyps by (auto simp: block_ok_def)
  ultimately show ?case by simp
qed simp

definition scan_inv :: "block_state list \<Rightarrow> block_id_type \<Rightarrow> block_id_type list \<Rightarrow> block_id_type list \<Rightarrow> bool" where
  "scan_inv index start scanned queue \<longleftrightarrow>
     distinct (scanned @ queue) \<and> start \<in> set (scanned @ queue) \<and> set (scanned @ queue) \<subseteq> subtree index start \<and>
     (\<forall>y \<in> set (scanned @ queue). y = start \<or> (\<exists>b \<in> set index. bhs_id b = y \<and> prev_id b \<in> set scanned)) \<and>
     (\<forall>b \<in> set index. prev_id b \<in> set scanned \<longrightarrow> bhs_id b \<in> set (scanned @ queue))"

lemma distinct_queue:
  assumes "distinct (xs @ i # ys)" and "distinct zs" and "\<And>z. z \<in> set zs \<Longrightarrow> z \<notin> set (xs @ i # ys)"
  shows "distinct ((xs @ [i]) @ ys @ zs)"
  using assms by auto

lemma child_ids:
  assumes "c \<in> set (map bhs_id (filter (\<lambda>b. prev_id b = i) index))"
  obtains b where "b \<in> set index" and "prev_id b = i" and "bhs_id b = c"
  using assms by auto

lemma scan_step:
  assumes inv: "scan_inv index start scanned (i # rest)" and ok: "\<forall>b \<in> set index. block_ok b"
    and dist: "distinct (map bhs_id index)"
  shows "scan_inv index start (scanned @ [i]) (rest @ map bhs_id (filter (\<lambda>b. prev_id b = i) index))"
proof -
  let ?new = "map bhs_id (filter (\<lambda>b. prev_id b = i) index)"
  have i: "i \<in> subtree index start" "i \<notin> set scanned" using inv by (auto simp: scan_inv_def)
  have "c \<notin> set (scanned @ i # rest)" if "c \<in> set ?new" for c
  proof
    assume c: "c \<in> set (scanned @ i # rest)"
    from that obtain b where b: "b \<in> set index" "prev_id b = i" "bhs_id b = c" by (rule child_ids)
    have "unat (num_from_id c) = Suc (unat (num_from_id i))" using ok b by (auto simp: block_ok_def)
    then have "c \<noteq> start" using subtree_num [OF i(1) ok] by auto
    then obtain b' where "b' \<in> set index" "bhs_id b' = c" "prev_id b' \<in> set scanned"
      using inv c by (auto simp: scan_inv_def)
    then have "b' = b" using b dist by (simp add: distinct_map inj_on_def)
    with b \<open>prev_id b' \<in> set scanned\<close> i(2) show False by simp
  qed
  moreover have "distinct ?new" using dist by (rule distinct_map_filter)
  moreover have "set ?new \<subseteq> subtree index start" using i(1) by (auto intro: subtree.child)
  ultimately have new: "\<And>c. c \<in> set ?new \<Longrightarrow> c \<notin> set (scanned @ i # rest)" "distinct ?new" "set ?new \<subseteq> subtree index start"
    by blast+
  have old: "distinct (scanned @ i # rest)" "start \<in> set (scanned @ i # rest)" "set (scanned @ i # rest) \<subseteq> subtree index start"
    "\<forall>y \<in> set (scanned @ i # rest). y = start \<or> (\<exists>b \<in> set index. bhs_id b = y \<and> prev_id b \<in> set scanned)"
    "\<forall>b \<in> set index. prev_id b \<in> set scanned \<longrightarrow> bhs_id b \<in> set (scanned @ i # rest)"
    using inv unfolding scan_inv_def by blast+
  have all: "set ((scanned @ [i]) @ rest @ ?new) = set (scanned @ i # rest) \<union> set ?new" by auto
  have "distinct ((scanned @ [i]) @ rest @ ?new)" using old(1) new(2,1) by (rule distinct_queue)
  moreover have "y = start \<or> (\<exists>b \<in> set index. bhs_id b = y \<and> prev_id b \<in> set (scanned @ [i]))"
    if y: "y \<in> set (scanned @ i # rest) \<union> set ?new" for y
  proof (cases "y \<in> set ?new")
    case True
    then obtain b where "b \<in> set index" "prev_id b = i" "bhs_id b = y" by (rule child_ids)
    then show ?thesis by (intro disjI2 bexI [of _ b]) simp_all
  next
    case False
    with y old(4) have "y = start \<or> (\<exists>b \<in> set index. bhs_id b = y \<and> prev_id b \<in> set scanned)" by blast
    then show ?thesis by (metis Un_iff set_append)
  qed
  moreover have "bhs_id b \<in> set (scanned @ i # rest) \<union> set ?new" if b: "b \<in> set index" "prev_id b \<in> set (scanned @ [i])" for b
  proof (cases "prev_id b = i")
    case True
    with b(1) have "bhs_id b \<in> set ?new" by simp
    then show ?thesis by blast
  next
    case False
    with b have "prev_id b \<in> set scanned" by simp
    with b(1) old(5) show ?thesis by blast
  qed
  ultimately show ?thesis unfolding scan_inv_def all using old(2,3) new(3) by blast
qed

lemma card_insert_ids: "card (insert i (bhs_id ` set index)) \<le> Suc (length index)"
  using card_length [of "i # map bhs_id index"] by simp

text \<open>
  The scan ends: the ids in the queue are distinct, and all but the first are ids of blocks in the
  index. It collects the subtree, or finds the head in it.
\<close>

lemma remove_queue_scan:
  assumes "scan_inv index start scanned queue" and "\<forall>b \<in> set index. block_ok b" and "distinct (map bhs_id index)"
    and "head_id \<notin> set scanned"
  shows "\<exists>r. remove_queue index head_id scanned queue = Some r
    \<and> (if head_id \<in> subtree index start then r = Inl fork_database_exception
       else \<exists>ids. r = Inr ids \<and> set ids = subtree index start)"
  using assms(1,4)
proof (induction "Suc (length index) - length scanned" arbitrary: scanned queue rule: less_induct)
  case less
  note inv = less.prems(1)
  show ?case
  proof (cases queue)
    case Nil
    have "i \<in> set scanned" if "i \<in> subtree index start" for i
      using that inv Nil by induction (auto simp: scan_inv_def)
    then have "set scanned = subtree index start" using inv Nil by (auto simp: scan_inv_def)
    then show ?thesis using Nil less.prems(2) by (simp add: remove_queue.simps)
  next
    case (Cons i rest)
    show ?thesis
    proof (cases "i = head_id")
      case True
      then have "head_id \<in> subtree index start" using inv Cons by (auto simp: scan_inv_def)
      then show ?thesis using Cons True by (simp add: remove_queue.simps)
    next
      case False
      have "set (scanned @ queue) \<subseteq> insert start (bhs_id ` set index)" using inv by (auto simp: scan_inv_def)
      from card_mono [OF _ this] have "card (set (scanned @ queue)) \<le> Suc (length index)"
        using card_insert_ids [of start index] by simp
      moreover have "card (set (scanned @ queue)) = length scanned + length queue"
        using inv distinct_card [of "scanned @ queue"] by (simp add: scan_inv_def)
      ultimately have "Suc (length index) - length (scanned @ [i]) < Suc (length index) - length scanned"
        using Cons by simp
      from less.hyps [OF this scan_step [OF inv [unfolded Cons] assms(2,3)]] less.prems(2) False
      show ?thesis using Cons False by (simp add: remove_queue.simps [of _ _ scanned "i # rest"])
    qed
  qed
qed

definition index_ok :: "block_state list \<Rightarrow> bool" where
  "index_ok index \<longleftrightarrow> distinct (map bhs_id index) \<and> (\<forall>b \<in> set index. block_ok b)"

lemma index_ok_filter: "index_ok index \<Longrightarrow> index_ok (filter P index)"
  by (auto simp: index_ok_def distinct_map_filter)

lemma tree_inv_index_ok: "tree_inv root index \<Longrightarrow> index_ok index"
  by (auto simp: tree_inv_def index_ok_def)

lemma remove_impl_scan:
  assumes "index_ok (fdb_index db)" and "fdb_head db = Some head"
  shows "remove_impl bid db =
    (if bhs_id head \<in> subtree (fdb_index db) bid then Some (Inl fork_database_exception)
     else Some (Inr (db\<lparr>fdb_index := filter (\<lambda>b. bhs_id b \<notin> subtree (fdb_index db) bid) (fdb_index db)\<rparr>)))"
proof -
  have "scan_inv (fdb_index db) bid [] [bid]" by (auto simp: scan_inv_def intro: subtree.start)
  from remove_queue_scan [OF this, of "bhs_id head"] assms(1) obtain q where
    "remove_queue (fdb_index db) (bhs_id head) [] [bid] = Some q"
    "if bhs_id head \<in> subtree (fdb_index db) bid then q = Inl fork_database_exception
       else \<exists>ids. q = Inr ids \<and> set ids = subtree (fdb_index db) bid"
    by (auto simp: index_ok_def)
  with assms(2) show ?thesis by (auto simp: remove_impl_def erase_blocks_def split: if_splits)
qed

lemma subtree_mono: "i \<in> subtree index p \<Longrightarrow> set index \<subseteq> set index' \<Longrightarrow> i \<in> subtree index' p"
  by (induction rule: subtree.induct) (auto intro: subtree.intros)

lemma subtree_filter:
  "subtree (filter (\<lambda>b. bhs_id b \<notin> subtree index p) index) q \<union> subtree index p = subtree index q \<union> subtree index p"
proof -
  have "i \<in> subtree (filter (\<lambda>b. bhs_id b \<notin> subtree index p) index) q \<union> subtree index p"
    if "i \<in> subtree index q" for i using that
  proof (induction rule: subtree.induct)
    case (child i b)
    show ?case
    proof (cases "bhs_id b \<in> subtree index p")
      case False
      with child.hyps have "i \<notin> subtree index p" by (metis subtree.child)
      with child.IH have "i \<in> subtree (filter (\<lambda>b. bhs_id b \<notin> subtree index p) index) q" by blast
      moreover have "b \<in> set (filter (\<lambda>b. bhs_id b \<notin> subtree index p) index)" using child.hyps False by simp
      ultimately show ?thesis using child.hyps(3) by (blast intro: subtree.child)
    qed blast
  qed (blast intro: subtree.start)
  then show ?thesis using subtree_mono [OF _ filter_is_subset] by blast
qed

definition subtrees :: "block_state list \<Rightarrow> block_id_type list \<Rightarrow> block_id_type set" where
  "subtrees index ids = \<Union> (subtree index ` set ids)"

lemma remove_each_spec:
  assumes "index_ok (fdb_index db)" and "fdb_head db = Some head"
  shows "if bhs_id head \<in> subtrees (fdb_index db) ids then \<exists>db'. remove_each ids db = Some (Some fork_database_exception, db')
    else remove_each ids db = Some (None, db\<lparr>fdb_index := filter (\<lambda>b. bhs_id b \<notin> subtrees (fdb_index db) ids) (fdb_index db)\<rparr>)"
  using assms
proof (induction ids arbitrary: db)
  case (Cons p ids)
  let ?I = "fdb_index db" and ?db = "db\<lparr>fdb_index := filter (\<lambda>b. bhs_id b \<notin> subtree (fdb_index db) p) (fdb_index db)\<rparr>"
  note step = remove_impl_scan [OF Cons.prems, of p]
  show ?case
  proof (cases "bhs_id head \<in> subtree ?I p")
    case False
    have gone: "subtrees (fdb_index ?db) ids \<union> subtree ?I p = subtrees ?I (p # ids)"
      using subtree_filter [of ?I p] by (auto simp: subtrees_def)
    then have head: "bhs_id head \<in> subtrees (fdb_index ?db) ids \<longleftrightarrow> bhs_id head \<in> subtrees ?I (p # ids)"
      using False by blast
    have kept: "filter (\<lambda>b. bhs_id b \<notin> subtrees (fdb_index ?db) ids) (fdb_index ?db)
        = filter (\<lambda>b. bhs_id b \<notin> subtrees ?I (p # ids)) ?I"
      using gone by (auto intro!: filter_cong)
    have "index_ok (fdb_index ?db)" "fdb_head ?db = Some head" using Cons.prems by (simp_all add: index_ok_filter)
    from Cons.IH [OF this, unfolded head kept] show ?thesis using step False by simp
  qed (use step in \<open>auto simp: subtrees_def\<close>)
qed (simp add: subtrees_def)

section \<open>Advancing the root\<close>

lemma blocks_to_remove_spec:
  assumes t: "tree_inv root (fdb_index db)" and "b \<in> set (fdb_index db)"
  shows "\<exists>ps. blocks_to_remove db (bhs_id root) ids b = Some (Inr (ids @ ps)) \<and> bhs_id root \<in> set ps
    \<and> (\<forall>p \<in> set ps. unat (num_from_id p) < unat (bhs_block_num b))"
  using assms(2)
proof (induction "unat (bhs_block_num b)" arbitrary: b ids rule: less_induct)
  case less
  have num: "unat (num_from_id (prev_id b)) < unat (bhs_block_num b)"
    using t less.prems by (simp add: tree_inv_def block_ok_def)
  show ?case
  proof (cases "prev_id b = bhs_id root")
    case True
    then show ?thesis using num tree_inv_root_parent [OF t True]
      by (intro exI [of _ "[prev_id b]"]) (simp add: blocks_to_remove.simps)
  next
    case False
    from tree_inv_parent [OF t less.prems False] obtain p where p: "get_block db (prev_id b) = Some p"
      "p \<in> set (fdb_index db)" "unat (bhs_block_num b) = Suc (unat (bhs_block_num p))" by blast
    from less.hyps [OF _ p(2), of "ids @ [prev_id b]"] p(3) obtain ps where
      "blocks_to_remove db (bhs_id root) (ids @ [prev_id b]) p = Some (Inr ((ids @ [prev_id b]) @ ps))"
      "bhs_id root \<in> set ps" "\<forall>q \<in> set ps. unat (num_from_id q) < unat (bhs_block_num p)" by auto
    with p num show ?thesis
      by (intro exI [of _ "prev_id b # ps"]) (auto simp: blocks_to_remove.simps [of _ _ ids b])
  qed
qed

lemma subtree_id_cases:
  assumes "index_ok index" and "bhs_id b \<in> subtree index i" and "b \<in> set index" and "bhs_id b \<noteq> i"
  shows "prev_id b \<in> subtree index i"
  using assms(2,4)
proof (cases rule: subtree.cases)
  case (child j c)
  then have "c = b" using assms(1,3) by (simp add: index_ok_def distinct_map inj_on_def)
  with child show ?thesis by simp
qed simp

text \<open>
  Once the new root is taken out of the index, the subtrees of its ancestors are all the blocks that do
  not build on it.
\<close>

lemma old_subtrees:
  assumes t: "tree_inv root index" and n: "n \<in> set index" and ids: "bhs_id root \<in> set ids"
    "\<forall>p \<in> set ids. unat (num_from_id p) < unat (bhs_block_num n)"
    and b: "b \<in> set index"
  shows "bhs_id b \<in> subtrees (filter (\<lambda>b. bhs_id b \<notin> set [bhs_id n]) index) ids \<longleftrightarrow> bhs_id b \<notin> subtree index (bhs_id n)"
proof
  let ?J = "filter (\<lambda>b. bhs_id b \<notin> set [bhs_id n]) index"
  have ok: "index_ok index" "\<forall>b \<in> set index. block_ok b" using t by (auto simp: tree_inv_def index_ok_def)
  have nn: "num_from_id (bhs_id n) = bhs_block_num n" using ok(2) n by (simp add: block_ok_def)
  have out: "i \<notin> subtree index (bhs_id n)" if "i \<in> subtree ?J p" "p \<in> set ids" for i p
    using that(1)
  proof (induction rule: subtree.induct)
    case start
    show ?case using subtree_num [of p index "bhs_id n"] ok(2) ids(2) that(2) nn by (auto simp: not_less)
  next
    case (child i b)
    then show ?case using subtree_id_cases [OF ok(1), of b "bhs_id n"] by auto
  qed
  then show "bhs_id b \<notin> subtree index (bhs_id n)" if "bhs_id b \<in> subtrees ?J ids"
    using that by (auto simp: subtrees_def)
  have "bhs_id b \<in> subtree ?J (bhs_id root)" if "bhs_id b \<notin> subtree index (bhs_id n)" "b \<in> set index" for b
    using that
  proof (induction "unat (bhs_block_num b)" arbitrary: b rule: less_induct)
    case less
    then have J: "b \<in> set ?J" by (auto intro: subtree.start)
    show ?case
    proof (cases "prev_id b = bhs_id root")
      case True
      with J show ?thesis by (blast intro: subtree.start subtree.child)
    next
      case False
      then obtain p where p: "p \<in> set index" "bhs_id p = prev_id b" using t less.prems by (auto simp: tree_inv_def)
      then have "unat (bhs_block_num p) < unat (bhs_block_num b)"
        using ok(2) less.prems(2) unfolding block_ok_def by (metis lessI)
      moreover have "bhs_id p \<notin> subtree index (bhs_id n)" using less.prems p(2) by (metis subtree.child)
      ultimately have "prev_id b \<in> subtree ?J (bhs_id root)" using less.hyps p by metis
      with J show ?thesis by (blast intro: subtree.child)
    qed
  qed
  with b ids(1) show "bhs_id b \<in> subtrees ?J ids" if "bhs_id b \<notin> subtree index (bhs_id n)"
    using that by (auto simp: subtrees_def)
qed

lemma tree_inv_advance:
  assumes t: "tree_inv root index" and n: "n \<in> set index"
  shows "tree_inv n (filter (\<lambda>b. bhs_id b \<in> subtree index (bhs_id n) \<and> bhs_id b \<noteq> bhs_id n) index)" (is "tree_inv n ?J")
proof -
  have ok: "index_ok index" "\<forall>b \<in> set index. block_ok b" using t by (auto simp: tree_inv_def index_ok_def)
  have nn: "num_from_id (bhs_id n) = bhs_block_num n" using ok(2) n by (simp add: block_ok_def)
  have "bhs_block_num n < bhs_block_num b \<and> (prev_id b = bhs_id n \<or> (\<exists>p \<in> set ?J. bhs_id p = prev_id b))"
    if "b \<in> set ?J" for b
  proof -
    have par: "prev_id b \<in> subtree index (bhs_id n)" using that subtree_id_cases [OF ok(1)] by simp
    from subtree_num [OF par ok(2)] have "bhs_block_num n < bhs_block_num b"
      using ok(2) that nn by (auto simp: block_ok_def word_less_nat_alt)
    moreover have "prev_id b = bhs_id n \<or> (\<exists>p \<in> set ?J. bhs_id p = prev_id b)"
      using par
    proof (cases rule: subtree.cases)
      case (child i c)
      then show ?thesis using par by (cases "prev_id b = bhs_id n") auto
    qed simp
    ultimately show ?thesis ..
  qed
  then show ?thesis using ok nn unfolding tree_inv_def index_ok_def by (auto simp: distinct_map_filter)
qed

lemma advance_root_fails:
  "fdb_root db = None \<or> get_block db bid = None \<or> \<not> bst_validated (the (get_block db bid))
   \<Longrightarrow> advance_root bid db = Some (Some fork_database_exception, db)"
  by (auto simp: advance_root_def split: option.splits)

lemma head_in_index:
  assumes "fdb_inv db" and "fdb_root db = Some root" and "fdb_head db = Some head"
  shows "bhs_id head = bhs_id root \<or> (\<exists>b \<in> set (fdb_index db). bst_validated b \<and> block_core b = block_core head)"
  using assms by (auto simp: fdb_inv_def head_inv_def dest: block_core_eqD)

lemma root_not_in_subtree:
  assumes "tree_inv root index" and "n \<in> set index"
  shows "bhs_id root \<notin> subtree index (bhs_id n)"
proof
  assume "bhs_id root \<in> subtree index (bhs_id n)"
  from subtree_num [OF this] assms show False by (auto simp: tree_inv_def block_ok_def word_less_nat_alt)
qed

lemma advance_root_step:
  assumes inv: "fdb_inv db" and head: "fdb_head db = Some head"
    and n: "get_block db bid = Some n" "bst_validated n"
  defines "up \<equiv> subtree (fdb_index db) bid"
  shows "if bhs_id head \<in> up
    then advance_root bid db = Some (None, db\<lparr>fdb_root := Some n,
           fdb_index := filter (\<lambda>b. bhs_id b \<in> up \<and> bhs_id b \<noteq> bid) (fdb_index db)\<rparr>)
    else \<exists>db'. advance_root bid db = Some (Some fork_database_exception, db')"
proof -
  let ?J = "filter (\<lambda>b. bhs_id b \<notin> set [bid]) (fdb_index db)"
  from inv obtain root where r: "fdb_root db = Some root" and t: "tree_inv root (fdb_index db)"
    by (auto simp: fdb_inv_def)
  have nid: "n \<in> set (fdb_index db)" "bhs_id n = bid" using get_block_SomeD [OF n(1)] by simp_all
  from blocks_to_remove_spec [OF t nid(1), of "[]"] obtain ids where
    ids: "blocks_to_remove db (bhs_id root) [] n = Some (Inr ids)" "bhs_id root \<in> set ids"
      "\<forall>p \<in> set ids. unat (num_from_id p) < unat (bhs_block_num n)" by auto
  note old = old_subtrees [OF t nid(1) ids(2,3), unfolded nid(2), folded up_def]
  have root_in: "bhs_id root \<in> subtrees ?J ids" using ids(2) by (auto simp: subtrees_def intro: subtree.start)
  have "bhs_id root \<notin> up" using root_not_in_subtree [OF t nid(1)] nid(2) by (simp add: up_def)
  with root_in old head_in_index [OF inv r head]
  have H: "bhs_id head \<in> subtrees ?J ids \<longleftrightarrow> bhs_id head \<notin> up" by (metis block_core_eqD(1))
  have kept: "filter (\<lambda>b. bhs_id b \<notin> subtrees ?J ids) ?J
      = filter (\<lambda>b. bhs_id b \<in> up \<and> bhs_id b \<noteq> bid) (fdb_index db)"
    using old by (auto intro!: filter_cong)
  have "index_ok (fdb_index (erase_blocks [bid] db))" "fdb_head (erase_blocks [bid] db) = Some head"
    using tree_inv_index_ok [OF t] head by (simp_all add: erase_blocks_def index_ok_filter)
  from remove_each_spec [OF this, of ids] H kept r n ids(1) show ?thesis
    by (auto simp: advance_root_def erase_blocks_def)
qed

lemma advance_root_inv:
  assumes inv: "fdb_inv db" and head: "fdb_head db = Some head" "bhs_id head \<in> subtree (fdb_index db) bid"
    and n: "get_block db bid = Some n"
  shows "fdb_inv (db\<lparr>fdb_root := Some n,
           fdb_index := filter (\<lambda>b. bhs_id b \<in> subtree (fdb_index db) bid \<and> bhs_id b \<noteq> bid) (fdb_index db)\<rparr>)"
proof -
  let ?J = "filter (\<lambda>b. bhs_id b \<in> subtree (fdb_index db) bid \<and> bhs_id b \<noteq> bid) (fdb_index db)"
  from inv head(1) obtain root where r: "fdb_root db = Some root" and t: "tree_inv root (fdb_index db)"
    and h: "head_inv root head (fdb_index db)" by (auto simp: fdb_inv_def)
  have nid: "n \<in> set (fdb_index db)" "bhs_id n = bid" using get_block_SomeD [OF n] by simp_all
  have "bhs_id head \<noteq> bhs_id root" using root_not_in_subtree [OF t nid(1)] nid(2) head(2) by metis
  with head_in_index [OF inv r head(1)] obtain b where b: "b \<in> set (fdb_index db)" "bst_validated b"
    "block_core b = block_core head" by blast
  have id: "bhs_id b = bhs_id head" using block_core_eqD(1) [OF b(3)] .
  have "head_inv n head ?J"
  proof (cases "bhs_id b = bid")
    case True
    with b nid t have "b = n" by (simp add: tree_inv_def distinct_map inj_on_def)
    with b(3) h show ?thesis by (auto simp: head_inv_def)
  next
    case False
    with b id head(2) have "b \<in> set ?J" by simp
    with b h show ?thesis unfolding head_inv_def by auto
  qed
  with tree_inv_advance [OF t nid(1)] nid(2) head(1) show ?thesis by (simp add: fdb_inv_def)
qed

section \<open>Branches\<close>

text \<open>The blocks met on the way from the id \<open>i\<close> down to the id \<open>a\<close>, which is not among them.\<close>

fun path :: "fork_database \<Rightarrow> block_id_type \<Rightarrow> block_state list \<Rightarrow> block_id_type \<Rightarrow> bool" where
  "path db i [] a \<longleftrightarrow> i = a"
| "path db i (b # bs) a \<longleftrightarrow> get_block db i = Some b \<and> path db (prev_id b) bs a"

lemma path_append: "path db i (xs @ ys) a \<longleftrightarrow> (\<exists>m. path db i xs m \<and> path db m ys a)"
  by (induction xs arbitrary: i) auto

lemma path_nums:
  assumes "tree_inv root (fdb_index db)" and "path db i bs a" and "b \<in> set bs"
  shows "b \<in> set (fdb_index db) \<and> unat (bhs_block_num b) \<le> unat (num_from_id i)"
  using assms(2,3)
proof (induction bs arbitrary: i)
  case (Cons c bs)
  then have c: "c \<in> set (fdb_index db)" "bhs_id c = i" by (auto dest: get_block_SomeD)
  then have "unat (num_from_id i) = unat (bhs_block_num c)" "unat (num_from_id (prev_id c)) \<le> unat (bhs_block_num c)"
    using assms(1) by (auto simp: tree_inv_def block_ok_def)
  with c Cons show ?case by fastforce
qed simp

lemma fetch_branch_loop_spec:
  assumes t: "tree_inv root (fdb_index db)" and "b \<in> set (fdb_index db)"
  shows "\<exists>bs. path db (bhs_id b) bs (bhs_id root) \<and> bs \<noteq> []
    \<and> fetch_branch_loop db k (Some b) acc = Some (acc @ filter (\<lambda>b. bhs_block_num b \<le> k) bs)"
  using assms(2)
proof (induction "unat (bhs_block_num b)" arbitrary: b acc rule: less_induct)
  case less
  have b: "get_block db (bhs_id b) = Some b" using t less.prems by (simp add: get_block_member tree_inv_def)
  let ?acc = "if bhs_block_num b \<le> k then acc @ [b] else acc"
  show ?case
  proof (cases "prev_id b = bhs_id root")
    case True
    then show ?thesis using b tree_inv_root_parent [OF t True]
      by (intro exI [of _ "[b]"]) (simp add: fetch_branch_loop.simps)
  next
    case False
    from tree_inv_parent [OF t less.prems False] obtain p where p: "get_block db (prev_id b) = Some p"
      "p \<in> set (fdb_index db)" "unat (bhs_block_num b) = Suc (unat (bhs_block_num p))" by blast
    from less.hyps [OF _ p(2), of ?acc] p(3) obtain bs where
      bs: "path db (bhs_id p) bs (bhs_id root)"
      "fetch_branch_loop db k (Some p) ?acc = Some (?acc @ filter (\<lambda>b. bhs_block_num b \<le> k) bs)" by auto
    moreover have "bhs_id p = prev_id b" using get_block_SomeD [OF p(1)] by simp
    ultimately show ?thesis using b p(1)
      by (intro exI [of _ "b # bs"]) (simp add: fetch_branch_loop.simps [of _ _ "Some b"])
  qed
qed

lemma search_on_branch_loop_spec:
  assumes t: "tree_inv root (fdb_index db)" and "path db i bs (bhs_id root)"
  shows "search_on_branch_loop db k (get_block db i) = Some (find (\<lambda>b. bhs_block_num b = k) bs)"
  using assms(2)
proof (induction bs arbitrary: i)
  case Nil
  then have "get_block db i = None" using tree_inv_root [OF t] by (simp add: get_block_None)
  then show ?case by (simp add: search_on_branch_loop.simps)
next
  case (Cons b bs)
  then show ?case by (simp add: search_on_branch_loop.simps [of _ _ "Some b"])
qed

lemma fetch_branch_spec:
  assumes "fdb_inv db" and "fdb_root db = Some root"
  shows "\<exists>bs. path db h bs (if get_block db h = None then h else bhs_id root)
    \<and> fetch_branch h k db = Some (filter (\<lambda>b. bhs_block_num b \<le> k) bs)
    \<and> search_on_branch h k db = Some (find (\<lambda>b. bhs_block_num b = k) bs)"
proof (cases "get_block db h")
  case None
  then show ?thesis
    by (intro exI [of _ "[]"]) (simp add: fetch_branch_def search_on_branch_def fetch_branch_loop.simps search_on_branch_loop.simps)
next
  case (Some b)
  have t: "tree_inv root (fdb_index db)" using assms by (auto simp: fdb_inv_def)
  have b: "b \<in> set (fdb_index db)" "bhs_id b = h" using get_block_SomeD [OF Some] by simp_all
  from fetch_branch_loop_spec [OF t b(1), of k "[]"] Some b(2) search_on_branch_loop_spec [OF t, of h]
  show ?thesis unfolding fetch_branch_def search_on_branch_def by auto
qed

text \<open>The blocks of the tree, its root included, and the step down to the parent.\<close>

definition in_tree :: "block_state \<Rightarrow> fork_database \<Rightarrow> block_state \<Rightarrow> bool" where
  "in_tree root db b \<longleftrightarrow> b = root \<or> b \<in> set (fdb_index db)"

lemma in_tree_block_or_root:
  assumes "tree_inv root (fdb_index db)" and "block_or_root db root i = Some b"
  shows "in_tree root db b" "bhs_id b = i" "num_from_id i = bhs_block_num b"
  using assms get_block_SomeD [of db i b]
  by (auto simp: block_or_root_def in_tree_def tree_inv_def block_ok_def split: if_splits)

lemma tree_parent:
  assumes "tree_inv root (fdb_index db)" and "b \<in> set (fdb_index db)"
  shows "\<exists>p. block_or_root db root (prev_id b) = Some p \<and> in_tree root db p \<and> bhs_id p = prev_id b
    \<and> unat (bhs_block_num b) = Suc (unat (bhs_block_num p))"
proof (cases "prev_id b = bhs_id root")
  case True
  with assms show ?thesis by (auto simp: block_or_root_def in_tree_def tree_inv_def block_ok_def)
next
  case False
  from tree_inv_parent [OF assms False] obtain p where "get_block db (prev_id b) = Some p"
    "p \<in> set (fdb_index db)" "unat (bhs_block_num b) = Suc (unat (bhs_block_num p))" by blast
  then show ?thesis using False get_block_SomeD [of db "prev_id b" p] by (auto simp: block_or_root_def in_tree_def)
qed

lemma in_tree_above:
  assumes "tree_inv root (fdb_index db)" and "in_tree root db b" and "bhs_block_num root < bhs_block_num b"
  shows "b \<in> set (fdb_index db)" "get_block db (bhs_id b) = Some b"
  using assms get_block_member [of db b] by (auto simp: in_tree_def tree_inv_def)

lemma walk_down_spec:
  assumes t: "tree_inv root (fdb_index db)" and k: "bhs_block_num root \<le> k" and "in_tree root db b"
  shows "\<exists>c cs. walk_down db root k b acc = Some (Inr (c, acc @ cs)) \<and> path db (bhs_id b) cs (bhs_id c)
    \<and> in_tree root db c \<and> bhs_block_num c = min k (bhs_block_num b) \<and> (\<forall>x \<in> set cs. k < bhs_block_num x)"
  using assms(3)
proof (induction "unat (bhs_block_num b)" arbitrary: b acc rule: less_induct)
  case less
  show ?case
  proof (cases "k < bhs_block_num b")
    case True
    with k have "bhs_block_num root < bhs_block_num b" by simp
    note b = in_tree_above [OF t less.prems this]
    from tree_parent [OF t b(1)] obtain p where p: "block_or_root db root (prev_id b) = Some p" "in_tree root db p"
      "bhs_id p = prev_id b" "unat (bhs_block_num b) = Suc (unat (bhs_block_num p))" by blast
    from less.hyps [OF _ p(2), of "acc @ [b]"] p(4) obtain c cs where
      c: "walk_down db root k p (acc @ [b]) = Some (Inr (c, (acc @ [b]) @ cs))" "path db (bhs_id p) cs (bhs_id c)"
      "in_tree root db c" "bhs_block_num c = min k (bhs_block_num p)" "\<forall>x \<in> set cs. k < bhs_block_num x" by auto
    have "min k (bhs_block_num p) = min k (bhs_block_num b)" using True p(4)
      by (auto simp: min_def word_le_nat_alt word_less_nat_alt word_unat_eq_iff)
    with c p True b(2) show ?thesis
      by (intro exI [of _ c] exI [of _ "b # cs"]) (simp add: walk_down.simps [of _ _ _ b])
  next
    case False
    then have "min k (bhs_block_num b) = bhs_block_num b" by simp
    moreover have "walk_down db root k b acc = Some (Inr (b, acc))"
      using False by (subst walk_down.simps) (simp only: if_False)
    ultimately show ?thesis using less.prems by (intro exI [of _ b] exI [of _ "[]"]) simp
  qed
qed

lemma walk_both_spec:
  assumes t: "tree_inv root (fdb_index db)" and "b1 \<in> set (fdb_index db)" "b2 \<in> set (fdb_index db)"
    "bhs_block_num b1 = bhs_block_num b2" "bhs_id b1 \<noteq> bhs_id b2"
  shows "\<exists>a cs1 cs2. walk_both db b1 b2 acc1 acc2 = Some (Inr (acc1 @ cs1, acc2 @ cs2))
    \<and> path db (bhs_id b1) cs1 a \<and> path db (bhs_id b2) cs2 a \<and> set cs1 \<inter> set cs2 = {}"
  using assms(2-)
proof (induction "unat (bhs_block_num b1)" arbitrary: b1 b2 acc1 acc2 rule: less_induct)
  case less
  have g: "get_block db (bhs_id b1) = Some b1" "get_block db (bhs_id b2) = Some b2"
    using t less.prems by (simp_all add: get_block_member tree_inv_def)
  show ?case
  proof (cases "prev_id b1 = prev_id b2")
    case True
    then show ?thesis using less.prems g
      by (intro exI [of _ "prev_id b2"] exI [of _ "[b1]"] exI [of _ "[b2]"]) (auto simp: walk_both.simps)
  next
    case False
    from tree_parent [OF t less.prems(1)] tree_parent [OF t less.prems(2)] obtain p1 p2 where
      p: "block_or_root db root (prev_id b1) = Some p1" "in_tree root db p1" "bhs_id p1 = prev_id b1"
        "unat (bhs_block_num b1) = Suc (unat (bhs_block_num p1))"
        "block_or_root db root (prev_id b2) = Some p2" "in_tree root db p2" "bhs_id p2 = prev_id b2"
        "unat (bhs_block_num b2) = Suc (unat (bhs_block_num p2))" by blast
    have same: "bhs_block_num p1 = bhs_block_num p2" using p(4,8) less.prems(3) by (simp add: word_unat_eq_iff)
    have above: "bhs_block_num root < bhs_block_num p1"
      using t p False same by (metis in_tree_def order_less_irrefl tree_inv_def)
    note q1 = in_tree_above [OF t p(2) above] and q2 = in_tree_above [OF t p(6) above [unfolded same]]
    from less.hyps [OF _ q1(1) q2(1) same, of "acc1 @ [b1]" "acc2 @ [b2]"] p(3,4,7) False obtain a cs1 cs2 where
      w: "walk_both db p1 p2 (acc1 @ [b1]) (acc2 @ [b2]) = Some (Inr ((acc1 @ [b1]) @ cs1, (acc2 @ [b2]) @ cs2))"
      "path db (bhs_id p1) cs1 a" "path db (bhs_id p2) cs2 a" "set cs1 \<inter> set cs2 = {}" by auto
    have "b2 \<notin> set cs1" using path_nums [OF t w(2), of b2] in_tree_block_or_root(3) [OF t p(1)] p(3) p(8) same by auto
    moreover have "b1 \<notin> set cs2" using path_nums [OF t w(3), of b1] in_tree_block_or_root(3) [OF t p(5)] p(7) p(4) same by auto
    ultimately show ?thesis using w False g q1(2) q2(2) p(3,7) less.prems(4)
      by (intro exI [of _ a] exI [of _ "b1 # cs1"] exI [of _ "b2 # cs2"])
         (auto simp: walk_both.simps [of _ b1 b2])
  qed
qed

lemma in_tree_root_le: "tree_inv root (fdb_index db) \<Longrightarrow> in_tree root db b \<Longrightarrow> bhs_block_num root \<le> bhs_block_num b"
  by (auto simp: in_tree_def tree_inv_def)

lemma in_tree_distinct_above:
  assumes "tree_inv root (fdb_index db)" and "in_tree root db b" and "in_tree root db c"
    and "bhs_block_num b = bhs_block_num c" and "bhs_id b \<noteq> bhs_id c"
  shows "b \<in> set (fdb_index db)" "c \<in> set (fdb_index db)"
  using assms by (auto simp: in_tree_def tree_inv_def)

lemma fetch_branch_from_spec:
  assumes inv: "fdb_inv db" and r: "fdb_root db = Some root"
    and b: "block_or_root db root i = Some b1" "block_or_root db root j = Some b2"
  shows "\<exists>a bs1 bs2. fetch_branch_from i j db = Some (Inr (bs1, bs2)) \<and> path db i bs1 a \<and> path db j bs2 a
    \<and> set bs1 \<inter> set bs2 = {}"
proof -
  have t: "tree_inv root (fdb_index db)" using inv r by (auto simp: fdb_inv_def)
  note B1 = in_tree_block_or_root [OF t b(1)] and B2 = in_tree_block_or_root [OF t b(2)]
  from walk_down_spec [OF t in_tree_root_le [OF t B2(1)] B1(1), of "[]"] obtain c1 cs1 where
    w1: "walk_down db root (bhs_block_num b2) b1 [] = Some (Inr (c1, cs1))" "path db i cs1 (bhs_id c1)" "in_tree root db c1"
      "bhs_block_num c1 = min (bhs_block_num b2) (bhs_block_num b1)" "\<forall>x \<in> set cs1. bhs_block_num b2 < bhs_block_num x"
    using B1(2) by auto
  from walk_down_spec [OF t in_tree_root_le [OF t w1(3)] B2(1), of "[]"] obtain c2 cs2 where
    w2: "walk_down db root (bhs_block_num c1) b2 [] = Some (Inr (c2, cs2))" "path db j cs2 (bhs_id c2)" "in_tree root db c2"
      "bhs_block_num c2 = bhs_block_num c1" "\<forall>x \<in> set cs2. bhs_block_num c1 < bhs_block_num x"
    using B2(2) w1(4) by (auto simp: min_def split: if_splits)
  have apart: "set cs1 \<inter> set bs = {}" if "path db j bs a" for bs a
    using path_nums [OF t that] w1(5) B2(3) by (fastforce simp: word_less_nat_alt)
  show ?thesis
  proof (cases "bhs_id c1 = bhs_id c2")
    case True
    then show ?thesis using r b w1(1,2) w2(1,2) apart [OF w2(2)]
      by (intro exI [of _ "bhs_id c2"] exI [of _ cs1] exI [of _ cs2]) (simp add: fetch_branch_from_def)
  next
    case False
    note c = in_tree_distinct_above [OF t w1(3) w2(3) w2(4) [symmetric] False]
    from walk_both_spec [OF t c w2(4) [symmetric] False, of cs1 cs2] obtain a ds1 ds2 where
      w: "walk_both db c1 c2 cs1 cs2 = Some (Inr (cs1 @ ds1, cs2 @ ds2))" "path db (bhs_id c1) ds1 a"
        "path db (bhs_id c2) ds2 a" "set ds1 \<inter> set ds2 = {}" by blast
    have paths: "path db i (cs1 @ ds1) a" "path db j (cs2 @ ds2) a"
      using w1(2) w2(2) w(2,3) by (auto simp: path_append)
    have "set ds1 \<inter> set cs2 = {}"
      using path_nums [OF t w(2)] w2(5) c(1) t by (fastforce simp: word_less_nat_alt tree_inv_def block_ok_def)
    with apart [OF paths(2)] w(4) have "set (cs1 @ ds1) \<inter> set (cs2 @ ds2) = {}" by auto
    with paths show ?thesis using r b w1(1) w2(1) w(1) False
      by (intro exI [of _ a] exI [of _ "cs1 @ ds1"] exI [of _ "cs2 @ ds2"]) (simp add: fetch_branch_from_def)
  qed
qed

lemma fetch_branch_from_missing:
  assumes "fdb_root db = Some root" and "block_or_root db root i = None \<or> block_or_root db root j = None"
  shows "fetch_branch_from i j db = Some (Inl fork_db_block_not_found)"
  using assms by (auto simp: fetch_branch_from_def split: option.splits)

section \<open>The life of a fork database\<close>

text \<open>
  A node starts from an irreversible header state, receives headers that pass the checks of
  \<^verbatim>\<open>block_header_state::next\<close> on top of a known block, marks blocks valid, removes invalid branches,
  advances the root and may return to it.
\<close>

inductive fork_run ::
  "(bytes \<Rightarrow> digest_type) \<Rightarrow> key_recovery \<Rightarrow> protocol_feature_set \<Rightarrow> feature_validator \<Rightarrow> fork_database \<Rightarrow> bool"
  for sha recover pfs validator where
  start: "header_state_inv s \<Longrightarrow> fork_run sha recover pfs validator (fdb_reset s)"
| received: "fork_run sha recover pfs validator db \<Longrightarrow> get_block_header db (bh_previous h) = Inr (Some prev)
    \<Longrightarrow> bhs_block_num prev \<noteq> - 1 \<Longrightarrow> bhs_next sha recover h sigs pfs validator skip (block_core prev) = Inr s
    \<Longrightarrow> fdb_add (block_header_state.extend s \<lparr>bst_validated = False\<rparr>) ignore_duplicate db = Inr db'
    \<Longrightarrow> fork_run sha recover pfs validator db'"
| validated: "fork_run sha recover pfs validator db \<Longrightarrow> mark_valid b db = Inr db'
    \<Longrightarrow> fork_run sha recover pfs validator db'"
| removed: "fork_run sha recover pfs validator db \<Longrightarrow> remove_impl i db = Some (Inr db')
    \<Longrightarrow> fork_run sha recover pfs validator db'"
| advanced: "fork_run sha recover pfs validator db \<Longrightarrow> advance_root i db = Some (None, db')
    \<Longrightarrow> fork_run sha recover pfs validator db'"
| rolled_back: "fork_run sha recover pfs validator db
    \<Longrightarrow> fork_run sha recover pfs validator (rollback_head_to_root db)"

definition headers_inv :: "fork_database \<Rightarrow> bool" where
  "headers_inv db \<longleftrightarrow> (\<forall>b \<in> set_option (fdb_root db) \<union> set (fdb_index db). header_state_inv (block_core b))"

lemma block_core_extend [simp]: "block_core (block_header_state.extend s x) = s"
  by (simp add: block_header_state.defs)

lemma extend_fields [simp]:
  "bhs_id (block_header_state.extend s x) = bhs_id s" "bhs_header (block_header_state.extend s x) = bhs_header s"
  "bhs_block_num (block_header_state.extend s x) = bhs_block_num s"
  "bhs_dpos_irreversible_blocknum (block_header_state.extend s x) = bhs_dpos_irreversible_blocknum s"
  "bst_validated (block_header_state.extend s \<lparr>bst_validated = v\<rparr>) = v"
  by (simp_all add: block_header_state.defs)

lemma core_fields [simp]:
  "bhs_id (block_core b) = bhs_id b" "bhs_header (block_core b) = bhs_header b"
  "bhs_block_num (block_core b) = bhs_block_num b"
  "bhs_dpos_irreversible_blocknum (block_core b) = bhs_dpos_irreversible_blocknum b"
  by (simp_all add: block_header_state.defs)

lemma next_block_ok:
  assumes "bhs_next sha recover h sigs pfs validator skip (block_core prev) = Inr s"
    and "header_state_inv (block_core prev)" and "bhs_block_num prev \<noteq> - 1"
  shows "block_ok s" "header_state_inv s" "bh_previous (bhs_header s) = bhs_id prev" "bhs_header s = h"
    "bhs_block_num s = bhs_block_num prev + 1"
proof -
  show inv: "header_state_inv s" using bhs_next_inv(1) [OF assms(1,2)] assms(3) by simp
  from bhs_next_cases [OF assms(1)] have i: "bhs_header s = h" "calculate_id sha h = Inr (bhs_id s)" "bh_previous h = bhs_id prev"
    by auto
  then show "bh_previous (bhs_header s) = bhs_id prev" "bhs_header s = h" by simp_all
  have n: "bhs_block_num s = num_from_id (bhs_id prev) + 1" "num_from_id (bhs_id s) = bhs_block_num s"
    "num_from_id (bhs_id prev) = bhs_block_num prev"
    using inv assms(2) num_from_calculated_id [OF i(2)] i(3) by (auto simp: header_state_inv_def block_num_def)
  then show "bhs_block_num s = bhs_block_num prev + 1" by simp
  from n show "block_ok s" using i unat_plus_1 [OF assms(3)] by (simp add: block_ok_def)
qed

lemma remove_impl_inv:
  assumes inv: "fdb_inv db" and rem: "remove_impl i db = Some (Inr db')"
  shows "fdb_inv db' \<and> fdb_root db' = fdb_root db \<and> set (fdb_index db') \<subseteq> set (fdb_index db)"
proof -
  from inv obtain root head where r: "fdb_root db = Some root" "fdb_head db = Some head"
    and t: "tree_inv root (fdb_index db)" and h: "head_inv root head (fdb_index db)" by (auto simp: fdb_inv_def)
  let ?J = "filter (\<lambda>b. bhs_id b \<notin> subtree (fdb_index db) i) (fdb_index db)"
  from remove_impl_scan [OF tree_inv_index_ok [OF t] r(2), of i] rem
  have out: "bhs_id head \<notin> subtree (fdb_index db) i" and db': "db' = db\<lparr>fdb_index := ?J\<rparr>" by (auto split: if_splits)
  have "prev_id b = bhs_id root \<or> (\<exists>p \<in> set ?J. bhs_id p = prev_id b)" if b: "b \<in> set ?J" for b
  proof -
    have out: "prev_id b \<notin> subtree (fdb_index db) i" using b by (auto dest: subtree.child)
    show ?thesis
    proof (cases "prev_id b = bhs_id root")
      case False
      then obtain p where "p \<in> set (fdb_index db)" "bhs_id p = prev_id b" using b t by (auto simp: tree_inv_def)
      then show ?thesis using out by (intro disjI2 bexI [of _ p]) simp_all
    qed simp
  qed
  then have "tree_inv root ?J" using t unfolding tree_inv_def by (auto simp: distinct_map_filter)
  moreover have "bhs_id b \<notin> subtree (fdb_index db) i" if "block_core b = block_core head" for b
    using out block_core_eqD(1) [OF that] by simp
  then have "head_inv root head ?J" using h unfolding head_inv_def by auto
  ultimately show ?thesis using r db' by (auto simp: fdb_inv_def)
qed

lemma add_impl_index:
  assumes "add_impl n ig v validator db = Inr db'"
  shows "fdb_root db' = fdb_root db \<and> set (fdb_index db') \<subseteq> insert n (set (fdb_index db))"
  using assms by (auto simp: add_impl_def ebind_Inr_iff Let_def split: if_splits option.splits)

lemma mark_valid_index:
  assumes "mark_valid h db = Inr db'"
  shows "fdb_root db' = fdb_root db \<and> map block_core (fdb_index db') = map block_core (fdb_index db)"
proof -
  have "block_core (if P b then b\<lparr>bst_validated := True\<rparr> else b) = block_core b" for P b by simp
  then show ?thesis using assms
    by (auto simp: mark_valid_def ebind_Inr_iff Let_def split: if_splits option.splits prod.splits)
qed

lemma advance_root_ok:
  assumes inv: "fdb_inv db" and adv: "advance_root i db = Some (None, db')"
  shows "fdb_inv db' \<and> (\<exists>n. get_block db i = Some n \<and> fdb_root db' = Some n) \<and> set (fdb_index db') \<subseteq> set (fdb_index db)"
proof -
  obtain n where n: "get_block db i = Some n" "bst_validated n"
    using adv advance_root_fails [of db i] by fastforce
  obtain head where h: "fdb_head db = Some head" using inv by (auto simp: fdb_inv_def)
  from advance_root_step [OF inv h n] adv have H: "bhs_id head \<in> subtree (fdb_index db) i"
    and db': "db' = db\<lparr>fdb_root := Some n,
      fdb_index := filter (\<lambda>b. bhs_id b \<in> subtree (fdb_index db) i \<and> bhs_id b \<noteq> i) (fdb_index db)\<rparr>"
    by (auto split: if_splits)
  from advance_root_inv [OF inv h H n(1)] n(1) db' show ?thesis by auto
qed

lemma get_block_header_mem:
  "get_block_header db i = Inr (Some b) \<Longrightarrow> b \<in> set_option (fdb_root db) \<union> set (fdb_index db) \<and> bhs_id b = i"
  by (auto simp: get_block_header_def dest: get_block_SomeD split: option.splits if_splits)

lemma fork_run_inv:
  assumes "fork_run sha recover pfs validator db"
  shows "fdb_inv db \<and> headers_inv db"
  using assms
proof (induction rule: fork_run.induct)
  case (start s)
  then have "headers_inv (fdb_reset s)" by (simp add: headers_inv_def fdb_reset_def Let_def)
  with start show ?case by (simp add: reset_inv header_state_inv_def)
next
  case (received db h prev sigs skip s ig db')
  have prev: "header_state_inv (block_core prev)"
    using get_block_header_mem [OF received.hyps(2)] received.IH by (auto simp: headers_inv_def)
  note n = next_block_ok [OF received.hyps(4) prev received.hyps(3)]
  let ?n = "block_header_state.extend s \<lparr>bst_validated = False\<rparr>"
  have add: "add_impl ?n ig False (\<lambda>_ _ _. Inr ()) db = Inr db'" using received.hyps(5) by (simp add: fdb_add_def)
  have "block_ok ?n" using n(1) by (simp add: block_ok_def)
  with add_impl_inv [OF add] received.IH have "fdb_inv db'" by blast
  moreover have "headers_inv db'"
    using add_impl_index [OF add] received.IH n(2) unfolding headers_inv_def by fastforce
  ultimately show ?case ..
next
  case (validated db b db')
  have "header_state_inv (block_core c)" if "c \<in> set (fdb_index db')" for c
  proof -
    from that mark_valid_index [OF validated.hyps(2)] obtain d where "d \<in> set (fdb_index db)" "block_core c = block_core d"
      by (metis (no_types, lifting) imageE imageI list.set_map)
    with validated.IH show ?thesis by (simp add: headers_inv_def)
  qed
  with validated mark_valid_inv [OF validated.hyps(2)] mark_valid_index [OF validated.hyps(2)]
  show ?case by (auto simp: headers_inv_def)
next
  case (removed db i db')
  then show ?case using remove_impl_inv [OF _ removed.hyps(2)] by (auto simp: headers_inv_def)
next
  case (advanced db i db')
  then show ?case using advance_root_ok [OF _ advanced.hyps(2)]
    by (auto simp: headers_inv_def dest: get_block_SomeD)
next
  case (rolled_back db)
  then have "headers_inv (rollback_head_to_root db)" by (auto simp: headers_inv_def rollback_head_to_root_def)
  with rolled_back show ?case by (simp add: rollback_inv)
qed

text \<open>A block that builds on the head with no lower irreversible block is preferred over every valid block.\<close>

lemma best_is_preferred:
  assumes "by_lib_begin bs = Some c" and "n \<in> set bs" and "bst_validated n"
    and "\<And>b. b \<in> set bs \<Longrightarrow> bst_validated b \<Longrightarrow> b \<noteq> n \<Longrightarrow> first_preferred n b"
  shows "c = n"
proof (rule ccontr)
  assume "c \<noteq> n"
  from by_lib_begin_least [OF assms(1)] assms(2) have c: "c \<in> set bs" "by_lib_key c \<le> by_lib_key n" by simp_all
  then have "bst_validated c" using valid_key assms(3) by blast
  with assms(4) [OF c(1) _ \<open>c \<noteq> n\<close>] not_preferred_key [OF c(2)] assms(3) show False by simp
qed

lemma preferred_trans: "first_preferred a b \<Longrightarrow> \<not> first_preferred c b \<Longrightarrow> first_preferred a c"
  unfolding first_preferred_def not_less by (rule order_le_less_trans)

lemma add_next_block:
  assumes inv: "fdb_inv db" and head: "fdb_head db = Some head" and new: "get_block db (bhs_id n) = None"
    and prev: "prev_id n = bhs_id head"
  shows "\<exists>h. fdb_add n ig db = Inr (db\<lparr>fdb_index := fdb_index db @ [n], fdb_head := Some h\<rparr>)
    \<and> (h = head \<or> h \<in> set (fdb_index db @ [n]) \<and> bst_validated h)"
proof -
  from inv head obtain root where r: "fdb_root db = Some root" by (auto simp: fdb_inv_def)
  have "get_block db (bhs_id head) \<noteq> None" if "bhs_id head \<noteq> bhs_id root"
    using head_in_index [OF inv r head] that by (auto simp: get_block_None dest: block_core_eqD(1) [symmetric])
  then obtain p where p: "get_block_header db (prev_id n) = Inr (Some p)"
    using r prev by (cases "bhs_id head = bhs_id root") (auto simp: get_block_header_def)
  obtain c where c: "by_lib_begin (fdb_index db @ [n]) = Some c"
    by (cases "by_lib_begin (fdb_index db @ [n])") simp_all
  then have cm: "c \<in> set (fdb_index db @ [n])" using by_lib_begin_least by blast
  have "fdb_add n ig db = Inr (if bst_validated c then db\<lparr>fdb_index := fdb_index db @ [n], fdb_head := Some c\<rparr>
      else db\<lparr>fdb_index := fdb_index db @ [n]\<rparr>)"
    using r p new c by (simp add: fdb_add_def add_impl_def)
  moreover have "db\<lparr>fdb_index := x\<rparr> = db\<lparr>fdb_index := x, fdb_head := Some head\<rparr>" for x
    using head by (cases db) simp
  ultimately show ?thesis using cm by (cases "bst_validated c") auto
qed

lemma produced_block_head:
  assumes inv: "fdb_inv db" and head: "fdb_head db = Some head" and new: "get_block db (bhs_id n) = None"
    and prev: "prev_id n = bhs_id head" and "\<not> bst_validated n"
    and lib: "bhs_dpos_irreversible_blocknum head \<le> bhs_dpos_irreversible_blocknum n"
    and num: "bhs_block_num head < bhs_block_num n"
  shows "\<exists>db1 db2. fdb_add n ig db = Inr db1 \<and> mark_valid n db1 = Inr db2
    \<and> fdb_head db2 = Some (n\<lparr>bst_validated := True\<rparr>) \<and> fdb_index db2 = fdb_index db @ [n\<lparr>bst_validated := True\<rparr>]"
proof -
  let ?n = "n\<lparr>bst_validated := True\<rparr>"
  let ?f = "\<lambda>b. if bhs_id b = bhs_id n then b\<lparr>bst_validated := True\<rparr> else b"
  from add_next_block [OF assms(1-4), of ig] obtain h where
    add: "fdb_add n ig db = Inr (db\<lparr>fdb_index := fdb_index db @ [n], fdb_head := Some h\<rparr>)" (is "_ = Inr ?db1")
    and h: "h = head \<or> h \<in> set (fdb_index db @ [n]) \<and> bst_validated h" by blast
  have "map ?f (fdb_index db) = fdb_index db" using new by (intro map_idI) (metis get_block_None imageI)
  then have idx: "map ?f (fdb_index ?db1) = fdb_index db @ [?n]" by simp
  have nh: "first_preferred ?n head" using lib num by (auto simp: first_preferred_def less_prod_def word_le_less_eq)
  have other: "first_preferred ?n b" if "b \<in> set (fdb_index db)" "bst_validated b" for b
    using preferred_trans [OF nh] that inv head by (auto simp: fdb_inv_def head_inv_def)
  obtain c where c: "by_lib_begin (fdb_index db @ [?n]) = Some c"
    by (cases "by_lib_begin (fdb_index db @ [?n])") simp_all
  have "c = ?n" by (rule best_is_preferred [OF c]) (use other in auto)
  moreover have "first_preferred ?n h" using h nh other assms(5) by auto
  moreover have "get_block ?db1 (bhs_id n) \<noteq> None" by (auto simp: get_block_None)
  ultimately have "mark_valid n ?db1 = Inr (?db1\<lparr>fdb_index := fdb_index db @ [?n], fdb_head := Some ?n\<rparr>)"
    using assms(5) c unfolding mark_valid_def idx by (simp add: Let_def)
  with add show ?thesis by simp
qed

lemma fork_run_next_block:
  assumes run: "fork_run sha recover pfs validator db" and head: "fdb_head db = Some head"
    and next_ok: "bhs_next sha recover h sigs pfs validator skip (block_core head) = Inr s"
    and small: "bhs_block_num head \<noteq> - 1" and backed: "lib_backed head" and new: "get_block db (bhs_id s) = None"
  shows "\<exists>db1 db2. fdb_add (block_header_state.extend s \<lparr>bst_validated = False\<rparr>) ig db = Inr db1
    \<and> mark_valid (block_header_state.extend s \<lparr>bst_validated = False\<rparr>) db1 = Inr db2
    \<and> fdb_head db2 = Some (block_header_state.extend s \<lparr>bst_validated = True\<rparr>)
    \<and> fdb_index db2 = fdb_index db @ [block_header_state.extend s \<lparr>bst_validated = True\<rparr>]
    \<and> fork_run sha recover pfs validator db2"
proof -
  let ?n = "block_header_state.extend s \<lparr>bst_validated = False\<rparr>"
  from fork_run_inv [OF run] have inv: "fdb_inv db" "headers_inv db" by simp_all
  from inv(1) head obtain root where r: "fdb_root db = Some root" and t: "tree_inv root (fdb_index db)"
    and hi: "head_inv root head (fdb_index db)" by (auto simp: fdb_inv_def)
  from hi r have "\<exists>b \<in> set_option (fdb_root db) \<union> set (fdb_index db). block_core b = block_core head"
    by (fastforce simp: head_inv_def)
  then obtain b where b: "b \<in> set_option (fdb_root db) \<union> set (fdb_index db)" "block_core b = block_core head" ..
  with inv(2) have hinv: "header_state_inv (block_core head)" unfolding headers_inv_def by metis
  note n = next_block_ok [OF next_ok hinv small]
  have "lib_backed (block_core head)" using backed by (simp add: lib_backed_def block_header_state.defs)
  from bhs_next_inv(3) [OF next_ok hinv _ this] small have lib: "bhs_dpos_irreversible_blocknum head \<le> bhs_dpos_irreversible_blocknum s" by simp
  have num: "bhs_block_num head < bhs_block_num s" using n(5) unat_plus_1 [OF small] by (simp add: word_less_nat_alt)
  from produced_block_head [OF inv(1) head, of ?n ig] new n(3) lib num obtain db1 db2 where
    add: "fdb_add ?n ig db = Inr db1" and mark: "mark_valid ?n db1 = Inr db2"
    and res: "fdb_head db2 = Some (?n\<lparr>bst_validated := True\<rparr>)" "fdb_index db2 = fdb_index db @ [?n\<lparr>bst_validated := True\<rparr>]"
    by auto
  have up: "?n\<lparr>bst_validated := True\<rparr> = block_header_state.extend s \<lparr>bst_validated = True\<rparr>"
    by (simp add: block_header_state.defs)
  have id: "bhs_id b = bhs_id head" "bhs_block_num b = bhs_block_num head" using block_core_eqD [OF b(2)] by simp_all
  have "get_block_header db (bh_previous h) = Inr (Some b)"
  proof (cases "b \<in> set (fdb_index db)")
    case True
    then have "bhs_id b \<noteq> bhs_id root" using tree_inv_root [OF t] by (metis imageI)
    moreover have "get_block db (bhs_id b) = Some b" using get_block_member t True by (simp add: tree_inv_def)
    ultimately show ?thesis using r id(1) n(3,4) by (simp add: get_block_header_def)
  next
    case False
    with b(1) r id(1) n(3,4) show ?thesis by (simp add: get_block_header_def)
  qed
  from fork_run.received [OF run this _ next_ok [folded b(2)] add] small id(2) have "fork_run sha recover pfs validator db1" by simp
  from fork_run.validated [OF this mark] add mark res show ?thesis unfolding up by blast
qed

text \<open>A database with a valid block on top of its root, from the sample chain.\<close>

lemma sample_fork:
  "\<exists>db head. fork_run sample_sha sample_recover empty_protocol_feature_set sample_validator db
     \<and> fdb_head db = Some head \<and> bst_validated head \<and> get_block db (bhs_id head) = Some head"
proof -
  obtain s where s: "genesis_state sample_sha \<lparr>slot = 1\<rparr> zero_digest (K1_key (replicate 33 0)) = Inr s"
    using sample_genesis by blast
  note g = genesis_inv [OF s]
  obtain s' where s': "bhs_next sample_sha sample_recover sample_block_header [] empty_protocol_feature_set
      sample_validator True s = Inr s'" using sample_block [OF s] by blast
  have "fdb_head (fdb_reset s) = Some (block_header_state.extend s \<lparr>bst_validated = True\<rparr>)" by (simp add: fdb_reset_def Let_def)
  note step = fork_run_next_block [OF fork_run.start [OF g(1)] this, of sample_sha sample_recover sample_block_header
      "[]" empty_protocol_feature_set sample_validator True s']
  have "lib_backed (block_header_state.extend s \<lparr>bst_validated = True\<rparr>)" "get_block (fdb_reset s) (bhs_id s') = None"
    using g by (simp_all add: fdb_reset_def get_block_def Let_def lib_backed_def block_header_state.defs)
  with step s' g(2) obtain db where db: "fdb_head db = Some (block_header_state.extend s' \<lparr>bst_validated = True\<rparr>)"
    "fdb_index db = fdb_index (fdb_reset s) @ [block_header_state.extend s' \<lparr>bst_validated = True\<rparr>]"
    "fork_run sample_sha sample_recover empty_protocol_feature_set sample_validator db"
    by auto
  moreover have "fdb_index (fdb_reset s) = []" by (simp add: fdb_reset_def Let_def)
  ultimately show ?thesis by (intro exI [of _ db]) (simp add: get_block_def)
qed

section \<open>Properties\<close>

text \<open>C2. In every state a node can reach, the fork database is a tree over its root whose blocks are numbered
  one above their parents, its head is the root or a valid block, no valid block is preferred over the
  head, and every header state in it satisfies the invariant of the header states.\<close>

theorem fork_database_invariant:
  assumes "fork_run sha recover pfs validator db"
  shows "fdb_inv db \<and> headers_inv db"
  by (rule fork_run_inv [OF assms])

theorem fork_database_invariant_witness:
  "\<exists>db head. fork_run sample_sha sample_recover empty_protocol_feature_set sample_validator db
     \<and> get_block db (bhs_id head) = Some head \<and> fdb_inv db \<and> headers_inv db"
  using sample_fork fork_database_invariant by blast

text \<open>C9. The loops of the fork database end: in every reachable state, for all arguments, removing a
  block, advancing the root and walking one or two branches return a result or an exception.\<close>

theorem fork_loops_end:
  assumes "fork_run sha recover pfs validator db"
  shows "remove_impl i db \<noteq> None \<and> advance_root i db \<noteq> None \<and> fetch_branch i k db \<noteq> None
    \<and> search_on_branch i k db \<noteq> None \<and> fetch_branch_from i j db \<noteq> None"
proof -
  from fork_run_inv [OF assms] have inv: "fdb_inv db" by simp
  then obtain root head where r: "fdb_root db = Some root" "fdb_head db = Some head"
    and t: "tree_inv root (fdb_index db)" by (auto simp: fdb_inv_def)
  have "advance_root i db \<noteq> None"
  proof (cases "\<exists>n. get_block db i = Some n \<and> bst_validated n")
    case True
    then obtain n where "get_block db i = Some n" "bst_validated n" by blast
    from advance_root_step [OF inv r(2) this] show ?thesis by (auto split: if_splits)
  next
    case False
    then show ?thesis using advance_root_fails [of db i] by (cases "get_block db i") auto
  qed
  moreover have "fetch_branch_from i j db \<noteq> None"
  proof (cases "block_or_root db root i = None \<or> block_or_root db root j = None")
    case False
    then obtain b c where "block_or_root db root i = Some b" "block_or_root db root j = Some c" by auto
    from fetch_branch_from_spec [OF inv r(1) this] show ?thesis by auto
  qed (simp add: fetch_branch_from_missing [OF r(1)])
  ultimately show ?thesis
    using remove_impl_scan [OF tree_inv_index_ok [OF t] r(2), of i] fetch_branch_spec [OF inv r(1), of i k] by auto
qed

theorem fork_loops_end_witness:
  "\<exists>db head. fork_run sample_sha sample_recover empty_protocol_feature_set sample_validator db
     \<and> get_block db (bhs_id head) = Some head \<and> advance_root (bhs_id head) db \<noteq> None
     \<and> fetch_branch_from (bhs_id head) zero_digest db \<noteq> None"
  using sample_fork fork_loops_end by blast

text \<open>C7. \<^verbatim>\<open>advance_root\<close> succeeds exactly when the block is known, valid and the head builds on it. It then
  becomes the root, the blocks that remain are exactly those that build on it, and the database is a
  tree again; otherwise it throws.\<close>

theorem advance_root_exact:
  assumes "fdb_inv db" and "fdb_head db = Some head"
  shows "case get_block db i of
      None \<Rightarrow> advance_root i db = Some (Some fork_database_exception, db)
    | Some n \<Rightarrow>
        if bst_validated n \<and> bhs_id head \<in> subtree (fdb_index db) i
        then \<exists>db'. advance_root i db = Some (None, db') \<and> fdb_inv db' \<and> fdb_root db' = Some n \<and> fdb_head db' = Some head
               \<and> fdb_index db' = filter (\<lambda>b. bhs_id b \<in> subtree (fdb_index db) i \<and> bhs_id b \<noteq> i) (fdb_index db)
        else \<exists>db'. advance_root i db = Some (Some fork_database_exception, db')"
proof (cases "get_block db i")
  case None
  then show ?thesis by (simp add: advance_root_fails)
next
  case (Some n)
  show ?thesis
  proof (cases "bst_validated n")
    case True
    from advance_root_step [OF assms Some True] advance_root_inv [OF assms _ Some] Some True assms(2)
    show ?thesis by simp
  next
    case False
    with Some show ?thesis by (simp add: advance_root_fails)
  qed
qed

theorem advance_root_exact_witness:
  "\<exists>db db' head. get_block db (bhs_id head) = Some head \<and> advance_root (bhs_id head) db = Some (None, db') \<and> fdb_root db' = Some head"
proof -
  obtain db head where f: "fdb_head db = Some head" "bst_validated head" "get_block db (bhs_id head) = Some head"
    and "fdb_inv db" using sample_fork fork_run_inv by blast
  with advance_root_exact [OF this(4) f(1), of "bhs_id head"] show ?thesis
    using subtree.start [of "bhs_id head" "fdb_index db"] by auto
qed

text \<open>C8. \<^verbatim>\<open>fetch_branch_from\<close> returns, for two known blocks, the two branches down to a common ancestor: each is
  linked by the parent ids from its block to the ancestor, and they share no block. For an unknown
  block it throws.\<close>

theorem branches_join:
  assumes "fdb_inv db" and "fdb_root db = Some root"
  shows "if block_or_root db root i = None \<or> block_or_root db root j = None
    then fetch_branch_from i j db = Some (Inl fork_db_block_not_found)
    else \<exists>a bs1 bs2. fetch_branch_from i j db = Some (Inr (bs1, bs2)) \<and> path db i bs1 a \<and> path db j bs2 a
           \<and> set bs1 \<inter> set bs2 = {}"
  using fetch_branch_from_missing [OF assms(2), of i j] fetch_branch_from_spec [OF assms, of i _ j] by auto

theorem branches_join_witness:
  "\<exists>db (root :: block_state) head bs1 bs2 a. get_block db (bhs_id head) = Some head
     \<and> fetch_branch_from (bhs_id head) (bhs_id root) db = Some (Inr (bs1, bs2))
     \<and> path db (bhs_id head) bs1 a \<and> path db (bhs_id root) bs2 a"
proof -
  obtain db head where f: "get_block db (bhs_id head) = Some head" and inv: "fdb_inv db"
    using sample_fork fork_run_inv by blast
  then obtain root where r: "fdb_root db = Some root" by (auto simp: fdb_inv_def)
  with f have "block_or_root db root (bhs_id head) \<noteq> None" "block_or_root db root (bhs_id root) \<noteq> None"
    by (simp_all add: block_or_root_def)
  with branches_join [OF inv r, of "bhs_id head" "bhs_id root"] have
    "\<exists>a bs1 bs2. fetch_branch_from (bhs_id head) (bhs_id root) db = Some (Inr (bs1, bs2))
       \<and> path db (bhs_id head) bs1 a \<and> path db (bhs_id root) bs2 a" by auto
  with f show ?thesis by blast
qed

text \<open>C10. In a reachable fork database whose head has its irreversible block backed by more than two thirds of the
  producers, a new block that passes the header checks on top of the head becomes the new head: adding it
  and marking it valid succeed, and the fork database prefers it over all other blocks, as
  \<^verbatim>\<open>commit_block\<close> asserts. The condition on the head is not an invariant: promoting a pending schedule can
  undo it. The number of the head is not the greatest of 32 bits.\<close>

theorem next_block_becomes_head:
  assumes "fork_run sha recover pfs validator db" and "fdb_head db = Some head"
    and "bhs_next sha recover h sigs pfs validator skip (block_core head) = Inr s"
    and "bhs_block_num head \<noteq> - 1" and "lib_backed head" and "get_block db (bhs_id s) = None"
  shows "\<exists>db1 db2. fdb_add (block_header_state.extend s \<lparr>bst_validated = False\<rparr>) ignore_duplicate db = Inr db1
    \<and> mark_valid (block_header_state.extend s \<lparr>bst_validated = False\<rparr>) db1 = Inr db2
    \<and> fdb_head db2 = Some (block_header_state.extend s \<lparr>bst_validated = True\<rparr>)"
  using fork_run_next_block [OF assms, of ignore_duplicate] by blast

theorem next_block_becomes_head_witness:
  "\<exists>s db1 db2 head. fdb_add (block_header_state.extend s \<lparr>bst_validated = False\<rparr>) False db1 = Inr db2
    \<and> fdb_head db1 = Some head \<and> bhs_next sample_sha sample_recover sample_block_header [] empty_protocol_feature_set
      sample_validator True (block_core head) = Inr s"
proof -
  obtain s where s: "genesis_state sample_sha \<lparr>slot = 1\<rparr> zero_digest (K1_key (replicate 33 0)) = Inr s"
    using sample_genesis by blast
  note g = genesis_inv [OF s]
  obtain s' where s': "bhs_next sample_sha sample_recover sample_block_header [] empty_protocol_feature_set
      sample_validator True s = Inr s'" using sample_block [OF s] by blast
  have head: "fdb_head (fdb_reset s) = Some (block_header_state.extend s \<lparr>bst_validated = True\<rparr>)"
    by (simp add: fdb_reset_def Let_def)
  have "lib_backed (block_header_state.extend s \<lparr>bst_validated = True\<rparr>)" "get_block (fdb_reset s) (bhs_id s') = None"
    using g by (simp_all add: fdb_reset_def get_block_def Let_def lib_backed_def block_header_state.defs)
  with next_block_becomes_head [OF fork_run.start [OF g(1)] head, of sample_sha sample_recover sample_block_header
      "[]" empty_protocol_feature_set sample_validator True s' False] s' g(2) head
  have "\<exists>db2. fdb_add (block_header_state.extend s' \<lparr>bst_validated = False\<rparr>) False (fdb_reset s) = Inr db2" by auto
  with head s' block_core_extend [of s "\<lparr>bst_validated = True\<rparr>"] show ?thesis by metis
qed

end
