(* ===== verification/Fork_Switch.thy ===== *)
theory Fork_Switch
  imports Fork_Tree
begin

text \<open>
  Switching forks (src/libraries/chain/controller.cpp): how the controller keeps its head, its database
  and its protocol features in step with the fork database. A block is applied on top of the head inside
  an undo session; a better branch is applied after the blocks of the old branch have been popped, and
  when one of its blocks fails the old branch is restored. Blocks that have become irreversible are
  moved to the block log.

  The chain database (a library outside the repository) and the execution of transactions are
  parameters, collected in the record \<open>node\<close>.
\<close>

section \<open>Steps that may throw\<close>

text \<open>
  A step changes the state, also when it throws; \<open>None\<close> is a loop that does not end.
\<close>

type_synonym ('s, 'a) cmd = "'s \<Rightarrow> (('a result) \<times> 's) option"

definition cret :: "'a \<Rightarrow> ('s, 'a) cmd" where
  "cret a = (\<lambda>c. Some (Inr a, c))"

definition cbind :: "('s, 'a) cmd \<Rightarrow> ('a \<Rightarrow> ('s, 'b) cmd) \<Rightarrow> ('s, 'b) cmd" where
  "cbind m f = (\<lambda>c. case m c of
       None \<Rightarrow> None
     | Some (Inl e, c) \<Rightarrow> Some (Inl e, c)
     | Some (Inr a, c) \<Rightarrow> f a c)"

definition ccatch :: "('s, 'a) cmd \<Rightarrow> (chain_error \<Rightarrow> ('s, 'a) cmd) \<Rightarrow> ('s, 'a) cmd" where
  "ccatch m h = (\<lambda>c. case m c of
       None \<Rightarrow> None
     | Some (Inl e, c) \<Rightarrow> h e c
     | Some (Inr a, c) \<Rightarrow> Some (Inr a, c))"

definition cresult :: "('s \<Rightarrow> 'a result) \<Rightarrow> ('s, 'a) cmd" where
  "cresult f = (\<lambda>c. Some (f c, c))"

definition cthrow :: "chain_error \<Rightarrow> ('s, 'a) cmd" where
  "cthrow e = cresult (\<lambda>_. Inl e)"

definition cassert :: "('s \<Rightarrow> bool) \<Rightarrow> chain_error \<Rightarrow> ('s, unit) cmd" where
  "cassert p e = cresult (\<lambda>c. sys_assert (p c) e)"

text \<open>A scope exit: the clean-up runs when the step throws.\<close>

definition cguard :: "('s, unit) cmd \<Rightarrow> ('s, 'a) cmd \<Rightarrow> ('s, 'a) cmd" where
  "cguard cleanup m = ccatch m (\<lambda>e. cbind cleanup (\<lambda>_. cthrow e))"

section \<open>The controller\<close>

datatype block_status = irreversible_block | validated_block | complete_block | incomplete_block | ephemeral_block

record 'd controller_state =
  ctl_head :: block_header_state
  ctl_db :: 'd
  ctl_features :: protocol_feature_manager
  ctl_fork_db :: fork_database
  ctl_blog :: "block_state list"

text \<open>
  The parameters: the hash function; the revision of the database, opening a session, undoing and
  committing; the pre-activated features stored in it, recording the activations of a block and the
  handler of an activated builtin; the execution of the transactions of a block up to the comparison of
  the assembled block with the received one; whether a block body is present (it is not for a head
  loaded from a snapshot); an append to the block log that throws, and the first block number of an
  empty log; whether the node runs in irreversible mode; the option that keeps the checks during replay,
  and whether a transaction that requires checks is being run.
\<close>

record 'd node =
  nd_sha :: "bytes \<Rightarrow> digest_type"
  nd_revision :: "'d \<Rightarrow> u32"
  nd_session :: "'d \<Rightarrow> 'd"
  nd_undo :: "'d \<Rightarrow> 'd"
  nd_commit :: "u32 \<Rightarrow> 'd \<Rightarrow> 'd"
  nd_preactivated :: "'d \<Rightarrow> digest_type list"
  nd_record_activations :: "digest_type list \<Rightarrow> u32 \<Rightarrow> 'd \<Rightarrow> 'd"
  nd_on_activation :: "builtin_protocol_feature_t \<Rightarrow> 'd \<Rightarrow> 'd result"
  nd_execute :: "block_state \<Rightarrow> block_status \<Rightarrow> pending_block_header_state \<Rightarrow> 'd \<Rightarrow> 'd result"
  nd_has_block :: "block_id_type \<Rightarrow> bool"
  nd_append_error :: "block_state \<Rightarrow> chain_error option"
  nd_first_block_num :: u32
  nd_irreversible_mode :: bool
  nd_disable_replay_opts :: bool
  nd_in_trx_requiring_checks :: bool

definition cdb :: "('d \<Rightarrow> 'd result) \<Rightarrow> ('d controller_state, unit) cmd" where
  "cdb f = (\<lambda>c. case f (ctl_db c) of Inl e \<Rightarrow> Some (Inl e, c) | Inr d \<Rightarrow> Some (Inr (), c\<lparr>ctl_db := d\<rparr>))"

definition cfeatures :: "(protocol_feature_manager \<Rightarrow> protocol_feature_manager result) \<Rightarrow> ('d controller_state, unit) cmd" where
  "cfeatures f = (\<lambda>c. case f (ctl_features c) of
       Inl e \<Rightarrow> Some (Inl e, c) | Inr m \<Rightarrow> Some (Inr (), c\<lparr>ctl_features := m\<rparr>))"

definition cfork :: "(fork_database \<Rightarrow> (chain_error option \<times> fork_database) option) \<Rightarrow> ('d controller_state, unit) cmd" where
  "cfork f = (\<lambda>c. case f (ctl_fork_db c) of
       None \<Rightarrow> None
     | Some (Some e, db) \<Rightarrow> Some (Inl e, c\<lparr>ctl_fork_db := db\<rparr>)
     | Some (None, db) \<Rightarrow> Some (Inr (), c\<lparr>ctl_fork_db := db\<rparr>))"

text \<open>An operation of the fork database that leaves it unchanged when it throws.\<close>

definition unchanged_on_throw ::
  "(fork_database \<Rightarrow> fork_database result) \<Rightarrow> fork_database \<Rightarrow> (chain_error option \<times> fork_database) option" where
  "unchanged_on_throw f db = (case f db of Inl e \<Rightarrow> Some (Some e, db) | Inr db' \<Rightarrow> Some (None, db'))"

definition cremove :: "block_id_type \<Rightarrow> ('d controller_state, unit) cmd" where
  "cremove i = cfork (\<lambda>db. map_option (\<lambda>r. case r of Inl e \<Rightarrow> (Some e, db) | Inr db' \<Rightarrow> (None, db')) (remove_impl i db))"

definition pop_block :: "'d node \<Rightarrow> ('d controller_state, unit) cmd" where
  "pop_block nd = (\<lambda>c.
     cbind (case get_block (ctl_fork_db c) (prev_id (ctl_head c)) of
              Some prev \<Rightarrow> cret prev
            | None \<Rightarrow>
                (case fdb_root (ctl_fork_db c) of
                   None \<Rightarrow> cthrow undefined_behaviour
                 | Some root \<Rightarrow>
                     cbind (cassert (\<lambda>_. bhs_id root = prev_id (ctl_head c)) block_validate_exception) (\<lambda>_. cret root)))
       (\<lambda>prev.
     cbind (cassert (\<lambda>c. nd_has_block nd (bhs_id (ctl_head c))) block_validate_exception) (\<lambda>_.
     cbind (\<lambda>c. Some (Inr (), c\<lparr>ctl_head := block_core prev\<rparr>)) (\<lambda>_.
     cbind (cdb (\<lambda>d. Inr (nd_undo nd d))) (\<lambda>_.
       cfeatures (popped_blocks_to (bhs_block_num prev)))))) c)"

section \<open>Applying a block\<close>

text \<open>The loop of \<^verbatim>\<open>start_block\<close> over the features the block activates.\<close>

fun activate_new_features ::
  "'d node \<Rightarrow> u32 \<Rightarrow> digest_type list \<Rightarrow> (digest_type \<times> bool) list \<Rightarrow> nat \<Rightarrow> ('d controller_state, nat) cmd" where
  "activate_new_features nd n [] seen done_count = cret done_count"
| "activate_new_features nd n (x # xs) seen done_count =
     cbind (cresult (\<lambda>c. get_protocol_feature (pfm_set (ctl_features c)) x)) (\<lambda>f.
     cbind (case fm_find x seen of
              None \<Rightarrow> cbind (cassert (\<lambda>_. \<not> pf_preactivation_required f) protocol_feature_exception)
                         (\<lambda>_. cret (fm_assign x True seen, done_count))
            | Some already \<Rightarrow> cbind (cassert (\<lambda>_. \<not> already) block_validate_exception)
                                (\<lambda>_. cret (fm_assign x True seen, Suc done_count))) (\<lambda>(seen, done_count).
     cbind (case pf_builtin_feature f of None \<Rightarrow> cret () | Some b \<Rightarrow> cdb (nd_on_activation nd b)) (\<lambda>_.
     cbind (cfeatures (activate_feature x n)) (\<lambda>_.
       activate_new_features nd n xs seen done_count))))"

definition start_block_features :: "'d node \<Rightarrow> block_status \<Rightarrow> u32 \<Rightarrow> digest_type list \<Rightarrow> ('d controller_state, unit) cmd" where
  "start_block_features nd s n new =
     (if s = ephemeral_block then cret ()
      else
        cbind (cresult (\<lambda>c. Inr (nd_preactivated nd (ctl_db c)))) (\<lambda>preactivated.
        cbind (if new = [] then cret 0
               else activate_new_features nd n new (fold (\<lambda>d m. snd (fm_emplace d False m)) preactivated []) 0) (\<lambda>done_count.
        cbind (cassert (\<lambda>_. preactivated = [] \<or> new \<noteq> [] \<and> done_count = length preactivated) block_validate_exception) (\<lambda>_.
          if new = [] then cret () else cdb (\<lambda>d. Inr (nd_record_activations nd new n d))))))"

text \<open>
  \<^verbatim>\<open>commit_block\<close>: a block that was produced here is \<^verbatim>\<open>incomplete\<close> and not yet in the fork database; it is
  added, has to become its head, and \<^verbatim>\<open>log_irreversible\<close>, the argument, is called at the end. The
  comparison of the pointers is one of the ids, which are unique in the fork database.
\<close>

definition commit_block :: "('d controller_state, unit) cmd \<Rightarrow> block_state \<Rightarrow> block_status \<Rightarrow> ('d controller_state, unit) cmd" where
  "commit_block irreversible bsp s =
     cbind (if s = incomplete_block
            then cbind (cfork (unchanged_on_throw (fdb_add bsp False))) (\<lambda>_.
                 cbind (cfork (unchanged_on_throw (mark_valid bsp))) (\<lambda>_.
                   cassert (\<lambda>c. map_option bhs_id (fdb_head (ctl_fork_db c)) = Some (bhs_id bsp)) fork_database_exception))
            else if s \<noteq> irreversible_block then cfork (unchanged_on_throw (mark_valid bsp))
            else cret ()) (\<lambda>_.
     cbind (\<lambda>c. Some (Inr (), c\<lparr>ctl_head := block_core bsp\<rparr>)) (\<lambda>_.
       if s = incomplete_block then irreversible else cret ()))"

text \<open>Blocks replayed from the log are applied without an undo session, unless the node asks for the checks.\<close>

definition skip_db_sessions :: "'d node \<Rightarrow> block_status \<Rightarrow> bool" where
  "skip_db_sessions nd s \<longleftrightarrow>
     s = irreversible_block \<and> \<not> nd_disable_replay_opts nd \<and> \<not> nd_in_trx_requiring_checks nd"

text \<open>What happens while the block is pending: the rest of \<^verbatim>\<open>start_block\<close>, the transactions and \<^verbatim>\<open>commit_block\<close>.\<close>

definition session_body ::
  "('d controller_state, unit) cmd \<Rightarrow> 'd node \<Rightarrow> block_state \<Rightarrow> block_status \<Rightarrow> block_header_state \<Rightarrow> digest_type list \<Rightarrow>
   ('d controller_state, unit) cmd" where
  "session_body irreversible nd bsp s head new =
     cbind (cresult (\<lambda>_. bhs_next_pending (nd_sha nd) (bh_timestamp (bhs_header bsp)) (bh_confirmed (bhs_header bsp)) head)) (\<lambda>pbhs.
     cbind (start_block_features nd s (bhs_block_num pbhs) new) (\<lambda>_.
     cbind (cdb (nd_execute nd bsp s pbhs)) (\<lambda>_.
       commit_block irreversible bsp s)))"

text \<open>
  \<^verbatim>\<open>apply_block\<close> with the \<^verbatim>\<open>start_block\<close> it calls. When it throws, the session, if one was opened, is
  undone and the features activated so far are popped. \<^verbatim>\<open>apply_block\<close> and \<^verbatim>\<open>log_irreversible\<close> call each
  other: \<^verbatim>\<open>log_irreversible\<close> applies blocks as \<^verbatim>\<open>complete\<close>, and only an \<^verbatim>\<open>incomplete\<close> block calls
  \<^verbatim>\<open>log_irreversible\<close>, so the recursion ends there and \<open>apply_block_with\<close> takes it as an argument.
\<close>

definition apply_block_with ::
  "('d controller_state, unit) cmd \<Rightarrow> 'd node \<Rightarrow> block_state \<Rightarrow> block_status \<Rightarrow> ('d controller_state, unit) cmd" where
  "apply_block_with irreversible nd bsp s = (\<lambda>c.
     let head = ctl_head c in
     cbind (cresult (\<lambda>_. get_new_protocol_feature_activations (block_core bsp))) (\<lambda>new.
     cguard (\<lambda>c. cfeatures (popped_blocks_to (bhs_block_num (ctl_head c))) c)
       (if skip_db_sessions nd s then session_body irreversible nd bsp s head new
        else
          cbind (cassert (\<lambda>c. nd_revision nd (ctl_db c) = bhs_block_num head) database_exception) (\<lambda>_.
          cbind (cdb (\<lambda>d. Inr (nd_session nd d))) (\<lambda>_.
          cguard (cdb (\<lambda>d. Inr (nd_undo nd d))) (session_body irreversible nd bsp s head new))))) c)"

section \<open>Irreversible blocks\<close>

definition fork_db_head :: "'d node \<Rightarrow> 'd controller_state \<Rightarrow> block_state option result" where
  "fork_db_head nd c =
     (if nd_irreversible_mode nd then pending_head (ctl_fork_db c) else Inr (fdb_head (ctl_fork_db c)))"

definition log_block :: "'d node \<Rightarrow> block_state \<Rightarrow> ('d controller_state, unit) cmd" where
  "log_block nd b =
     cbind (if nd_irreversible_mode nd then apply_block_with (cret ()) nd b complete_block else cret ()) (\<lambda>_.
     cbind (case nd_append_error nd b of Some e \<Rightarrow> cthrow e | None \<Rightarrow> (\<lambda>c. Some (Inr (), c\<lparr>ctl_blog := ctl_blog c @ [b]\<rparr>))) (\<lambda>_.
       cdb (\<lambda>d. Inr (nd_commit nd (bhs_block_num b) d))))"

text \<open>The loop over the irreversible blocks: the exception that ended it, if any, and the last id logged.\<close>

fun log_blocks ::
  "'d node \<Rightarrow> block_state list \<Rightarrow> block_id_type \<Rightarrow> ('d controller_state, chain_error option \<times> block_id_type) cmd" where
  "log_blocks nd [] root_id = cret (None, root_id)"
| "log_blocks nd (b # bs) root_id = (\<lambda>c.
     case log_block nd b c of
       None \<Rightarrow> None
     | Some (Inl e, c) \<Rightarrow> Some (Inr (Some e, root_id), c)
     | Some (Inr _, c) \<Rightarrow> log_blocks nd bs (bhs_id b) c)"

definition advance_to :: "block_id_type \<Rightarrow> ('d controller_state, unit) cmd" where
  "advance_to root_id = (\<lambda>c. case fdb_root (ctl_fork_db c) of
       None \<Rightarrow> cthrow undefined_behaviour c
     | Some root \<Rightarrow> if root_id \<noteq> bhs_id root then cfork (advance_root root_id) c else cret () c)"

definition log_irreversible :: "'d node \<Rightarrow> ('d controller_state, unit) cmd" where
  "log_irreversible nd = (\<lambda>c.
     case fdb_root (ctl_fork_db c) of
       None \<Rightarrow> cthrow fork_database_exception c
     | Some root \<Rightarrow>
         let lib_num = (if ctl_blog c \<noteq> [] then num_from_id (bhs_id (last (ctl_blog c))) else nd_first_block_num nd - 1) in
         cbind (if ctl_blog c \<noteq> []
                then cassert (\<lambda>_. bhs_id root = bhs_id (last (ctl_blog c))) fork_database_exception
                else cassert (\<lambda>_. bhs_block_num root = lib_num) fork_database_exception) (\<lambda>_.
         cbind (cresult (fork_db_head nd)) (\<lambda>fork_head.
           case fork_head of
             None \<Rightarrow> cthrow undefined_behaviour
           | Some fork_head \<Rightarrow>
               if bhs_dpos_irreversible_blocknum fork_head \<le> lib_num then cret ()
               else (case fetch_branch (bhs_id fork_head) (bhs_dpos_irreversible_blocknum fork_head) (ctl_fork_db c) of
                       None \<Rightarrow> (\<lambda>_. None)
                     | Some branch \<Rightarrow>
                         cbind (log_blocks nd (rev branch) (bhs_id root)) (\<lambda>(err, root_id).
                         cbind (advance_to root_id) (\<lambda>_.
                           case err of Some e \<Rightarrow> cthrow e | None \<Rightarrow> cret ()))))) c)"

section \<open>Applying blocks in order\<close>

definition apply_block :: "'d node \<Rightarrow> block_state \<Rightarrow> block_status \<Rightarrow> ('d controller_state, unit) cmd" where
  "apply_block nd = apply_block_with (log_irreversible nd) nd"

fun repeat_cmd :: "nat \<Rightarrow> ('s, unit) cmd \<Rightarrow> ('s, unit) cmd" where
  "repeat_cmd 0 m = cret ()"
| "repeat_cmd (Suc n) m = cbind m (\<lambda>_. repeat_cmd n m)"

fun apply_blocks :: "'d node \<Rightarrow> block_status \<Rightarrow> block_state list \<Rightarrow> ('d controller_state, unit) cmd" where
  "apply_blocks nd s [] = cret ()"
| "apply_blocks nd s (b # bs) = cbind (apply_block nd b s) (\<lambda>_. apply_blocks nd s bs)"

section \<open>Switching forks\<close>

text \<open>
  The loop over the new branch, oldest block first. When a block throws, it is removed with all that
  builds on it, the blocks of the new branch applied so far are popped and the old branch is applied
  again. The source reads the last block of the old branch without a test whether the branch is empty.
\<close>

fun apply_branch :: "'d node \<Rightarrow> block_state list \<Rightarrow> block_state list \<Rightarrow> nat \<Rightarrow> ('d controller_state, unit) cmd" where
  "apply_branch nd second [] applied = cret ()"
| "apply_branch nd second (b # bs) applied =
     cbind (ccatch (apply_block nd b (if bst_validated b then validated_block else complete_block)) (\<lambda>e.
       cbind (cremove (bhs_id b)) (\<lambda>_.
       cbind (repeat_cmd applied (pop_block nd)) (\<lambda>_.
         if second = [] then cthrow undefined_behaviour
         else cbind (cassert (\<lambda>c. bhs_id (ctl_head c) = prev_id (last second)) fork_database_exception) (\<lambda>_.
              cbind (apply_blocks nd validated_block (rev second)) (\<lambda>_. cthrow e))))))
     (\<lambda>_. apply_branch nd second bs (Suc applied))"

text \<open>\<^verbatim>\<open>maybe_switch_forks\<close> up to the call of \<^verbatim>\<open>log_irreversible\<close>; the result is \<^verbatim>\<open>head_changed\<close>.\<close>

definition switch_forks :: "'d node \<Rightarrow> block_state \<Rightarrow> block_status \<Rightarrow> ('d controller_state, bool) cmd" where
  "switch_forks nd new_head s = (\<lambda>c.
     if prev_id new_head = bhs_id (ctl_head c)
     then cbind (ccatch (apply_block nd new_head s) (\<lambda>e. cbind (cremove (bhs_id new_head)) (\<lambda>_. cthrow e)))
            (\<lambda>_. cret True) c
     else if bhs_id new_head \<noteq> bhs_id (ctl_head c)
     then (case fetch_branch_from (bhs_id new_head) (bhs_id (ctl_head c)) (ctl_fork_db c) of
             None \<Rightarrow> None
           | Some (Inl e) \<Rightarrow> Some (Inl e, c)
           | Some (Inr (first, second)) \<Rightarrow>
               cbind (if second = [] then cret ()
                      else cbind (repeat_cmd (length second) (pop_block nd)) (\<lambda>_.
                             cassert (\<lambda>c. bhs_id (ctl_head c) = prev_id (last second)) fork_database_exception)) (\<lambda>_.
               cbind (apply_branch nd second (rev first) 0) (\<lambda>_. cret True)) c)
     else cret False c)"

definition maybe_switch_forks :: "'d node \<Rightarrow> block_state \<Rightarrow> block_status \<Rightarrow> ('d controller_state, unit) cmd" where
  "maybe_switch_forks nd new_head s =
     cbind (switch_forks nd new_head s) (\<lambda>head_changed. if head_changed then log_irreversible nd else cret ())"

definition push_block :: "'d node \<Rightarrow> block_state \<Rightarrow> ('d controller_state, unit) cmd" where
  "push_block nd bsp =
     cbind (cfork (unchanged_on_throw (fdb_add bsp False))) (\<lambda>_.
       if nd_irreversible_mode nd then log_irreversible nd
       else cbind (cresult (\<lambda>c. pending_head (ctl_fork_db c))) (\<lambda>new_head.
              case new_head of
                None \<Rightarrow> cthrow undefined_behaviour
              | Some new_head \<Rightarrow> maybe_switch_forks nd new_head complete_block))"

section \<open>Inside the session of a block\<close>

text \<open>
  What the undo sessions of the database promise: opening a session and undoing it gives back the
  database, and what is done inside the session does not change what undoing it gives back.
\<close>

definition undo_laws :: "'d node \<Rightarrow> bool" where
  "undo_laws nd \<longleftrightarrow>
     (\<forall>d. nd_undo nd (nd_session nd d) = d) \<and>
     (\<forall>d b d'. nd_on_activation nd b d = Inr d' \<longrightarrow> nd_undo nd d' = nd_undo nd d) \<and>
     (\<forall>d fs n. nd_undo nd (nd_record_activations nd fs n d) = nd_undo nd d) \<and>
     (\<forall>d b s p d'. nd_execute nd b s p d = Inr d' \<longrightarrow> nd_undo nd d' = nd_undo nd d)"

definition in_session :: "'d node \<Rightarrow> u32 \<Rightarrow> 'd controller_state \<Rightarrow> 'd controller_state \<Rightarrow> bool" where
  "in_session nd n c c' \<longleftrightarrow>
     nd_undo nd (ctl_db c') = nd_undo nd (ctl_db c) \<and>
     (\<exists>fs. activate_features (map (\<lambda>x. (x, n)) fs) (ctl_features c) = Inr (ctl_features c')) \<and>
     ctl_head c' = ctl_head c \<and> ctl_fork_db c' = ctl_fork_db c \<and> ctl_blog c' = ctl_blog c"

definition stays :: "'d node \<Rightarrow> u32 \<Rightarrow> ('d controller_state, 'a) cmd \<Rightarrow> bool" where
  "stays nd n m \<longleftrightarrow> (\<forall>c. \<exists>r c'. m c = Some (r, c') \<and> in_session nd n c c')"

lemma activate_features_append:
  "activate_features (xs @ ys) m = ebind (activate_features xs m) (activate_features ys)"
  unfolding activate_features_def by (induction xs arbitrary: m) (auto simp: ebind_def split: sum.splits)

lemma in_session_refl: "in_session nd n c c"
  by (auto simp: in_session_def activate_features_def intro: exI [of _ "[]"])

lemma in_session_trans:
  assumes "in_session nd n a b" and "in_session nd n b c"
  shows "in_session nd n a c"
proof -
  from assms obtain fs gs where "activate_features (map (\<lambda>x. (x, n)) fs) (ctl_features a) = Inr (ctl_features b)"
    "activate_features (map (\<lambda>x. (x, n)) gs) (ctl_features b) = Inr (ctl_features c)"
    by (auto simp: in_session_def)
  then have "activate_features (map (\<lambda>x. (x, n)) (fs @ gs)) (ctl_features a) = Inr (ctl_features c)"
    by (simp add: activate_features_append)
  then show ?thesis using assms unfolding in_session_def by metis
qed

lemma stays_bind:
  assumes "stays nd n m" and "\<And>a. stays nd n (f a)"
  shows "stays nd n (cbind m f)"
  unfolding stays_def
proof
  fix c
  from assms(1) obtain r c1 where m: "m c = Some (r, c1)" "in_session nd n c c1" unfolding stays_def by blast
  show "\<exists>r c'. cbind m f c = Some (r, c') \<and> in_session nd n c c'"
  proof (cases r)
    case (Inr a)
    from assms(2) [of a] obtain r' c2 where "f a c1 = Some (r', c2)" "in_session nd n c1 c2" unfolding stays_def by blast
    with m Inr show ?thesis by (auto simp: cbind_def intro: in_session_trans)
  qed (use m in \<open>simp add: cbind_def\<close>)
qed

lemma stays_keep [intro]: "stays nd n (cret a)" "stays nd n (cresult f)" "stays nd n (cassert p e)" "stays nd n (cthrow e)"
  by (simp_all add: stays_def cret_def cresult_def cassert_def cthrow_def in_session_refl)

lemma stays_cdb:
  assumes "\<And>d d'. f d = Inr d' \<Longrightarrow> nd_undo nd d' = nd_undo nd d"
  shows "stays nd n (cdb f)"
  unfolding stays_def cdb_def using assms
  by (auto simp: in_session_def activate_features_def split: sum.splits intro!: exI [of _ "[]"])

lemma stays_activate: "stays nd n (cfeatures (activate_feature x n))"
  unfolding stays_def cfeatures_def
  by (auto simp: in_session_def activate_features_def split: sum.splits intro: exI [of _ "[]"] exI [of _ "[x]"])

lemma stays_activate_new_features:
  assumes "undo_laws nd"
  shows "stays nd n (activate_new_features nd n xs seen k)"
proof (induction xs arbitrary: seen k)
  case (Cons x xs)
  have "stays nd n (cdb (nd_on_activation nd b))" for b
    using assms by (intro stays_cdb) (auto simp: undo_laws_def)
  with Cons show ?case
    by (auto intro!: stays_bind stays_activate split: option.splits prod.splits)
qed auto

lemma stays_start_block_features:
  assumes "undo_laws nd"
  shows "stays nd n (start_block_features nd s n new)"
proof -
  have "stays nd n (cdb (\<lambda>d. Inr (nd_record_activations nd fs n d)))" for fs
    using assms by (intro stays_cdb) (auto simp: undo_laws_def)
  then show ?thesis unfolding start_block_features_def
    by (auto intro!: stays_bind stays_activate_new_features assms)
qed

text \<open>Features activated in blocks up to \<open>k\<close>.\<close>

definition features_upto :: "protocol_feature_manager \<Rightarrow> u32 \<Rightarrow> bool" where
  "features_upto m k \<longleftrightarrow> pfm_ok m \<and> (\<forall>e \<in> set (pfm_activated m). pfe_activation_block_num e \<le> k)"

lemma session_features:
  assumes "features_upto m k" and "activate_features (map (\<lambda>x. (x, n)) fs) m = Inr m'" and "k < n" and "n \<noteq> - 1"
  shows "popped_blocks_to k m' = Inr m" "features_upto m' n"
proof -
  have n: "not_active \<notin> snd ` set (map (\<lambda>x. (x, n)) fs)" using assms(4) by (auto simp: not_active_def)
  show "popped_blocks_to k m' = Inr m"
    using assms by (intro activated_then_popped [OF _ _ assms(2) n]) (auto simp: features_upto_def)
  from assms(2) have "efold (\<lambda>(d, n). activate_feature d n) (map (\<lambda>x. (x, n)) fs) m = Inr m'"
    by (simp add: activate_features_def)
  from manager_log.activate_all_log [OF _ n this] assms(1) have "pfm_ok m'" by (simp add: features_upto_def)
  moreover from activate_all_keeps [OF assms(2)] obtain es where es: "pfm_activated m' = pfm_activated m @ es"
    "map pfe_activation_block_num es = map snd (map (\<lambda>x. (x, n)) fs)" by blast
  have "pfe_activation_block_num e = n" if "e \<in> set es" for e
  proof -
    from that have "pfe_activation_block_num e \<in> set (map pfe_activation_block_num es)" by simp
    then show ?thesis unfolding es(2) by auto
  qed
  with es(1) assms(1,3) have "\<forall>e \<in> set (pfm_activated m'). pfe_activation_block_num e \<le> n"
    by (auto simp: features_upto_def)
  ultimately show "features_upto m' n" by (simp add: features_upto_def)
qed

lemma popped_same: "features_upto m k \<Longrightarrow> popped_blocks_to k m = Inr m"
  using activated_then_popped [of m k "[]" m] by (auto simp: features_upto_def activate_features_def)

text \<open>The end of the session: the block is marked valid and becomes the head, or everything is as before.\<close>

lemma commit_received:
  "s \<noteq> incomplete_block \<Longrightarrow> commit_block irr bsp s =
     cbind (if s \<noteq> irreversible_block then cfork (unchanged_on_throw (mark_valid bsp)) else cret ()) (\<lambda>_.
       (\<lambda>c. Some (Inr (), c\<lparr>ctl_head := block_core bsp\<rparr>)))"
  by (simp add: commit_block_def cbind_def cret_def)

lemma commit_block_cases:
  assumes "s \<noteq> incomplete_block"
  shows "\<exists>r c'. commit_block irr bsp s c = Some (r, c') \<and>
     (case r of Inl e \<Rightarrow> c' = c
      | Inr _ \<Rightarrow> \<exists>f. c' = c\<lparr>ctl_fork_db := f, ctl_head := block_core bsp\<rparr> \<and>
          (if s = irreversible_block then f = ctl_fork_db c else mark_valid bsp (ctl_fork_db c) = Inr f))"
  using assms
  by (auto simp: commit_received cbind_def cfork_def unchanged_on_throw_def cret_def split: sum.splits)

lemma session_body_cases:
  assumes laws: "undo_laws nd" and s: "s \<noteq> incomplete_block"
  shows "\<exists>r c'. session_body irr nd bsp s head new c = Some (r, c') \<and>
     (case r of Inl e \<Rightarrow> in_session nd (bhs_block_num head + 1) c c'
      | Inr _ \<Rightarrow> \<exists>f c3. in_session nd (bhs_block_num head + 1) c c3 \<and> c' = c3\<lparr>ctl_fork_db := f, ctl_head := block_core bsp\<rparr> \<and>
          (if s = irreversible_block then f = ctl_fork_db c else mark_valid bsp (ctl_fork_db c) = Inr f))"
proof (cases "bhs_next_pending (nd_sha nd) (bh_timestamp (bhs_header bsp)) (bh_confirmed (bhs_header bsp)) head")
  case (Inl e)
  then show ?thesis by (auto simp: session_body_def cbind_def cresult_def in_session_refl)
next
  case (Inr pbhs)
  let ?m = "cbind (start_block_features nd s (bhs_block_num pbhs) new) (\<lambda>_. cdb (nd_execute nd bsp s pbhs))"
  have n: "bhs_block_num pbhs = bhs_block_num head + 1" by (rule next_pending_fields(2) [OF Inr])
  have "stays nd (bhs_block_num head + 1) ?m" unfolding n
    using laws by (intro stays_bind stays_start_block_features stays_cdb) (auto simp: undo_laws_def)
  then obtain r c3 where m: "?m c = Some (r, c3)" "in_session nd (bhs_block_num head + 1) c c3" unfolding stays_def by blast
  have split: "session_body irr nd bsp s head new c = cbind ?m (\<lambda>_. commit_block irr bsp s) c"
    using Inr by (simp add: session_body_def cbind_def cresult_def split: option.splits prod.splits sum.splits)
  have "ctl_fork_db c3 = ctl_fork_db c" using m(2) by (simp add: in_session_def)
  with commit_block_cases [OF s, of irr bsp c3] m show ?thesis
    unfolding split cbind_def [of ?m] by (cases r) (fastforce split: sum.splits)+
qed

lemma skip_db_sessions_simps [simp]:
  "\<not> skip_db_sessions nd complete_block" "\<not> skip_db_sessions nd validated_block"
  by (simp_all add: skip_db_sessions_def)

lemma apply_block_body:
  assumes "\<not> skip_db_sessions nd s"
  shows "apply_block nd bsp s c =
     (case get_new_protocol_feature_activations (block_core bsp) of
        Inl e \<Rightarrow> Some (Inl e, c)
      | Inr new \<Rightarrow>
          cguard (\<lambda>c. cfeatures (popped_blocks_to (bhs_block_num (ctl_head c))) c)
            (cbind (cassert (\<lambda>c'. nd_revision nd (ctl_db c') = bhs_block_num (ctl_head c)) database_exception) (\<lambda>_.
             cbind (cdb (\<lambda>d. Inr (nd_session nd d))) (\<lambda>_.
             cguard (cdb (\<lambda>d. Inr (nd_undo nd d))) (session_body (log_irreversible nd) nd bsp s (ctl_head c) new)))) c)"
  using assms by (simp add: apply_block_def apply_block_with_def cbind_def cresult_def Let_def split: sum.splits)

definition block_applied :: "'d node \<Rightarrow> block_state \<Rightarrow> block_status \<Rightarrow> 'd controller_state \<Rightarrow> 'd controller_state \<Rightarrow> bool" where
  "block_applied nd bsp s c c' \<longleftrightarrow>
     ctl_head c' = block_core bsp \<and> ctl_blog c' = ctl_blog c \<and> nd_undo nd (ctl_db c') = ctl_db c \<and>
     popped_blocks_to (bhs_block_num (ctl_head c)) (ctl_features c') = Inr (ctl_features c) \<and>
     features_upto (ctl_features c') (bhs_block_num (ctl_head c) + 1) \<and>
     (if s = irreversible_block then ctl_fork_db c' = ctl_fork_db c else mark_valid bsp (ctl_fork_db c) = Inr (ctl_fork_db c'))"

text \<open>Block numbers that leave room for the next block; the greatest number marks features that are not active.\<close>

definition room :: "u32 \<Rightarrow> bool" where
  "room k \<longleftrightarrow> k < k + 1 \<and> k + 1 \<noteq> - 1"

lemma apply_block_cases:
  assumes laws: "undo_laws nd" and feats: "features_upto (ctl_features c) (bhs_block_num (ctl_head c))"
    and room: "room (bhs_block_num (ctl_head c))" and s: "s \<noteq> incomplete_block" "\<not> skip_db_sessions nd s"
  shows "\<exists>r c'. apply_block nd bsp s c = Some (r, c') \<and>
    (case r of Inl e \<Rightarrow> c' = c | Inr _ \<Rightarrow> block_applied nd bsp s c c')"
proof (cases "get_new_protocol_feature_activations (block_core bsp)")
  case (Inl e)
  then show ?thesis using s(2) by (simp add: apply_block_body)
next
  case (Inr new)
  let ?k = "bhs_block_num (ctl_head c)" and ?c1 = "c\<lparr>ctl_db := nd_session nd (ctl_db c)\<rparr>"
  have undo: "nd_undo nd (nd_session nd (ctl_db c)) = ctl_db c" using laws by (simp add: undo_laws_def)
  show ?thesis
  proof (cases "nd_revision nd (ctl_db c) = ?k")
    case False
    then show ?thesis using Inr popped_same [OF feats] s(2)
      by (simp add: apply_block_body cguard_def ccatch_def cbind_def cassert_def cresult_def cfeatures_def cthrow_def)
  next
    case True
    from session_body_cases [OF laws s(1)] obtain r c2 where
      b: "session_body (log_irreversible nd) nd bsp s (ctl_head c) new ?c1 = Some (r, c2)"
      and res: "case r of Inl e \<Rightarrow> in_session nd (?k + 1) ?c1 c2
        | Inr _ \<Rightarrow> \<exists>f c3. in_session nd (?k + 1) ?c1 c3 \<and> c2 = c3\<lparr>ctl_fork_db := f, ctl_head := block_core bsp\<rparr> \<and>
            (if s = irreversible_block then f = ctl_fork_db ?c1 else mark_valid bsp (ctl_fork_db ?c1) = Inr f)" by blast
    have run: "apply_block nd bsp s c = (case r of
        Inl e \<Rightarrow> cbind (cfeatures (popped_blocks_to (bhs_block_num (ctl_head c2)))) (\<lambda>_. cthrow e) (c2\<lparr>ctl_db := nd_undo nd (ctl_db c2)\<rparr>)
      | Inr u \<Rightarrow> Some (Inr u, c2))"
      using Inr True b s(2)
      by (simp add: apply_block_body cguard_def ccatch_def cbind_def cassert_def cresult_def cthrow_def cdb_def split: sum.splits)
    have feat: "popped_blocks_to ?k (ctl_features x) = Inr (ctl_features c)" "features_upto (ctl_features x) (?k + 1)"
      "nd_undo nd (ctl_db x) = ctl_db c" "ctl_head x = ctl_head c" "ctl_fork_db x = ctl_fork_db c" "ctl_blog x = ctl_blog c"
      if "in_session nd (?k + 1) ?c1 x" for x
      using that session_features [OF feats] room undo by (auto simp: in_session_def room_def)
    show ?thesis
    proof (cases r)
      case (Inl e)
      with res have i: "in_session nd (?k + 1) ?c1 c2" by simp
      have "c2\<lparr>ctl_db := nd_undo nd (ctl_db c2), ctl_features := ctl_features c\<rparr> = c"
        using feat(3-) [OF i] by (intro controller_state.equality) simp_all
      then show ?thesis using run Inl feat(1,4) [OF i] by (simp add: cfeatures_def cbind_def cthrow_def cresult_def)
    next
      case (Inr u)
      from res [unfolded Inr sum.case] obtain f c3 where i: "in_session nd (?k + 1) ?c1 c3"
        and c2: "c2 = c3\<lparr>ctl_fork_db := f, ctl_head := block_core bsp\<rparr>"
        and f: "if s = irreversible_block then f = ctl_fork_db ?c1 else mark_valid bsp (ctl_fork_db ?c1) = Inr f" by blast
      with feat [OF i] have "block_applied nd bsp s c c2" unfolding block_applied_def c2
        by (cases "s = irreversible_block") simp_all
      with run Inr show ?thesis by simp
    qed
  qed
qed

section \<open>Popping what was applied\<close>

text \<open>The blocks of a branch, oldest first, lead from the first state to the last.\<close>

fun applied :: "'d node \<Rightarrow> 'd controller_state \<Rightarrow> block_state list \<Rightarrow> 'd controller_state \<Rightarrow> bool" where
  "applied nd a [] c \<longleftrightarrow> c = a"
| "applied nd a (b # bs) c \<longleftrightarrow> (\<exists>s x. block_applied nd b s a x \<and> applied nd x bs c)"

lemma applied_append: "applied nd a (xs @ ys) c \<longleftrightarrow> (\<exists>x. applied nd a xs x \<and> applied nd x ys c)"
  by (induction xs arbitrary: a) auto

text \<open>\<^verbatim>\<open>pop_block\<close> finds the parent in the index, or it is the root.\<close>

definition parent_known :: "fork_database \<Rightarrow> block_state \<Rightarrow> block_header_state \<Rightarrow> bool" where
  "parent_known f b h \<longleftrightarrow>
     (case get_block f (prev_id b) of
        Some p \<Rightarrow> block_core p = h
      | None \<Rightarrow> (\<exists>root. fdb_root f = Some root \<and> bhs_id root = prev_id b \<and> block_core root = h))"

fun linked :: "'d node \<Rightarrow> fork_database \<Rightarrow> block_header_state \<Rightarrow> block_state list \<Rightarrow> bool" where
  "linked nd f h [] \<longleftrightarrow> True"
| "linked nd f h (b # bs) \<longleftrightarrow>
     parent_known f b h \<and> bhs_block_num b = bhs_block_num h + 1 \<and> room (bhs_block_num h) \<and>
     nd_has_block nd (bhs_id b) \<and> linked nd f (block_core b) bs"

lemma linked_append:
  "linked nd f h (xs @ ys) \<longleftrightarrow> linked nd f h xs \<and> linked nd f (if xs = [] then h else block_core (last xs)) ys"
  by (induction xs arbitrary: h) auto

lemma block_applied_head: "block_applied nd b s a c \<Longrightarrow> ctl_head c = block_core b"
  by (simp add: block_applied_def)

lemma pop_block_undoes:
  assumes "block_applied nd b s a c" and "parent_known f b (ctl_head a)" and "nd_has_block nd (bhs_id b)"
  shows "pop_block nd (c\<lparr>ctl_fork_db := f\<rparr>) = Some (Inr (), a\<lparr>ctl_fork_db := f\<rparr>)"
proof -
  have h: "prev_id (ctl_head c) = prev_id b" "bhs_id (ctl_head c) = bhs_id b" using assms(1) by (simp_all add: block_applied_def)
  have pop: "popped_blocks_to (bhs_block_num p) (ctl_features c) = Inr (ctl_features a)" if "block_core p = ctl_head a" for p
    using assms(1) that by (metis block_applied_def core_fields(3))
  have eq: "c\<lparr>ctl_fork_db := f, ctl_head := ctl_head a, ctl_db := ctl_db a, ctl_features := ctl_features a\<rparr> = a\<lparr>ctl_fork_db := f\<rparr>"
    using assms(1) by (intro controller_state.equality) (simp_all add: block_applied_def)
  have undo: "nd_undo nd (ctl_db c) = ctl_db a" using assms(1) by (simp add: block_applied_def)
  show ?thesis
  proof (cases "get_block f (prev_id b)")
    case None
    with assms(2) obtain root where r: "fdb_root f = Some root" "bhs_id root = prev_id b" "block_core root = ctl_head a"
      by (auto simp: parent_known_def)
    with None h undo assms(3) pop [OF r(3)] eq show ?thesis
      by (simp add: pop_block_def cbind_def cassert_def cresult_def cret_def cdb_def cfeatures_def)
  next
    case (Some p)
    with assms(2) have "block_core p = ctl_head a" by (simp add: parent_known_def)
    with Some h undo assms(3) pop [OF this] eq show ?thesis
      by (simp add: pop_block_def cbind_def cassert_def cresult_def cret_def cdb_def cfeatures_def)
  qed
qed

lemma applied_head:
  "applied nd a bs c \<Longrightarrow> ctl_head c = (if bs = [] then ctl_head a else block_core (last bs))"
proof (induction bs arbitrary: a)
  case (Cons b bs)
  then obtain s x where x: "block_applied nd b s a x" "applied nd x bs c" by auto
  from Cons.IH [OF x(2)] block_applied_head [OF x(1)] show ?case by simp
qed simp

lemma pop_blocks_undo:
  assumes "applied nd a bs c" and "linked nd f (ctl_head a) bs"
  shows "repeat_cmd (length bs) (pop_block nd) (c\<lparr>ctl_fork_db := f\<rparr>) = Some (Inr (), a\<lparr>ctl_fork_db := f\<rparr>)"
  using assms
proof (induction bs arbitrary: c rule: rev_induct)
  case Nil
  then show ?case by (simp add: cret_def)
next
  case (snoc b bs)
  from snoc.prems(1) obtain x s where x: "applied nd a bs x" "block_applied nd b s x c" by (auto simp: applied_append)
  from snoc.prems(2) have l: "linked nd f (ctl_head a) bs" "parent_known f b (ctl_head x)" "nd_has_block nd (bhs_id b)"
    using applied_head [OF x(1)] by (auto simp: linked_append split: if_splits)
  from pop_block_undoes [OF x(2) l(2,3)] snoc.IH [OF x(1) l(1)] show ?case by (simp add: cbind_def)
qed

text \<open>Applying blocks that succeed gives such a sequence of states.\<close>

definition in_step :: "'d node \<Rightarrow> 'd controller_state \<Rightarrow> bool" where
  "in_step nd c \<longleftrightarrow> undo_laws nd \<and> features_upto (ctl_features c) (bhs_block_num (ctl_head c))"

lemma apply_block_in_step:
  assumes "in_step nd c" and "linked nd f (ctl_head c) [b]" and s: "s \<noteq> incomplete_block" "\<not> skip_db_sessions nd s"
  shows "\<exists>r c'. apply_block nd b s c = Some (r, c') \<and>
    (case r of Inl e \<Rightarrow> c' = c | Inr _ \<Rightarrow> block_applied nd b s c c' \<and> in_step nd c')"
proof -
  from assms have "undo_laws nd" "features_upto (ctl_features c) (bhs_block_num (ctl_head c))" "room (bhs_block_num (ctl_head c))"
    and n: "bhs_block_num b = bhs_block_num (ctl_head c) + 1" by (auto simp: in_step_def)
  from apply_block_cases [OF this(1-3) s, of b] obtain r c' where
    r: "apply_block nd b s c = Some (r, c')" "case r of Inl e \<Rightarrow> c' = c | Inr _ \<Rightarrow> block_applied nd b s c c'" by blast
  have "in_step nd c'" if "block_applied nd b s c c'"
    using that n \<open>undo_laws nd\<close> by (simp add: in_step_def block_applied_def)
  with r show ?thesis by (intro exI [of _ r] exI [of _ c']) (simp split: sum.splits)
qed

lemma apply_blocks_applied:
  assumes "apply_blocks nd s bs a = Some (Inr (), c)" and "in_step nd a" and "linked nd f (ctl_head a) bs"
    and s: "s \<noteq> incomplete_block" "\<not> skip_db_sessions nd s"
  shows "applied nd a bs c \<and> in_step nd c"
  using assms(1-3)
proof (induction bs arbitrary: a)
  case (Cons b bs)
  from apply_block_in_step [OF Cons.prems(2) _ s, of f b] Cons.prems(3) obtain r x where
    x: "apply_block nd b s a = Some (r, x)" "case r of Inl e \<Rightarrow> x = a | Inr _ \<Rightarrow> block_applied nd b s a x \<and> in_step nd x" by auto
  with Cons.prems(1) have ok: "block_applied nd b s a x" "in_step nd x" "apply_blocks nd s bs x = Some (Inr (), c)"
    by (auto simp: cbind_def split: sum.splits)
  moreover have "linked nd f (ctl_head x) bs" using Cons.prems(3) block_applied_head [OF ok(1)] by simp
  ultimately show ?case using Cons.IH [of x] by auto
qed (simp add: cret_def)

section \<open>Applying a block again\<close>

text \<open>
  What the database and the execution of a block promise about applying it again: committing forgets
  undo states and nothing else, so it commutes with what is done to the database afterwards, and a block
  that was executed, now marked valid, executes again with the same result.
\<close>

definition commit_laws :: "'d node \<Rightarrow> bool" where
  "commit_laws nd \<longleftrightarrow> (\<forall>k d.
     nd_revision nd (nd_commit nd k d) = nd_revision nd d \<and>
     nd_preactivated nd (nd_commit nd k d) = nd_preactivated nd d \<and>
     (k \<le> nd_revision nd d \<longrightarrow> nd_session nd (nd_commit nd k d) = nd_commit nd k (nd_session nd d)) \<and>
     (\<forall>fs n. nd_record_activations nd fs n (nd_commit nd k d) = nd_commit nd k (nd_record_activations nd fs n d)) \<and>
     (\<forall>b d'. nd_on_activation nd b d = Inr d' \<longrightarrow> nd_on_activation nd b (nd_commit nd k d) = Inr (nd_commit nd k d')) \<and>
     (\<forall>b s p d'. nd_execute nd b s p d = Inr d' \<longrightarrow> nd_execute nd b s p (nd_commit nd k d) = Inr (nd_commit nd k d')))"

definition replay_law :: "'d node \<Rightarrow> bool" where
  "replay_law nd \<longleftrightarrow> (\<forall>b s p d d'. s \<in> {complete_block, validated_block} \<longrightarrow> nd_execute nd b s p d = Inr d' \<longrightarrow>
     nd_execute nd (b\<lparr>bst_validated := True\<rparr>) validated_block p d = Inr d')"

text \<open>What may change between two blocks: the fork database, and irreversible blocks are logged and committed.\<close>

definition moved_on :: "'d node \<Rightarrow> u32 list \<Rightarrow> fork_database \<Rightarrow> block_state list \<Rightarrow> 'd controller_state \<Rightarrow> 'd controller_state" where
  "moved_on nd ks f l c = c\<lparr>ctl_db := fold (nd_commit nd) ks (ctl_db c), ctl_fork_db := f, ctl_blog := l\<rparr>"

lemma moved_on_fields [simp]:
  "ctl_head (moved_on nd ks f l c) = ctl_head c" "ctl_features (moved_on nd ks f l c) = ctl_features c"
  "ctl_db (moved_on nd ks f l c) = fold (nd_commit nd) ks (ctl_db c)"
  "ctl_fork_db (moved_on nd ks f l c) = f" "ctl_blog (moved_on nd ks f l c) = l"
  "moved_on nd ks f l (moved_on nd ks' f' l' c) = moved_on nd (ks' @ ks) f l c"
  "moved_on nd [] f (ctl_blog c) c = c\<lparr>ctl_fork_db := f\<rparr>"
  by (simp_all add: moved_on_def)

lemma commits_commute:
  assumes "commit_laws nd"
  shows "nd_revision nd (fold (nd_commit nd) ks d) = nd_revision nd d"
    "nd_preactivated nd (fold (nd_commit nd) ks d) = nd_preactivated nd d"
    "(\<And>k. k \<in> set ks \<Longrightarrow> k \<le> nd_revision nd d) \<Longrightarrow>
       nd_session nd (fold (nd_commit nd) ks d) = fold (nd_commit nd) ks (nd_session nd d)"
    "nd_record_activations nd fs n (fold (nd_commit nd) ks d) = fold (nd_commit nd) ks (nd_record_activations nd fs n d)"
    "nd_on_activation nd b d = Inr d' \<Longrightarrow> nd_on_activation nd b (fold (nd_commit nd) ks d) = Inr (fold (nd_commit nd) ks d')"
    "nd_execute nd x s p d = Inr d' \<Longrightarrow> nd_execute nd x s p (fold (nd_commit nd) ks d) = Inr (fold (nd_commit nd) ks d')"
  using assms unfolding commit_laws_def by (induction ks arbitrary: d d') simp_all

lemma cbind_Inr_iff: "cbind m k c = Some (Inr a, c') \<longleftrightarrow> (\<exists>b x. m c = Some (Inr b, x) \<and> k b x = Some (Inr a, c'))"
  by (auto simp: cbind_def split: option.splits sum.splits)

lemma cguard_Inr_iff: "cguard cl m c = Some (Inr a, c') \<longleftrightarrow> m c = Some (Inr a, c')"
  by (auto simp: cguard_def ccatch_def cbind_def cthrow_def cresult_def split: option.splits sum.splits)

lemma cdb_Inr_iff: "cdb g c = Some (Inr u, c') \<longleftrightarrow> (\<exists>d. g (ctl_db c) = Inr d \<and> c' = c\<lparr>ctl_db := d\<rparr>)"
  by (auto simp: cdb_def split: sum.splits)

lemma cassert_Inr_iff: "cassert p e c = Some (Inr u, c') \<longleftrightarrow> p c \<and> c' = c"
  by (auto simp: cassert_def cresult_def sys_assert_def)

text \<open>A step that succeeds still succeeds after such a change, and the change is kept.\<close>

definition carries :: "('s \<Rightarrow> 's) \<Rightarrow> ('s, 'a) cmd \<Rightarrow> ('s, 'a) cmd \<Rightarrow> bool" where
  "carries U m m' \<longleftrightarrow> (\<forall>c a c'. m c = Some (Inr a, c') \<longrightarrow> m' (U c) = Some (Inr a, U c'))"

lemma carries_bind:
  assumes "carries U m m'" and "\<And>a. carries U (k a) (k' a)"
  shows "carries U (cbind m k) (cbind m' k')"
  unfolding carries_def
proof (intro allI impI)
  fix c a c'
  assume run: "cbind m k c = Some (Inr a, c')"
  then obtain b x where b: "m c = Some (Inr b, x)" "k b x = Some (Inr a, c')" by (auto simp: cbind_Inr_iff)
  then show "cbind m' k' (U c) = Some (Inr a, U c')" using assms unfolding carries_def cbind_def by simp
qed

lemma carries_guard: "carries U m m' \<Longrightarrow> carries U (cguard cl m) (cguard cl' m')"
  by (simp add: carries_def cguard_Inr_iff)

lemma carries_basic:
  "carries U (cret a) (cret a)" "carries U (cthrow e) (cthrow e')"
  "(\<And>c a. g c = Inr a \<Longrightarrow> g' (U c) = Inr a) \<Longrightarrow> carries U (cresult g) (cresult g')"
  "(\<And>c. p c \<Longrightarrow> p' (U c)) \<Longrightarrow> carries U (cassert p e) (cassert p' e)"
  by (auto simp: carries_def cret_def cthrow_def cresult_def cassert_def sys_assert_def split: if_splits)

lemma carries_moved_on:
  "carries (moved_on nd ks f l) (cfeatures h) (cfeatures h)"
  "(\<And>d d'. g d = Inr d' \<Longrightarrow> g' (fold (nd_commit nd) ks d) = Inr (fold (nd_commit nd) ks d')) \<Longrightarrow>
     carries (moved_on nd ks f l) (cdb g) (cdb g')"
  by (auto simp: carries_def cfeatures_def cdb_def moved_on_def split: sum.splits)

lemma carries_activate_new_features:
  assumes "commit_laws nd"
  shows "carries (moved_on nd ks f l) (activate_new_features nd n xs seen k) (activate_new_features nd n xs seen k)"
proof (induction xs arbitrary: seen k)
  case (Cons x xs)
  then show ?case
    by (auto intro!: carries_bind carries_basic carries_moved_on commits_commute(5) [OF assms] split: option.splits prod.splits)
qed (simp add: carries_basic)

lemma carries_start_block_features:
  assumes "commit_laws nd" and "s \<noteq> ephemeral_block" and "s' \<noteq> ephemeral_block"
  shows "carries (moved_on nd ks f l) (start_block_features nd s n new) (start_block_features nd s' n new)"
  using assms commits_commute(2,4) [OF assms(1)] unfolding start_block_features_def
  by (auto intro!: carries_bind carries_basic carries_moved_on carries_activate_new_features)

lemma carries_session_body:
  assumes laws: "commit_laws nd" "replay_law nd" and core: "block_core b = block_core b'" "bst_validated b"
    and s: "s \<in> {complete_block, validated_block}"
  shows "carries (moved_on nd ks f l) (session_body irr nd b' s head new) (session_body irr nd b validated_block head new)"
proof -
  have b: "b = b'\<lparr>bst_validated := True\<rparr>"
    using core by (cases b; cases b') (auto simp: block_header_state.defs)
  have "nd_execute nd b validated_block p (fold (nd_commit nd) ks d) = Inr (fold (nd_commit nd) ks d')"
    if "nd_execute nd b' s p d = Inr d'" for p d d'
    using laws(2) s that unfolding b by (intro commits_commute(6) [OF laws(1)]) (auto simp: replay_law_def)
  then have exec: "carries (moved_on nd ks f l) (cdb (nd_execute nd b' s p)) (cdb (nd_execute nd b validated_block p))" for p
    by (intro carries_moved_on) auto
  have com: "carries (moved_on nd ks f l) (commit_block irr b' s) (commit_block irr b validated_block)"
    using s core
    by (auto simp: carries_def commit_received cbind_def cfork_def unchanged_on_throw_def mark_valid_def [of b] moved_on_def
        split: sum.splits option.splits)
  have "bhs_header b = bhs_header b'" unfolding b by simp
  then show ?thesis unfolding session_body_def using s
    by (auto intro!: carries_bind carries_basic carries_start_block_features exec com laws)
qed

lemma apply_block_again:
  assumes laws: "commit_laws nd" "replay_law nd" and core: "block_core b = block_core b'" "bst_validated b"
    and s: "s \<in> {complete_block, validated_block}" and ks: "\<And>k. k \<in> set ks \<Longrightarrow> k \<le> bhs_block_num (ctl_head x)"
    and run: "apply_block nd b' s x = Some (Inr (), y)"
  shows "apply_block nd b validated_block (moved_on nd ks f l x) = Some (Inr (), moved_on nd ks f l y)"
proof -
  let ?U = "moved_on nd ks f l" and ?h = "ctl_head x"
  let ?m = "\<lambda>b s new. cguard (cdb (\<lambda>d. Inr (nd_undo nd d))) (session_body (log_irreversible nd) nd b s ?h new)"
  let ?g = "\<lambda>b s new. cguard (\<lambda>c. cfeatures (popped_blocks_to (bhs_block_num (ctl_head c))) c)
     (cbind (cassert (\<lambda>c. nd_revision nd (ctl_db c) = bhs_block_num ?h) database_exception) (\<lambda>_.
      cbind (cdb (\<lambda>d. Inr (nd_session nd d))) (\<lambda>_. ?m b s new)))"
  have s': "\<not> skip_db_sessions nd s" using s by auto
  from run obtain new where new: "get_new_protocol_feature_activations (block_core b') = Inr new" "?g b' s new x = Some (Inr (), y)"
    by (auto simp: apply_block_body [OF s'] split: sum.splits)
  then have rev: "nd_revision nd (ctl_db x) = bhs_block_num ?h"
    and m: "?m b' s new (x\<lparr>ctl_db := nd_session nd (ctl_db x)\<rparr>) = Some (Inr (), y)"
    by (auto simp: cguard_Inr_iff cbind_Inr_iff cdb_Inr_iff cassert_Inr_iff)
  have "carries ?U (?m b' s new) (?m b validated_block new)"
    by (intro carries_guard carries_session_body laws core s)
  with m have "?m b validated_block new (?U (x\<lparr>ctl_db := nd_session nd (ctl_db x)\<rparr>)) = Some (Inr (), ?U y)"
    unfolding carries_def by blast
  moreover have "?U (x\<lparr>ctl_db := nd_session nd (ctl_db x)\<rparr>) = (?U x)\<lparr>ctl_db := nd_session nd (ctl_db (?U x))\<rparr>"
    using commits_commute(3) [OF laws(1), of ks "ctl_db x"] ks rev by (simp add: moved_on_def)
  moreover have "nd_revision nd (ctl_db (?U x)) = bhs_block_num ?h" using rev commits_commute(1) [OF laws(1)] by simp
  ultimately have "?g b validated_block new (?U x) = Some (Inr (), ?U y)"
    by (simp add: cguard_Inr_iff cbind_Inr_iff cdb_Inr_iff cassert_Inr_iff)
  then show ?thesis using new(1) core(1) by (simp add: apply_block_body)
qed

text \<open>
  The history of a branch: its blocks were applied one after the other, each when it was complete or
  had been validated, and in between blocks up to number \<open>k\<close> were logged and committed.
\<close>

fun history :: "'d node \<Rightarrow> u32 \<Rightarrow> 'd controller_state \<Rightarrow> block_state list \<Rightarrow> 'd controller_state \<Rightarrow> bool" where
  "history nd k a [] c \<longleftrightarrow> (\<exists>ks f l. (\<forall>i \<in> set ks. i \<le> k) \<and> c = moved_on nd ks f l a)"
| "history nd k a (b # bs) c \<longleftrightarrow>
     (\<exists>ks f l b' s y. (\<forall>i \<in> set ks. i \<le> k) \<and> s \<in> {complete_block, validated_block} \<and> block_core b = block_core b' \<and>
        apply_block nd b' s (moved_on nd ks f l a) = Some (Inr (), y) \<and> history nd k y bs c)"

lemma history_single:
  assumes "apply_block nd b s a = Some (Inr (), c)" and "s \<in> {complete_block, validated_block}"
  shows "history nd k a [b] c"
proof -
  have same: "moved_on nd [] (ctl_fork_db x) (ctl_blog x) x = x" for x by simp
  have "history nd k c [] c" unfolding history.simps using same [of c] by (metis empty_iff empty_set)
  then show ?thesis unfolding history.simps(2) using assms same [of a] by (metis empty_iff empty_set)
qed

lemma in_step_moved_on [simp]: "in_step nd (moved_on nd ks f l c) = in_step nd c"
  by (simp add: in_step_def)

lemma history_again:
  assumes laws: "commit_laws nd" "replay_law nd"
  shows "history nd k a bs c \<Longrightarrow> in_step nd a \<Longrightarrow> linked nd g (ctl_head a) bs \<Longrightarrow> k \<le> bhs_block_num (ctl_head a) \<Longrightarrow>
    \<forall>b \<in> set bs. bst_validated b \<Longrightarrow>
    \<exists>ks f l. (\<forall>i \<in> set ks. i \<le> k) \<and> apply_blocks nd validated_block bs (moved_on nd ks f l a) = Some (Inr (), c)"
proof (induction bs arbitrary: a)
  case Nil
  then show ?case by (auto simp: cret_def)
next
  case (Cons b bs)
  from Cons.prems(1) obtain ks f l b' s y where ks: "\<forall>i \<in> set ks. i \<le> k" and s: "s \<in> {complete_block, validated_block}"
    and core: "block_core b = block_core b'" and run: "apply_block nd b' s (moved_on nd ks f l a) = Some (Inr (), y)"
    and rest: "history nd k y bs c" unfolding history.simps by blast
  have s': "s \<noteq> incomplete_block" "\<not> skip_db_sessions nd s" using s by auto
  note eq = block_core_eqD [OF core]
  have "parent_known g b (ctl_head a) = parent_known g b' (ctl_head a)" unfolding parent_known_def by (simp only: eq(2))
  then have l: "linked nd g (ctl_head (moved_on nd ks f l a)) [b']" using Cons.prems(3) eq by simp
  from apply_block_in_step [OF _ l s'] Cons.prems(2) run have y: "block_applied nd b' s (moved_on nd ks f l a) y" "in_step nd y"
    by auto
  have h: "ctl_head y = block_core b" using block_applied_head [OF y(1)] core by simp
  have num: "bhs_block_num (ctl_head a) < bhs_block_num b" using Cons.prems(3) by (auto simp: room_def)
  have "linked nd g (ctl_head y) bs" using Cons.prems(3) h by simp
  moreover have "k \<le> bhs_block_num (ctl_head y)" using h num Cons.prems(4) by simp
  ultimately obtain ks' f' l' where ks': "\<forall>i \<in> set ks'. i \<le> k"
    and again: "apply_blocks nd validated_block bs (moved_on nd ks' f' l' y) = Some (Inr (), c)"
    using Cons.IH [OF rest y(2)] Cons.prems(5) by auto
  have "apply_block nd b validated_block (moved_on nd ks' f' l' (moved_on nd ks f l a)) = Some (Inr (), moved_on nd ks' f' l' y)"
    using ks' Cons.prems(4,5) by (intro apply_block_again [OF laws core _ s _ run]) (auto intro: order_trans)
  then have "apply_blocks nd validated_block (b # bs) (moved_on nd (ks @ ks') f' l' a) = Some (Inr (), c)"
    using again by (simp add: cbind_def)
  then show ?case using ks ks' by (intro exI [of _ "ks @ ks'"] exI [of _ f'] exI [of _ l']) auto
qed

text \<open>Valid blocks are applied again with any fork database, and leave it as it is.\<close>

lemma apply_blocks_again:
  assumes laws: "commit_laws nd" "replay_law nd"
  shows "apply_blocks nd validated_block bs a = Some (Inr (), c) \<Longrightarrow> \<forall>b \<in> set bs. bst_validated b \<Longrightarrow>
    apply_blocks nd validated_block bs (moved_on nd [] f l a) = Some (Inr (), moved_on nd [] f l c)"
proof (induction bs arbitrary: a)
  case (Cons b bs)
  then obtain y where y: "apply_block nd b validated_block a = Some (Inr (), y)" "apply_blocks nd validated_block bs y = Some (Inr (), c)"
    by (auto simp: cbind_Inr_iff)
  have "apply_block nd b validated_block (moved_on nd [] f l a) = Some (Inr (), moved_on nd [] f l y)"
    using Cons.prems(2) by (intro apply_block_again [OF laws refl _ _ _ y(1)]) auto
  with Cons.IH [OF y(2)] Cons.prems(2) show ?case by (simp add: cbind_def)
qed (simp add: cret_def)

lemma apply_blocks_fork_db:
  assumes "commit_laws nd" "replay_law nd" "apply_blocks nd validated_block bs a = Some (Inr (), c)" "\<forall>b \<in> set bs. bst_validated b"
  shows "ctl_fork_db c = ctl_fork_db a"
    "apply_blocks nd validated_block bs (a\<lparr>ctl_fork_db := f\<rparr>) = Some (Inr (), c\<lparr>ctl_fork_db := f\<rparr>)"
proof -
  note again = apply_blocks_again [OF assms]
  have "moved_on nd [] (ctl_fork_db a) (ctl_blog a) a = a" by (simp add: moved_on_def)
  with again [of "ctl_fork_db a" "ctl_blog a"] assms(3) have c: "c = moved_on nd [] (ctl_fork_db a) (ctl_blog a) c" by simp
  from arg_cong [OF c, of ctl_fork_db] show "ctl_fork_db c = ctl_fork_db a" by simp
  from arg_cong [OF c, of ctl_blog] have "ctl_blog c = ctl_blog a" by simp
  with again [of f "ctl_blog a"] show "apply_blocks nd validated_block bs (a\<lparr>ctl_fork_db := f\<rparr>) = Some (Inr (), c\<lparr>ctl_fork_db := f\<rparr>)"
    by (simp add: moved_on_def)
qed

section \<open>The fork database during a switch\<close>

definition same_cores :: "fork_database \<Rightarrow> fork_database \<Rightarrow> bool" where
  "same_cores f g \<longleftrightarrow> fdb_root f = fdb_root g \<and> map block_core (fdb_index f) = map block_core (fdb_index g)"

lemma find_map_core:
  "map block_core xs = map block_core ys \<Longrightarrow>
   map_option block_core (find (\<lambda>b. bhs_id b = i) xs) = map_option block_core (find (\<lambda>b. bhs_id b = i) ys)"
proof (induction xs arbitrary: ys)
  case (Cons x xs)
  then obtain y zs where y: "ys = y # zs" "block_core x = block_core y" "map block_core xs = map block_core zs" by (cases ys) auto
  then have "bhs_id x = bhs_id y" using block_core_eqD(1) by blast
  with Cons.IH [OF y(3)] y(1,2) show ?case by simp
qed simp

lemma parent_known_cores:
  assumes "same_cores f g"
  shows "parent_known f b h \<longleftrightarrow> parent_known g b h"
proof -
  have "map_option block_core (get_block f (prev_id b)) = map_option block_core (get_block g (prev_id b))"
    using assms find_map_core unfolding same_cores_def get_block_def by blast
  with assms show ?thesis unfolding parent_known_def same_cores_def
    by (cases "get_block f (prev_id b)"; cases "get_block g (prev_id b)") auto
qed

lemma linked_cores: "same_cores f g \<Longrightarrow> linked nd f h bs \<longleftrightarrow> linked nd g h bs"
  using parent_known_cores by (induction bs arbitrary: h) auto

lemma subtree_cores:
  assumes "map block_core xs = map block_core ys" and "i \<in> subtree xs p"
  shows "i \<in> subtree ys p"
  using assms(2)
proof (induction rule: subtree.induct)
  case (child i b)
  then have "block_core b \<in> set (map block_core ys)" unfolding assms(1) [symmetric] by simp
  then obtain d where d: "d \<in> set ys" "block_core b = block_core d" by auto
  with block_core_eqD(1,2) [OF d(2)] child show ?case by (metis subtree.child)
qed (rule subtree.start)

lemma find_filter_weaker: "(\<And>x. P x \<Longrightarrow> Q x) \<Longrightarrow> find P (filter Q xs) = find P xs"
  by (induction xs) auto

lemma linked_removed:
  assumes "linked nd f h bs" and "\<forall>b \<in> set bs. prev_id b \<notin> S"
  shows "linked nd (f\<lparr>fdb_index := filter (\<lambda>b. bhs_id b \<notin> S) (fdb_index f)\<rparr>) h bs"
proof -
  let ?g = "f\<lparr>fdb_index := filter (\<lambda>b. bhs_id b \<notin> S) (fdb_index f)\<rparr>"
  have "parent_known ?g b h = parent_known f b h" if "prev_id b \<notin> S" for b h
  proof -
    have "get_block ?g (prev_id b) = get_block f (prev_id b)"
      unfolding get_block_def using that by (auto intro: find_filter_weaker)
    then show ?thesis unfolding parent_known_def by (cases "get_block f (prev_id b)") simp_all
  qed
  with assms show ?thesis by (induction bs arbitrary: h) auto
qed

text \<open>
  What holds of the blocks of a new branch that are still to be applied: they are in the index, and no
  valid block builds on them.
\<close>

definition unapplied :: "fork_database \<Rightarrow> block_state \<Rightarrow> bool" where
  "unapplied f b \<longleftrightarrow>
     block_core b \<in> block_core ` set (fdb_index f) \<and>
     (\<forall>v \<in> set (fdb_index f). bst_validated v \<longrightarrow> bhs_id v \<notin> subtree (fdb_index f) (bhs_id b))"

lemma core_in_index:
  assumes "fdb_inv f" and "block_core b \<in> block_core ` set (fdb_index f)"
  shows "block_ok b" "fdb_root f = Some root \<Longrightarrow> bhs_block_num root < bhs_block_num b"
proof -
  from assms(2) obtain y where y: "y \<in> set (fdb_index f)" "block_core b = block_core y" by auto
  then have "block_ok y" "fdb_root f = Some root \<Longrightarrow> bhs_block_num root < bhs_block_num y"
    using assms(1) by (auto simp: fdb_inv_def tree_inv_def)
  with block_core_eqD [OF y(2)] show "block_ok b" "fdb_root f = Some root \<Longrightarrow> bhs_block_num root < bhs_block_num b"
    by (auto simp: block_ok_def)
qed

lemma fdb_inv_index_ok: "fdb_inv f \<Longrightarrow> index_ok (fdb_index f)"
  by (auto simp: fdb_inv_def intro: tree_inv_index_ok)

lemma remove_unapplied:
  assumes "fdb_inv f" and "unapplied f b"
  shows "remove_impl (bhs_id b) f =
    Some (Inr (f\<lparr>fdb_index := filter (\<lambda>x. bhs_id x \<notin> subtree (fdb_index f) (bhs_id b)) (fdb_index f)\<rparr>))"
proof -
  from assms(1) obtain root head where r: "fdb_root f = Some root" "fdb_head f = Some head" by (auto simp: fdb_inv_def)
  have b: "block_ok b" "bhs_block_num root < bhs_block_num b" using core_in_index [OF assms(1)] assms(2) r(1) by (auto simp: unapplied_def)
  have "bhs_id root \<notin> subtree (fdb_index f) (bhs_id b)"
  proof
    assume "bhs_id root \<in> subtree (fdb_index f) (bhs_id b)"
    from subtree_num [OF this] b assms(1) r(1) show False
      by (auto simp: fdb_inv_def tree_inv_def block_ok_def word_less_nat_alt)
  qed
  moreover have "bhs_id v \<notin> subtree (fdb_index f) (bhs_id b)" if "v \<in> set (fdb_index f)" "bst_validated v" for v
    using assms(2) that by (auto simp: unapplied_def)
  ultimately have "bhs_id head \<notin> subtree (fdb_index f) (bhs_id b)"
    using head_in_index [OF assms(1) r] by (metis block_core_eqD(1))
  with remove_impl_scan [OF fdb_inv_index_ok [OF assms(1)] r(2)] show ?thesis by simp
qed

lemma linked_above:
  assumes "linked nd f h bs" and "b \<in> set bs"
  shows "bhs_block_num h < bhs_block_num b"
  using assms
proof (induction bs arbitrary: h)
  case (Cons x bs)
  then have x: "bhs_block_num h < bhs_block_num x" by (simp add: room_def)
  show ?case
  proof (cases "b = x")
    case False
    with Cons have "bhs_block_num x < bhs_block_num b" by (metis core_fields(3) linked.simps(2) set_ConsD)
    with x show ?thesis by simp
  qed (use x in simp)
qed simp

lemma linked_order:
  assumes "linked nd f h (xs @ b # ys)" and "d \<in> set xs"
  shows "bhs_block_num d < bhs_block_num b"
  using assms
proof (induction xs arbitrary: h)
  case (Cons x xs)
  show ?case
  proof (cases "d = x")
    case True
    with Cons.prems linked_above [of nd f "block_core x" "xs @ b # ys" b] show ?thesis by simp
  qed (use Cons in auto)
qed simp

lemma mark_valid_cores: "mark_valid b f = Inr g \<Longrightarrow> same_cores f g"
  using mark_valid_index [of b f g] by (simp add: same_cores_def)

lemma mark_valid_new:
  assumes "mark_valid b f = Inr g" and "v \<in> set (fdb_index g)" and "bst_validated v" and "bhs_id v \<noteq> bhs_id b"
  shows "v \<in> set (fdb_index f)"
  using assms by (auto simp: mark_valid_def ebind_Inr_iff Let_def split: if_splits option.splits)

lemma unapplied_after_mark:
  assumes inv: "fdb_inv f" "fdb_inv g" and mark: "mark_valid b f = Inr g" and un: "unapplied f b'" "unapplied f b"
    and num: "bhs_block_num b < bhs_block_num b'"
  shows "unapplied g b'"
proof -
  have cores: "map block_core (fdb_index f) = map block_core (fdb_index g)"
    using mark_valid_cores [OF mark] by (simp add: same_cores_def)
  have "bhs_id v \<notin> subtree (fdb_index g) (bhs_id b')" if v: "v \<in> set (fdb_index g)" "bst_validated v" for v
  proof
    assume "bhs_id v \<in> subtree (fdb_index g) (bhs_id b')"
    then have sub: "bhs_id v \<in> subtree (fdb_index f) (bhs_id b')" using subtree_cores [OF cores [symmetric]] by blast
    have "bhs_id v = bhs_id b" using un(1) sub mark_valid_new [OF mark v] v(2) unfolding unapplied_def by blast
    with sub have "unat (num_from_id (bhs_id b')) \<le> unat (num_from_id (bhs_id b))"
      using subtree_num fdb_inv_index_ok [OF inv(1)] by (metis index_ok_def)
    moreover have "block_ok b" "block_ok b'" using core_in_index(1) [OF inv(1)] un by (auto simp: unapplied_def)
    ultimately show False using num by (simp add: block_ok_def word_less_nat_alt)
  qed
  moreover have "block_core ` set (fdb_index g) = block_core ` set (fdb_index f)" using cores by (metis list.set_map)
  ultimately show ?thesis using un(1) by (simp add: unapplied_def)
qed

text \<open>
  The outcome of applying the blocks \<open>bs\<close> to \<open>a\<close>, where \<open>c\<close> is the state before the switch: all are applied
  in order, or one throws and only the fork database differs from \<open>c\<close>, without the blocks that build on it.
\<close>

definition without :: "block_id_type \<Rightarrow> fork_database \<Rightarrow> fork_database" where
  "without i f = f\<lparr>fdb_index := filter (\<lambda>z. bhs_id z \<notin> subtree (fdb_index f) i) (fdb_index f)\<rparr>"

definition branch_outcome ::
  "'d node \<Rightarrow> 'd controller_state \<Rightarrow> block_state list \<Rightarrow> 'd controller_state \<Rightarrow> 'a result \<Rightarrow> 'd controller_state \<Rightarrow> bool" where
  "branch_outcome nd a bs c r c' \<longleftrightarrow> (case r of
       Inr _ \<Rightarrow> apply_blocks nd complete_block bs a = Some (Inr (), c')
     | Inl e \<Rightarrow> \<exists>good b rest x. bs = good @ b # rest \<and> apply_blocks nd complete_block good a = Some (Inr (), x) \<and>
         apply_block nd b complete_block x = Some (Inl e, x) \<and> c' = c\<lparr>ctl_fork_db := without (bhs_id b) (ctl_fork_db x)\<rparr>)"

lemma apply_blocks_append:
  "apply_blocks nd s xs a = Some (Inr (), x) \<Longrightarrow> apply_blocks nd s (xs @ ys) a = apply_blocks nd s ys x"
  by (induction xs arbitrary: a) (auto simp: cret_def cbind_def split: option.splits sum.splits)

lemma branch_reversed:
  assumes laws: "commit_laws nd" "replay_law nd" and second: "second \<noteq> []" "\<forall>b \<in> set second. bst_validated b"
    and redo: "apply_blocks nd validated_block (rev second) a = Some (Inr (), c)" "bhs_id (ctl_head a) = prev_id (last second)"
    and app: "applied nd a good x" and inv: "fdb_inv (ctl_fork_db x)" and lin: "linked nd (ctl_fork_db x) (ctl_head a) (good @ b # bs)"
    and good: "\<forall>d \<in> set good. block_core d \<in> block_core ` set (fdb_index (ctl_fork_db x))"
    and b: "\<not> bst_validated b" "unapplied (ctl_fork_db x) b" and run: "apply_block nd b complete_block x = Some (Inl e, x)"
  shows "apply_branch nd second (b # bs) (length good) x = Some (Inl e, c\<lparr>ctl_fork_db := without (bhs_id b) (ctl_fork_db x)\<rparr>)"
proof -
  let ?f = "ctl_fork_db x" and ?g = "without (bhs_id b) (ctl_fork_db x)"
  have bok: "block_ok b" using core_in_index(1) [OF inv] b(2) by (simp add: unapplied_def)
  have "prev_id d \<notin> subtree (fdb_index ?f) (bhs_id b)" if d: "d \<in> set good" for d
  proof
    assume "prev_id d \<in> subtree (fdb_index ?f) (bhs_id b)"
    then have "unat (num_from_id (bhs_id b)) \<le> unat (num_from_id (prev_id d))"
      using subtree_num fdb_inv_index_ok [OF inv] by (metis index_ok_def)
    moreover have "block_ok d" using core_in_index(1) [OF inv] good d by blast
    moreover have "bhs_block_num d < bhs_block_num b" using lin d by (rule linked_order)
    ultimately show False using bok by (simp add: block_ok_def word_less_nat_alt)
  qed
  moreover have "linked nd ?f (ctl_head a) good" using lin by (simp add: linked_append)
  ultimately have "linked nd ?g (ctl_head a) good" unfolding without_def by (intro linked_removed) auto
  from pop_blocks_undo [OF app this]
  have pops: "repeat_cmd (length good) (pop_block nd) (x\<lparr>ctl_fork_db := ?g\<rparr>) = Some (Inr (), a\<lparr>ctl_fork_db := ?g\<rparr>)" .
  have again: "apply_blocks nd validated_block (rev second) (a\<lparr>ctl_fork_db := ?g\<rparr>) = Some (Inr (), c\<lparr>ctl_fork_db := ?g\<rparr>)"
    using second(2) by (intro apply_blocks_fork_db(2) [OF laws redo(1)]) simp
  have rem: "cremove (bhs_id b) x = Some (Inr (), x\<lparr>ctl_fork_db := ?g\<rparr>)"
    using remove_unapplied [OF inv b(2)] by (simp add: cremove_def cfork_def without_def)
  show ?thesis using b(1) run rem pops again second(1) redo(2)
    by (simp add: cbind_def ccatch_def cassert_def cresult_def cthrow_def)
qed

lemma apply_branch_cases:
  assumes laws: "commit_laws nd" "replay_law nd" and second: "second \<noteq> []" "\<forall>b \<in> set second. bst_validated b"
    and redo: "apply_blocks nd validated_block (rev second) a = Some (Inr (), c)" "bhs_id (ctl_head a) = prev_id (last second)"
  shows "applied nd a good x \<Longrightarrow> apply_blocks nd complete_block good a = Some (Inr (), x) \<Longrightarrow> in_step nd x \<Longrightarrow>
    fdb_inv (ctl_fork_db x) \<Longrightarrow> linked nd (ctl_fork_db x) (ctl_head a) (good @ bs) \<Longrightarrow>
    (\<forall>b \<in> set good. block_core b \<in> block_core ` set (fdb_index (ctl_fork_db x))) \<Longrightarrow>
    (\<forall>b \<in> set bs. \<not> bst_validated b \<and> unapplied (ctl_fork_db x) b) \<Longrightarrow>
    \<exists>r c'. apply_branch nd second bs (length good) x = Some (r, c') \<and> branch_outcome nd a (good @ bs) c r c' \<and>
      (case r of Inl e \<Rightarrow> True | Inr _ \<Rightarrow> applied nd a (good @ bs) c')"
proof (induction bs arbitrary: good x)
  case Nil
  then show ?case by (simp add: cret_def branch_outcome_def)
next
  case (Cons b bs)
  let ?f = "ctl_fork_db x"
  have l: "linked nd ?f (ctl_head x) [b]" "linked nd ?f (block_core b) bs"
    using Cons.prems(5) applied_head [OF Cons.prems(1)] by (auto simp: linked_append split: if_splits)
  have b: "\<not> bst_validated b" "unapplied ?f b" using Cons.prems(7) by simp_all
  from apply_block_in_step [OF Cons.prems(3) l(1) _ skip_db_sessions_simps(1)] obtain r y where
    run: "apply_block nd b complete_block x = Some (r, y)"
    and res: "case r of Inl e \<Rightarrow> y = x | Inr _ \<Rightarrow> block_applied nd b complete_block x y \<and> in_step nd y" by blast
  show ?case
  proof (cases r)
    case (Inl e)
    then have e: "apply_block nd b complete_block x = Some (Inl e, x)" using run res by simp
    note branch_reversed [OF laws second redo Cons.prems(1,4,5,6) b e]
    moreover have "branch_outcome nd a (good @ b # bs) c (Inl e :: unit result) (c\<lparr>ctl_fork_db := without (bhs_id b) ?f\<rparr>)"
      unfolding branch_outcome_def sum.case
      using Cons.prems(2) e by (intro exI [of _ good] exI [of _ b] exI [of _ bs] exI [of _ x]) simp
    ultimately show ?thesis by auto
  next
    case (Inr u)
    with res have y: "block_applied nd b complete_block x y" "in_step nd y" by auto
    then have mark: "mark_valid b ?f = Inr (ctl_fork_db y)" by (simp add: block_applied_def)
    have inv: "fdb_inv (ctl_fork_db y)" by (rule mark_valid_inv [OF mark Cons.prems(4)])
    have cores: "same_cores ?f (ctl_fork_db y)" by (rule mark_valid_cores [OF mark])
    then have img: "block_core ` set (fdb_index (ctl_fork_db y)) = block_core ` set (fdb_index ?f)"
      unfolding same_cores_def by (metis list.set_map)
    have app: "applied nd a (good @ [b]) y" using Cons.prems(1) y(1) by (auto simp: applied_append)
    have ran: "apply_blocks nd complete_block (good @ [b]) a = Some (Inr (), y)"
      using apply_blocks_append [OF Cons.prems(2)] run Inr by (simp add: cbind_def cret_def)
    have lin: "linked nd (ctl_fork_db y) (ctl_head a) ((good @ [b]) @ bs)"
      using Cons.prems(5) linked_cores [OF cores, of nd] by simp
    have ins: "\<forall>d \<in> set (good @ [b]). block_core d \<in> block_core ` set (fdb_index (ctl_fork_db y))"
      using Cons.prems(6) b(2) unfolding img by (simp add: unapplied_def)
    have "unapplied (ctl_fork_db y) b'" if "b' \<in> set bs" for b'
      using unapplied_after_mark [OF Cons.prems(4) inv mark _ b(2)] linked_above [OF l(2) that] Cons.prems(7) that by simp
    then have "\<forall>d \<in> set bs. \<not> bst_validated d \<and> unapplied (ctl_fork_db y) d" using Cons.prems(7) by simp
    note IH = Cons.IH [OF app ran y(2) inv lin ins this]
    have "apply_branch nd second (b # bs) (length good) x = apply_branch nd second bs (length (good @ [b])) y"
      using b(1) run Inr by (simp add: cbind_def ccatch_def)
    then show ?thesis using IH by (simp only: append_assoc append_Cons append_Nil)
  qed
qed

section \<open>Switching is all or nothing\<close>

definition valid_closed :: "fork_database \<Rightarrow> bool" where
  "valid_closed f \<longleftrightarrow>
     (\<forall>b \<in> set (fdb_index f). \<forall>p \<in> set (fdb_index f). bst_validated b \<longrightarrow> prev_id b = bhs_id p \<longrightarrow> bst_validated p)"

lemma valid_closed_unapplied:
  assumes "fdb_inv f" and closed: "valid_closed f" and b: "b \<in> set (fdb_index f)" "\<not> bst_validated b"
  shows "unapplied f b"
proof -
  have uniq: "x = y" if "x \<in> set (fdb_index f)" "y \<in> set (fdb_index f)" "bhs_id x = bhs_id y" for x y
    using that fdb_inv_index_ok [OF assms(1)] by (simp add: index_ok_def distinct_map inj_on_def)
  have "\<forall>v \<in> set (fdb_index f). bhs_id v = i \<longrightarrow> \<not> bst_validated v" if "i \<in> subtree (fdb_index f) (bhs_id b)" for i
    using that
  proof (induction rule: subtree.induct)
    case start
    then show ?case using uniq b by blast
  next
    case (child i x)
    have "\<not> bst_validated v" if v: "v \<in> set (fdb_index f)" "bhs_id v = bhs_id x" for v
    proof -
      have x: "v = x" using uniq v child.hyps(2) by blast
      from child.hyps(1) obtain p where p: "p \<in> set (fdb_index f)" "bhs_id p = i"
        by (cases rule: subtree.cases) (use b in auto)
      with child.IH have "\<not> bst_validated p" by blast
      with closed child.hyps(2,3) p x show ?thesis unfolding valid_closed_def by metis
    qed
    then show ?case by blast
  qed
  with b(1) show ?thesis unfolding unapplied_def by blast
qed

lemma path_in_index: "path f i bs a \<Longrightarrow> b \<in> set bs \<Longrightarrow> b \<in> set (fdb_index f)"
  by (induction bs arbitrary: i) (auto dest: get_block_SomeD)

lemma path_last: "path f i bs a \<Longrightarrow> bs \<noteq> [] \<Longrightarrow> prev_id (last bs) = a"
  by (induction bs arbitrary: i) (auto split: if_splits)

lemma path_append_mid: "path f i (xs @ n # ys) a \<Longrightarrow> path f i xs j \<Longrightarrow> path f j (n # ys) a"
  by (induction xs arbitrary: i) auto

lemma path_linked:
  assumes inv: "fdb_inv f" and "path f i bs anc" and "bs \<noteq> []" and "parent_known f (last bs) h"
    and "bhs_block_num h = num_from_id anc" and "room (bhs_block_num h)"
    and "\<forall>b \<in> set bs. nd_has_block nd (bhs_id b) \<and> room (bhs_block_num b)"
  shows "linked nd f h (rev bs)"
  using assms(2-)
proof (induction bs arbitrary: i)
  case (Cons b bs)
  have b: "b \<in> set (fdb_index f)" "bhs_id b = i" using Cons.prems(1) get_block_SomeD by auto
  then have ok: "block_ok b" using fdb_inv_index_ok [OF inv] by (auto simp: index_ok_def)
  show ?case
  proof (cases bs)
    case Nil
    with Cons.prems have "prev_id b = anc" by simp
    then have "bhs_block_num b = bhs_block_num h + 1"
      using ok Cons.prems(4,5) by (auto simp: block_ok_def room_def word_less_nat_alt word_unat_eq_iff unat_word_ariths)
    with Nil Cons.prems show ?thesis by simp
  next
    case (Cons x xs)
    with Cons.prems have g: "get_block f (prev_id b) = Some x" by simp
    then have x: "x \<in> set (fdb_index f)" "bhs_id x = prev_id b" using get_block_SomeD by auto
    then have "block_ok x" using fdb_inv_index_ok [OF inv] by (auto simp: index_ok_def)
    moreover have rx: "room (bhs_block_num x)" using Cons Cons.prems by simp
    ultimately have "bhs_block_num b = bhs_block_num x + 1"
      using ok x(2) by (auto simp: block_ok_def room_def word_less_nat_alt word_unat_eq_iff unat_word_ariths)
    moreover have "linked nd f h (rev bs)" using Cons.IH [of "prev_id b"] Cons.prems Cons by simp
    ultimately show ?thesis using Cons g rx Cons.prems by (simp add: linked_append parent_known_def)
  qed
qed simp

lemma parent_known_id:
  assumes "parent_known f b h"
  shows "bhs_id h = prev_id b"
proof -
  from assms obtain p where "block_core p = h" "bhs_id p = prev_id b"
    using get_block_SomeD [of f "prev_id b"] by (auto simp: parent_known_def split: option.splits)
  with core_fields(1) [of p] show ?thesis by simp
qed

lemma switch_forks_cases:
  assumes laws: "commit_laws nd" "replay_law nd" and a: "in_step nd a" and inv: "fdb_inv (ctl_fork_db c)" "valid_closed (ctl_fork_db c)"
    and ids: "prev_id new_head \<noteq> bhs_id (ctl_head c)" "bhs_id new_head \<noteq> bhs_id (ctl_head c)"
    and br: "fetch_branch_from (bhs_id new_head) (bhs_id (ctl_head c)) (ctl_fork_db c) = Some (Inr (first, second))"
    and p: "path (ctl_fork_db c) (bhs_id new_head) first (bhs_id (ctl_head a))"
    and prev: "prev_id (last second) = bhs_id (ctl_head a)"
    and second: "second \<noteq> []" "\<forall>b \<in> set second. bst_validated b" and first: "\<forall>b \<in> set first. \<not> bst_validated b"
    and redo: "apply_blocks nd validated_block (rev second) a = Some (Inr (), c)"
    and l2: "linked nd (ctl_fork_db c) (ctl_head a) (rev second)" and l1: "linked nd (ctl_fork_db c) (ctl_head a) (rev first)"
  shows "\<exists>r c'. repeat_cmd (length second) (pop_block nd) c = Some (Inr (), a) \<and> switch_forks nd new_head s c = Some (r, c') \<and>
    branch_outcome nd a (rev first) c r c' \<and> (case r of Inl e \<Rightarrow> True | Inr changed \<Rightarrow> changed \<and> bhs_id (ctl_head c') = bhs_id new_head)"
proof -
  let ?f = "ctl_fork_db c"
  obtain root where r: "fdb_root ?f = Some root" using inv(1) by (auto simp: fdb_inv_def)
  have fa: "ctl_fork_db a = ?f" using apply_blocks_fork_db(1) [OF laws redo] second(2) by simp
  have app: "applied nd a (rev second) c" using apply_blocks_applied [OF redo a l2] by simp
  from pop_blocks_undo [OF app l2] fa have pops: "repeat_cmd (length second) (pop_block nd) c = Some (Inr (), a)" by simp
  have mem: "b \<in> set (fdb_index ?f)" if "b \<in> set first" for b
    using path_in_index [OF p that] .
  have "\<forall>b \<in> set (rev first). \<not> bst_validated b \<and> unapplied (ctl_fork_db a) b"
    using first mem valid_closed_unapplied [OF inv] fa by simp
  with apply_branch_cases [OF laws second redo, of "[]" a "rev first", unfolded append_Nil list.size(3)] prev a inv(1) fa l1 obtain r' c' where
    run: "apply_branch nd second (rev first) 0 a = Some (r', c')" "branch_outcome nd a (rev first) c r' c'"
    and res: "case r' of Inl e \<Rightarrow> True | Inr _ \<Rightarrow> applied nd a (rev first) c'" by (auto simp: cret_def)
  have sw: "switch_forks nd new_head s c = (case r' of Inl e \<Rightarrow> Some (Inl e, c') | Inr _ \<Rightarrow> Some (Inr True, c'))"
    using ids br second(1) pops prev run
    by (simp add: switch_forks_def cbind_def cassert_def cresult_def cret_def split: sum.splits)
  show ?thesis
  proof (cases r')
    case (Inl e)
    with sw run(2) pops show ?thesis by (intro exI [of _ "Inl e"] exI [of _ c']) (simp add: branch_outcome_def)
  next
    case (Inr u)
    with res have "ctl_head c' = (if first = [] then ctl_head a else block_core (hd first))"
      using applied_head [of nd a "rev first" c'] by (simp add: last_rev)
    moreover have "bhs_id (hd first) = bhs_id new_head" if "first \<noteq> []"
      using p that get_block_SomeD by (cases first) auto
    ultimately have "bhs_id (ctl_head c') = bhs_id new_head" using p by (cases "first = []") auto
    with sw Inr run(2) pops show ?thesis by (intro exI [of _ "Inr True"] exI [of _ c']) (simp add: branch_outcome_def)
  qed
qed

text \<open>The old and the new branch, as \<^verbatim>\<open>fetch_branch_from\<close> returns them, are linked down to the common ancestor.\<close>

lemma branches_linked:
  assumes inv: "fdb_inv f" and br: "fetch_branch_from i j f = Some (Inr (first, second))" and second: "second \<noteq> []"
    and anc: "parent_known f (last second) h" "num_from_id (bhs_id h) = bhs_block_num h" and room: "room (bhs_block_num h)"
      "\<forall>b \<in> set first \<union> set second. nd_has_block nd (bhs_id b) \<and> room (bhs_block_num b)"
  shows "path f i first (bhs_id h)" "prev_id (last second) = bhs_id h" "linked nd f h (rev second)" "linked nd f h (rev first)"
proof -
  obtain root where r: "fdb_root f = Some root" using inv(1) by (auto simp: fdb_inv_def)
  have "\<not> (block_or_root f root i = None \<or> block_or_root f root j = None)"
  proof
    assume "block_or_root f root i = None \<or> block_or_root f root j = None"
    from fetch_branch_from_missing [OF r this] br show False by simp
  qed
  then obtain b1 b2 where "block_or_root f root i = Some b1" "block_or_root f root j = Some b2" by auto
  from fetch_branch_from_spec [OF inv r this] br obtain k where
    p: "path f i first k" "path f j second k" by auto
  have prev: "prev_id (last second) = k" by (rule path_last [OF p(2) second(1)])
  have k: "k = bhs_id h" using parent_known_id [OF anc(1)] prev by simp
  then show "path f i first (bhs_id h)" "prev_id (last second) = bhs_id h" using p prev by simp_all
  show "linked nd f h (rev second)" using path_linked [OF inv p(2) second anc(1)] anc(2) k room by auto
  show "linked nd f h (rev first)"
  proof (cases "first = []")
    case False
    have "prev_id (last first) = prev_id (last second)" using path_last [OF p(1) False] prev by simp
    then have "parent_known f (last first) h" using anc(1) unfolding parent_known_def by (simp only:)
    then show ?thesis using path_linked [OF inv p(1) False] anc(2) k room by auto
  qed simp
qed

section \<open>Logging irreversible blocks\<close>

lemma log_blocks_all:
  assumes "\<not> nd_irreversible_mode nd" and "\<And>b. b \<in> set bs \<Longrightarrow> nd_append_error nd b = None"
  shows "\<exists>d. log_blocks nd bs root_id c
    = Some (Inr (None, if bs = [] then root_id else bhs_id (last bs)), c\<lparr>ctl_blog := ctl_blog c @ bs, ctl_db := d\<rparr>)"
  using assms(2)
proof (induction bs arbitrary: root_id c)
  case Nil
  then show ?case by (intro exI [of _ "ctl_db c"]) (simp add: cret_def)
next
  case (Cons b bs)
  let ?c = "c\<lparr>ctl_blog := ctl_blog c @ [b], ctl_db := nd_commit nd (bhs_block_num b) (ctl_db c)\<rparr>"
  have "log_block nd b c = Some (Inr (), ?c)"
    using assms(1) Cons.prems by (simp add: log_block_def cbind_def cret_def cdb_def)
  moreover from Cons obtain d where "log_blocks nd bs (bhs_id b) ?c
    = Some (Inr (None, if bs = [] then bhs_id b else bhs_id (last bs)), ?c\<lparr>ctl_blog := ctl_blog ?c @ bs, ctl_db := d\<rparr>)"
    by fastforce
  ultimately show ?case by (intro exI [of _ d]) simp
qed

lemma path_find_num:
  assumes t: "tree_inv root (fdb_index f)" and "path f i bs (bhs_id root)"
    and "bhs_block_num root < k" and "k \<le> num_from_id i"
  shows "\<exists>xs n rest. bs = xs @ n # rest \<and> filter (\<lambda>b. bhs_block_num b \<le> k) bs = n # rest \<and> bhs_block_num n = k
    \<and> path f i xs (bhs_id n)"
  using assms(2-)
proof (induction bs arbitrary: i)
  case Nil
  then show ?case using t by (auto simp: tree_inv_def)
next
  case (Cons b bs)
  then have b: "b \<in> set (fdb_index f)" "bhs_id b = i" "get_block f i = Some b" "path f (prev_id b) bs (bhs_id root)"
    using get_block_SomeD by auto
  then have ok: "num_from_id i = bhs_block_num b" "unat (bhs_block_num b) = Suc (unat (num_from_id (prev_id b)))"
    using t by (auto simp: tree_inv_def block_ok_def)
  show ?case
  proof (cases "bhs_block_num b = k")
    case True
    have "bhs_block_num x \<le> k" if "x \<in> set bs" for x
      using path_nums [OF t b(4) that] ok True by (simp add: word_le_nat_alt)
    then have "filter (\<lambda>b. bhs_block_num b \<le> k) bs = bs" by (simp add: filter_id_conv)
    with True b(2) show ?thesis by (intro exI [of _ "[]"] exI [of _ b] exI [of _ bs]) simp
  next
    case False
    then have "k \<le> num_from_id (prev_id b)" using Cons.prems(3) ok by (auto simp: word_le_nat_alt word_unat_eq_iff)
    from Cons.IH [OF b(4) Cons.prems(2) this] obtain xs n rest where
      "bs = xs @ n # rest" "filter (\<lambda>b. bhs_block_num b \<le> k) bs = n # rest" "bhs_block_num n = k" "path f (prev_id b) xs (bhs_id n)"
      by blast
    moreover have "\<not> bhs_block_num b \<le> k" using False Cons.prems(3) ok(1) by simp
    ultimately show ?thesis using b(3) by (intro exI [of _ "b # xs"] exI [of _ n] exI [of _ rest]) simp
  qed
qed

lemma path_subtree: "path f i xs j \<Longrightarrow> i \<in> subtree (fdb_index f) j"
proof (induction xs arbitrary: i)
  case (Cons b xs)
  then have "b \<in> set (fdb_index f)" "bhs_id b = i" "prev_id b \<in> subtree (fdb_index f) j" using get_block_SomeD by auto
  then show ?case by (metis subtree.child)
qed (auto intro: subtree.start)

lemma path_valid:
  assumes closed: "valid_closed f" and "path f i bs a" and "get_block f i = Some b" and "bst_validated b"
  shows "\<forall>x \<in> set bs. bst_validated x"
  using assms(2-)
proof (induction bs arbitrary: i b)
  case (Cons x bs)
  then have x: "x = b" "x \<in> set (fdb_index f)" using get_block_SomeD by auto
  show ?case
  proof (cases bs)
    case (Cons y ys)
    with Cons.prems(1) have y: "get_block f (prev_id x) = Some y" by simp
    then have "y \<in> set (fdb_index f)" "bhs_id y = prev_id x" using get_block_SomeD by auto
    with closed x Cons.prems(3) have "bst_validated y" unfolding valid_closed_def by metis
    with Cons.IH [of "prev_id x" y] Cons.prems x y show ?thesis by simp
  qed (use Cons.prems x in simp)
qed simp

lemma log_irreversible_run:
  assumes nd: "\<not> nd_irreversible_mode nd" "\<And>b. nd_append_error nd b = None"
    and inv: "fdb_inv (ctl_fork_db c)" "valid_closed (ctl_fork_db c)"
    and r: "fdb_root (ctl_fork_db c) = Some root" "fdb_head (ctl_fork_db c) = Some head"
    and log: "ctl_blog c \<noteq> []" "bhs_id (last (ctl_blog c)) = bhs_id root"
    and lib: "bhs_block_num root < bhs_dpos_irreversible_blocknum head" "bhs_dpos_irreversible_blocknum head \<le> bhs_block_num head"
  shows "\<exists>c' n bs. log_irreversible nd c = Some (Inr (), c') \<and>
    path (ctl_fork_db c) (bhs_id n) (n # bs) (bhs_id root) \<and> bhs_block_num n = bhs_dpos_irreversible_blocknum head \<and>
    ctl_blog c' = ctl_blog c @ rev (n # bs) \<and> fdb_root (ctl_fork_db c') = Some n \<and> fdb_head (ctl_fork_db c') = Some head \<and>
    fdb_inv (ctl_fork_db c') \<and>
    fdb_index (ctl_fork_db c') = filter (\<lambda>b. bhs_id b \<in> subtree (fdb_index (ctl_fork_db c)) (bhs_id n) \<and> bhs_id b \<noteq> bhs_id n)
      (fdb_index (ctl_fork_db c))"
proof -
  let ?f = "ctl_fork_db c" and ?k = "bhs_dpos_irreversible_blocknum head"
  have t: "tree_inv root (fdb_index ?f)" using inv(1) r by (auto simp: fdb_inv_def)
  have rnum: "num_from_id (bhs_id root) = bhs_block_num root" using t by (simp add: tree_inv_def)
  have "bhs_id head \<noteq> bhs_id root"
  proof
    assume "bhs_id head = bhs_id root"
    then have "\<not> (\<exists>b \<in> set (fdb_index ?f). bst_validated b \<and> block_core b = block_core head)"
      using tree_inv_root [OF t] by (metis block_core_eqD(1) imageI)
    then have "block_core head = block_core root"
      using inv(1) r by (auto simp: fdb_inv_def head_inv_def)
    from block_core_eqD(3) [OF this] lib show False by simp
  qed
  with head_in_index [OF inv(1) r] obtain b where b: "b \<in> set (fdb_index ?f)" "bst_validated b" "block_core b = block_core head" by blast
  have bid: "bhs_id b = bhs_id head" "bhs_block_num b = bhs_block_num head" using block_core_eqD [OF b(3)] by simp_all
  have gb: "get_block ?f (bhs_id head) = Some b" using get_block_member [of ?f b] b(1) t bid by (simp add: tree_inv_def)
  from fetch_branch_spec [OF inv(1) r(1), of "bhs_id head" ?k] gb obtain bs where
    p: "path ?f (bhs_id head) bs (bhs_id root)" and fb: "fetch_branch (bhs_id head) ?k ?f = Some (filter (\<lambda>b. bhs_block_num b \<le> ?k) bs)"
    by auto
  have "?k \<le> num_from_id (bhs_id head)" using lib(2) b(1) bid t by (auto simp: tree_inv_def block_ok_def)
  from path_find_num [OF t p lib(1) this] obtain xs n rest where n: "bs = xs @ n # rest"
    "filter (\<lambda>b. bhs_block_num b \<le> ?k) bs = n # rest" "bhs_block_num n = ?k" "path ?f (bhs_id head) xs (bhs_id n)" by blast
  have pn: "path ?f (bhs_id n) (n # rest) (bhs_id root)" using p n(1,4) by (metis path_append_mid)
  have vn: "bst_validated n" using path_valid [OF inv(2) p gb b(2)] n(1) by simp
  have gn: "get_block ?f (bhs_id n) = Some n" using pn by simp
  have up: "bhs_id head \<in> subtree (fdb_index ?f) (bhs_id n)" by (rule path_subtree [OF n(4)])
  obtain d where lb: "log_blocks nd (rev (n # rest)) (bhs_id root) c = Some (Inr (None, bhs_id n),
      c\<lparr>ctl_blog := ctl_blog c @ rev (n # rest), ctl_db := d\<rparr>)"
    using log_blocks_all [OF nd(1), of "rev (n # rest)" "bhs_id root" c] nd(2) by (auto simp: last_rev)
  have "bhs_id n \<noteq> bhs_id root" using gn tree_inv_root [OF t] get_block_SomeD by (metis imageI)
  then have run: "log_irreversible nd c = cfork (advance_root (bhs_id n)) (c\<lparr>ctl_blog := ctl_blog c @ rev (n # rest), ctl_db := d\<rparr>)"
    using r log rnum lib(1) [folded not_le] fb n(2) lb nd(1)
    by (simp add: log_irreversible_def cbind_def cassert_def cresult_def fork_db_head_def advance_to_def cret_def cfork_def Let_def
        split: option.splits prod.splits)
  from advance_root_step [OF inv(1) r(2) gn vn] up
  have "advance_root (bhs_id n) ?f = Some (None, ?f\<lparr>fdb_root := Some n,
      fdb_index := filter (\<lambda>b. bhs_id b \<in> subtree (fdb_index ?f) (bhs_id n) \<and> bhs_id b \<noteq> bhs_id n) (fdb_index ?f)\<rparr>)" by simp
  with run advance_root_inv [OF inv(1) r(2) up gn] pn n(3) r(2) show ?thesis
    by (intro exI [of _ "c\<lparr>ctl_blog := ctl_blog c @ rev (n # rest), ctl_db := d, ctl_fork_db := ?f\<lparr>fdb_root := Some n,
      fdb_index := filter (\<lambda>b. bhs_id b \<in> subtree (fdb_index ?f) (bhs_id n) \<and> bhs_id b \<noteq> bhs_id n) (fdb_index ?f)\<rparr>\<rparr>"]
        exI [of _ n] exI [of _ rest]) (simp add: cfork_def)
qed

section \<open>A sample node\<close>

text \<open>
  A database that only counts its undo levels, and a fork database with two blocks on the genesis block
  of the sample chain: the valid head, and a block that has not been applied.
\<close>

definition sample_node :: "(nat list) node" where
  "sample_node = \<lparr>nd_sha = sample_sha, nd_revision = (\<lambda>d. of_nat (length d)), nd_session = (\<lambda>d. 0 # d), nd_undo = tl,
     nd_commit = (\<lambda>_ d. d), nd_preactivated = (\<lambda>_. []), nd_record_activations = (\<lambda>_ _ d. d), nd_on_activation = (\<lambda>_ d. Inr d),
     nd_execute = (\<lambda>_ s _ d. if s = complete_block then Inl block_validate_exception else Inr d), nd_has_block = (\<lambda>_. True),
     nd_append_error = (\<lambda>_. None), nd_first_block_num = 1, nd_irreversible_mode = False,
     nd_disable_replay_opts = False, nd_in_trx_requiring_checks = False\<rparr>"

lemma sample_node_laws: "undo_laws sample_node" "commit_laws sample_node" "replay_law sample_node"
  by (auto simp: undo_laws_def commit_laws_def replay_law_def sample_node_def split: if_splits)

definition sample_features :: protocol_feature_manager where
  "sample_features = (make_protocol_feature_manager empty_protocol_feature_set)\<lparr>pfm_initialized := True\<rparr>"

lemma sample_features_upto: "features_upto sample_features k"
proof -
  have "pfm_inv sample_features" unfolding sample_features_def by (simp only: pfm_inv_initialized pfm_inv_make)
  then show ?thesis by (simp add: sample_features_def features_upto_def pfm_ok_def make_protocol_feature_manager_def)
qed

definition sample_applied :: "block_header_state \<Rightarrow> block_state" where
  "sample_applied s = block_header_state.extend (s\<lparr>bhs_header_exts := []\<rparr>) \<lparr>bst_validated = True\<rparr>"

definition sample_unapplied :: "block_header_state \<Rightarrow> block_state" where
  "sample_unapplied s = block_header_state.extend (s\<lparr>bhs_header_exts := [], bhs_id := SHA256 0x02000000 1 0 0\<rparr>) \<lparr>bst_validated = False\<rparr>"

definition sample_controller :: "block_header_state \<Rightarrow> block_header_state \<Rightarrow> (nat list) controller_state" where
  "sample_controller s s' = \<lparr>ctl_head = s, ctl_db = [0], ctl_features = sample_features,
     ctl_fork_db = \<lparr>fdb_index = [sample_applied s', sample_unapplied s'],
       fdb_root = Some (block_header_state.extend s \<lparr>bst_validated = True\<rparr>), fdb_head = Some (sample_applied s')\<rparr>,
     ctl_blog = [block_header_state.extend s \<lparr>bst_validated = True\<rparr>]\<rparr>"

lemma sample_block_fields:
  assumes s: "genesis_state sample_sha \<lparr>slot = 1\<rparr> zero_digest (K1_key (replicate 33 0)) = Inr s"
    and s': "bhs_next sample_sha sample_recover sample_block_header [] empty_protocol_feature_set sample_validator True s = Inr s'"
  shows "bhs_id s = SHA256 0x01000000 0 0 0" "bhs_block_num s = 1" "num_from_id (bhs_id s) = 1"
    "bhs_id s' = SHA256 0x02000000 0 0 0" "bhs_block_num s' = 2" "bhs_header s' = sample_block_header"
    "bh_previous sample_block_header = bhs_id s"
    "\<exists>p. bhs_next_pending sample_sha (bh_timestamp sample_block_header) (bh_confirmed sample_block_header) s = Inr p"
    "bhs_dpos_irreversible_blocknum s = 0"
proof -
  from bhs_next_cases [OF s'] obtain p where p: "bhs_next_pending sample_sha (bh_timestamp sample_block_header) (bh_confirmed sample_block_header) s = Inr p"
    "bhs_header s' = sample_block_header" "calculate_id sample_sha sample_block_header = Inr (bhs_id s')"
    "bh_previous sample_block_header = bhs_id s" "same_common s' p" by blast
  then show "\<exists>p. bhs_next_pending sample_sha (bh_timestamp sample_block_header) (bh_confirmed sample_block_header) s = Inr p"
    "bhs_header s' = sample_block_header" "bh_previous sample_block_header = bhs_id s" by auto
  then show i: "bhs_id s = SHA256 0x01000000 0 0 0" by (simp add: sample_block_header_def)
  show n: "bhs_block_num s = 1" using genesis_inv(2) [OF s] .
  then show "num_from_id (bhs_id s) = 1" using genesis_inv(1) [OF s] by (simp add: header_state_inv_def)
  show "bhs_block_num s' = 2" using p(5) next_pending_fields(2) [OF p(1)] n by (simp add: same_common_iff)
  have "calculate_id sample_sha sample_block_header = Inr (SHA256 0x02000000 0 0 0)"
    by (simp add: sample_id sample_block_header_def genesis_header_def block_num_def num_from_id_def endian_reverse_u32_def)
  with p(3) show "bhs_id s' = SHA256 0x02000000 0 0 0" by simp
  show "bhs_dpos_irreversible_blocknum s = 0" using s by (auto simp: genesis_state_def Let_def ebind_Inr_iff)
qed

lemma sample_num: "num_from_id (SHA256 0x02000000 x y z) = 2" "num_from_id (SHA256 0x01000000 x y z) = 1"
  by (simp_all add: num_from_id_def endian_reverse_u32_def)

lemma sample_apply:
  assumes s: "genesis_state sample_sha \<lparr>slot = 1\<rparr> zero_digest (K1_key (replicate 33 0)) = Inr s"
    and s': "bhs_next sample_sha sample_recover sample_block_header [] empty_protocol_feature_set sample_validator True s = Inr s'"
  shows "apply_blocks sample_node validated_block [sample_applied s'] (sample_controller s s')
    = Some (Inr (), (sample_controller s s')\<lparr>ctl_head := block_core (sample_applied s'), ctl_db := [0, 0]\<rparr>)"
proof -
  note f = sample_block_fields [OF s s']
  have "get_new_protocol_feature_activations (block_core (sample_applied s')) = Inr []"
    by (simp add: sample_applied_def get_new_protocol_feature_activations_def ext_count_def)
  moreover have h: "bhs_header (sample_applied s') = sample_block_header" "bst_validated (sample_applied s')"
    using f(6) by (simp_all add: sample_applied_def)
  obtain p where "bhs_next_pending sample_sha (bh_timestamp sample_block_header) (bh_confirmed sample_block_header) s = Inr p"
    using f(8) by blast
  ultimately show ?thesis using f(2) h
    by (simp add: apply_block_body session_body_def sample_controller_def sample_node_def cguard_def ccatch_def cbind_def cassert_def
        cresult_def cdb_def start_block_features_def cret_def commit_received cfork_def unchanged_on_throw_def mark_valid_def)
qed

lemma sample_fork_db_inv:
  assumes s: "genesis_state sample_sha \<lparr>slot = 1\<rparr> zero_digest (K1_key (replicate 33 0)) = Inr s"
    and s': "bhs_next sample_sha sample_recover sample_block_header [] empty_protocol_feature_set sample_validator True s = Inr s'"
  shows "fdb_inv (ctl_fork_db (sample_controller s s'))" "valid_closed (ctl_fork_db (sample_controller s s'))"
proof -
  note f = sample_block_fields [OF s s']
  have fields: "bhs_id (sample_applied s') = SHA256 0x02000000 0 0 0" "bhs_id (sample_unapplied s') = SHA256 0x02000000 1 0 0"
    "prev_id (sample_applied s') = SHA256 0x01000000 0 0 0" "prev_id (sample_unapplied s') = SHA256 0x01000000 0 0 0"
    "bhs_block_num (sample_applied s') = 2" "bhs_block_num (sample_unapplied s') = 2"
    "bst_validated (sample_applied s')" "\<not> bst_validated (sample_unapplied s')"
    using f by (simp_all add: sample_applied_def sample_unapplied_def)
  have "block_ok (sample_applied s')" "block_ok (sample_unapplied s')" using fields by (simp_all add: block_ok_def sample_num)
  then have "tree_inv (block_header_state.extend s \<lparr>bst_validated = True\<rparr>) [sample_applied s', sample_unapplied s']"
    using fields f(1-3) by (simp add: tree_inv_def sample_num)
  moreover have "head_inv (block_header_state.extend s \<lparr>bst_validated = True\<rparr>) (sample_applied s') [sample_applied s', sample_unapplied s']"
    using fields by (auto simp: head_inv_def first_preferred_def)
  ultimately show "fdb_inv (ctl_fork_db (sample_controller s s'))" by (simp add: fdb_inv_def sample_controller_def)
  show "valid_closed (ctl_fork_db (sample_controller s s'))" using fields by (auto simp: valid_closed_def sample_controller_def)
qed

section \<open>Properties\<close>

text \<open>C1. Switching to a better branch is all or nothing. The blocks of the old branch are popped, which gives a
  state with the common ancestor as head. Either every block of the new branch is then applied, in order,
  and the result is the state this gives, with the last block as head; or one of them throws, after all
  the blocks before it have been applied, and then the exception is passed on and the head, the database,
  the protocol features and the block log are exactly what they were before the switch, while the fork
  database keeps the marks of the blocks that were applied and has lost the failed block with all that
  builds on it. The old branch is valid and was applied block by block on the common ancestor, with
  irreversible blocks logged in between; no block of the new branch has been applied before, the bodies
  of the blocks are there, and block numbers do not reach the limit of 32 bits. The database keeps the
  laws of undo and commit, and a block that was executed executes again with the same result.\<close>

theorem switch_forks_all_or_nothing:
  assumes "commit_laws nd" and "replay_law nd" and "in_step nd a"
    and "fdb_inv (ctl_fork_db c)" and "valid_closed (ctl_fork_db c)"
    and "prev_id new_head \<noteq> bhs_id (ctl_head c)" and "bhs_id new_head \<noteq> bhs_id (ctl_head c)"
    and "fetch_branch_from (bhs_id new_head) (bhs_id (ctl_head c)) (ctl_fork_db c) = Some (Inr (first, second))"
    and "second \<noteq> []" and "\<forall>b \<in> set second. bst_validated b" and "\<forall>b \<in> set first. \<not> bst_validated b"
    and "history nd (bhs_block_num (ctl_head a)) a (rev second) c"
    and "parent_known (ctl_fork_db c) (last second) (ctl_head a)" and "num_from_id (bhs_id (ctl_head a)) = bhs_block_num (ctl_head a)"
    and "room (bhs_block_num (ctl_head a))"
    and "\<forall>b \<in> set first \<union> set second. nd_has_block nd (bhs_id b) \<and> room (bhs_block_num b)"
  shows "\<exists>a' r c'. repeat_cmd (length second) (pop_block nd) c = Some (Inr (), a') \<and> ctl_head a' = ctl_head a \<and>
    switch_forks nd new_head s c = Some (r, c') \<and>
    (case r of
       Inr head_changed \<Rightarrow> head_changed \<and> apply_blocks nd complete_block (rev first) a' = Some (Inr (), c') \<and>
         bhs_id (ctl_head c') = bhs_id new_head
     | Inl e \<Rightarrow> \<exists>good b rest x. rev first = good @ b # rest \<and> apply_blocks nd complete_block good a' = Some (Inr (), x) \<and>
         apply_block nd b complete_block x = Some (Inl e, x) \<and>
         c' = c\<lparr>ctl_fork_db := without (bhs_id b) (ctl_fork_db x)\<rparr>)"
proof -
  note l = branches_linked [OF assms(4,8,9,13-16)]
  obtain ks f lg where redo: "apply_blocks nd validated_block (rev second) (moved_on nd ks f lg a) = Some (Inr (), c)"
    using history_again [OF assms(1,2,12,3) l(3)] assms(10) by auto
  let ?a = "moved_on nd ks f lg a"
  have a: "in_step nd ?a" "ctl_head ?a = ctl_head a" using assms(3) by simp_all
  from switch_forks_cases [OF assms(1,2) a(1) assms(4-8) _ _ assms(9-11) redo, unfolded a(2), OF l, of s]
  show ?thesis unfolding branch_outcome_def using a(2) by (fastforce split: sum.splits)
qed

theorem switch_forks_all_or_nothing_witness:
  "\<exists>c (new_head :: block_state) a r c'. bhs_id new_head \<noteq> bhs_id (ctl_head c) \<and>
     switch_forks sample_node new_head complete_block c = Some (r, c') \<and>
     (case r of
        Inr head_changed \<Rightarrow> head_changed \<and> apply_blocks sample_node complete_block [new_head] a = Some (Inr (), c')
      | Inl e \<Rightarrow> apply_block sample_node new_head complete_block a = Some (Inl e, a) \<and>
          c' = c\<lparr>ctl_fork_db := without (bhs_id new_head) (ctl_fork_db a)\<rparr>)"
proof -
  obtain s where s: "genesis_state sample_sha \<lparr>slot = 1\<rparr> zero_digest (K1_key (replicate 33 0)) = Inr s"
    using sample_genesis by blast
  obtain s' where s': "bhs_next sample_sha sample_recover sample_block_header [] empty_protocol_feature_set
      sample_validator True s = Inr s'" using sample_block [OF s] by blast
  note f = sample_block_fields [OF s s']
  let ?A = "sample_applied s'" and ?B = "sample_unapplied s'" and ?a = "sample_controller s s'"
  let ?c = "?a\<lparr>ctl_head := block_core ?A, ctl_db := [0, 0]\<rparr>"
  have A: "bhs_id ?A = SHA256 0x02000000 0 0 0" "prev_id ?A = bhs_id s" "bhs_block_num ?A = 2" "bst_validated ?A"
    using f by (simp_all add: sample_applied_def)
  have B: "bhs_id ?B = SHA256 0x02000000 1 0 0" "prev_id ?B = bhs_id s" "bhs_block_num ?B = 2" "\<not> bst_validated ?B"
    using f by (simp_all add: sample_unapplied_def)
  have fork: "fdb_inv (ctl_fork_db ?c)" "valid_closed (ctl_fork_db ?c)" using sample_fork_db_inv [OF s s'] by simp_all
  have br: "fetch_branch_from (bhs_id ?B) (bhs_id (ctl_head ?c)) (ctl_fork_db ?c) = Some (Inr ([?B], [?A]))"
    using A B f(1) by (simp add: fetch_branch_from_def sample_controller_def block_or_root_def get_block_def walk_down.simps walk_both.simps)
  have par: "parent_known (ctl_fork_db ?c) ?A (ctl_head ?a)"
    using A B f(1) by (simp add: parent_known_def sample_controller_def get_block_def)
  have step: "in_step sample_node ?a"
    using sample_node_laws sample_features_upto by (simp add: in_step_def sample_controller_def)
  have "apply_block sample_node ?A validated_block ?a = Some (Inr (), ?c)"
    using sample_apply [OF s s'] by (simp add: cbind_Inr_iff cret_def)
  then have hist: "history sample_node (bhs_block_num (ctl_head ?a)) ?a (rev [?A]) ?c"
    unfolding rev.simps append_Nil by (rule history_single) simp
  have rooms: "\<forall>b \<in> set [?B] \<union> set [?A]. nd_has_block sample_node (bhs_id b) \<and> room (bhs_block_num b)"
    "num_from_id (bhs_id (ctl_head ?a)) = bhs_block_num (ctl_head ?a)" "room (bhs_block_num (ctl_head ?a))"
    "prev_id ?B \<noteq> bhs_id (ctl_head ?c)" "bhs_id ?B \<noteq> bhs_id (ctl_head ?c)"
    using A B f(1-3) by (simp_all add: sample_controller_def room_def sample_node_def)
  from switch_forks_all_or_nothing [OF sample_node_laws(2,3) step fork rooms(4,5) br _ _ _ hist _ rooms(2,3,1), of complete_block] A(4) B(4) par
  obtain a r c' where sw: "switch_forks sample_node ?B complete_block ?c = Some (r, c')"
    and res: "case r of
       Inr head_changed \<Rightarrow> head_changed \<and> apply_blocks sample_node complete_block (rev [?B]) a = Some (Inr (), c') \<and>
         bhs_id (ctl_head c') = bhs_id ?B
     | Inl e \<Rightarrow> \<exists>good b rest x. rev [?B] = good @ b # rest \<and> apply_blocks sample_node complete_block good a = Some (Inr (), x) \<and>
         apply_block sample_node b complete_block x = Some (Inl e, x) \<and>
         c' = ?c\<lparr>ctl_fork_db := without (bhs_id b) (ctl_fork_db x)\<rparr>" by auto
  show ?thesis
    using sw res rooms(5)
    by (intro exI [of _ ?c] exI [of _ ?B] exI [of _ a] exI [of _ r] exI [of _ c'])
      (auto simp: Cons_eq_append_conv cret_def split: sum.splits)
qed

text \<open>C6. Applying a block either throws and leaves the controller exactly as it was, or makes the block the head and
  marks it valid in the fork database, and popping it then gives back the head, the database and the
  protocol features from before; only the mark in the fork database stays. The block is applied in an
  undo session, which is not opened for irreversible blocks that are replayed without checks, and it is not
  one produced here, for which \<^verbatim>\<open>log_irreversible\<close> is called; its parent is the head, its body is there and the
  number of the head leaves room for the next block.\<close>

theorem apply_block_atomic:
  assumes "undo_laws nd" and "features_upto (ctl_features c) (bhs_block_num (ctl_head c))" and "room (bhs_block_num (ctl_head c))"
    and "s \<noteq> incomplete_block" and "\<not> skip_db_sessions nd s"
    and "parent_known (ctl_fork_db c) b (ctl_head c)" and "nd_has_block nd (bhs_id b)"
  shows "\<exists>r c'. apply_block nd b s c = Some (r, c') \<and>
    (case r of Inl e \<Rightarrow> c' = c
     | Inr _ \<Rightarrow> ctl_head c' = block_core b \<and> pop_block nd c' = Some (Inr (), c\<lparr>ctl_fork_db := ctl_fork_db c'\<rparr>) \<and>
         (if s = irreversible_block then ctl_fork_db c' = ctl_fork_db c else mark_valid b (ctl_fork_db c) = Inr (ctl_fork_db c')))"
proof -
  from apply_block_cases [OF assms(1-5), of b] obtain r c' where r: "apply_block nd b s c = Some (r, c')"
    "case r of Inl e \<Rightarrow> c' = c | Inr _ \<Rightarrow> block_applied nd b s c c'" by blast
  have "pop_block nd c' = Some (Inr (), c\<lparr>ctl_fork_db := ctl_fork_db c'\<rparr>)" if app: "block_applied nd b s c c'"
  proof -
    have "same_cores (ctl_fork_db c) (ctl_fork_db c')"
      using app mark_valid_cores [of b "ctl_fork_db c"] by (auto simp: block_applied_def same_cores_def split: if_splits)
    with assms(6) have "parent_known (ctl_fork_db c') b (ctl_head c)" using parent_known_cores by blast
    from pop_block_undoes [OF app this assms(7)] show ?thesis by simp
  qed
  with r show ?thesis
    by (intro exI [of _ r] exI [of _ c']) (simp add: block_applied_def split: sum.splits)
qed

theorem apply_block_atomic_witness:
  "\<exists>c b r c'. ctl_head c \<noteq> block_core b \<and> apply_block sample_node b validated_block c = Some (r, c') \<and>
    (case r of Inl e \<Rightarrow> c' = c
     | Inr _ \<Rightarrow> ctl_head c' = block_core b \<and> pop_block sample_node c' = Some (Inr (), c\<lparr>ctl_fork_db := ctl_fork_db c'\<rparr>))"
proof -
  obtain s where s: "genesis_state sample_sha \<lparr>slot = 1\<rparr> zero_digest (K1_key (replicate 33 0)) = Inr s"
    using sample_genesis by blast
  obtain s' where s': "bhs_next sample_sha sample_recover sample_block_header [] empty_protocol_feature_set
      sample_validator True s = Inr s'" using sample_block [OF s] by blast
  note f = sample_block_fields [OF s s']
  let ?a = "sample_controller s s'" and ?A = "sample_applied s'"
  have A: "bhs_id ?A = SHA256 0x02000000 0 0 0" "prev_id ?A = bhs_id s" "bhs_id (sample_unapplied s') = SHA256 0x02000000 1 0 0"
    using f by (simp_all add: sample_applied_def sample_unapplied_def)
  have par: "parent_known (ctl_fork_db ?a) ?A (ctl_head ?a)"
    using A f(1) by (simp add: parent_known_def sample_controller_def get_block_def)
  have up: "features_upto (ctl_features ?a) (bhs_block_num (ctl_head ?a))" "room (bhs_block_num (ctl_head ?a))"
    "nd_has_block sample_node (bhs_id ?A)"
    using f(2) sample_features_upto by (simp_all add: sample_controller_def room_def sample_node_def)
  from apply_block_atomic [OF sample_node_laws(1) up(1,2) _ _ par up(3), of validated_block]
  have "\<exists>r c'. apply_block sample_node ?A validated_block ?a = Some (r, c') \<and>
    (case r of Inl e \<Rightarrow> c' = ?a
     | Inr _ \<Rightarrow> ctl_head c' = block_core ?A \<and> pop_block sample_node c' = Some (Inr (), ?a\<lparr>ctl_fork_db := ctl_fork_db c'\<rparr>))"
    by (fastforce split: sum.splits)
  moreover have "ctl_head ?a \<noteq> block_core ?A"
  proof
    assume "ctl_head ?a = block_core ?A"
    from arg_cong [OF this, of bhs_id] A(1) f(1) show False by (simp add: sample_controller_def)
  qed
  ultimately show ?thesis by blast
qed

text \<open>C5. When the head has made blocks irreversible, \<^verbatim>\<open>log_irreversible\<close> appends to the block log exactly the blocks
  of the head's branch from the one above the old root up to the irreversible block, oldest first, and
  makes that block the new root; the fork database then holds exactly the blocks that build on it and
  satisfies its invariant. The node is not in irreversible mode and no append fails.\<close>

theorem irreversible_blocks_logged:
  assumes "\<not> nd_irreversible_mode nd" and "\<forall>b. nd_append_error nd b = None"
    and "fdb_inv (ctl_fork_db c)" and "valid_closed (ctl_fork_db c)"
    and "fdb_root (ctl_fork_db c) = Some root" and "fdb_head (ctl_fork_db c) = Some head"
    and "ctl_blog c \<noteq> []" and "bhs_id (last (ctl_blog c)) = bhs_id root"
    and "bhs_block_num root < bhs_dpos_irreversible_blocknum head"
    and "bhs_dpos_irreversible_blocknum head \<le> bhs_block_num head"
  shows "\<exists>c' n bs. log_irreversible nd c = Some (Inr (), c') \<and>
    path (ctl_fork_db c) (bhs_id n) (n # bs) (bhs_id root) \<and> bhs_block_num n = bhs_dpos_irreversible_blocknum head \<and>
    ctl_blog c' = ctl_blog c @ rev (n # bs) \<and> fdb_root (ctl_fork_db c') = Some n \<and> fdb_head (ctl_fork_db c') = Some head \<and>
    fdb_inv (ctl_fork_db c') \<and>
    fdb_index (ctl_fork_db c') = filter (\<lambda>b. bhs_id b \<in> subtree (fdb_index (ctl_fork_db c)) (bhs_id n) \<and> bhs_id b \<noteq> bhs_id n)
      (fdb_index (ctl_fork_db c))"
  using assms by (intro log_irreversible_run) simp_all

theorem irreversible_blocks_logged_witness:
  "\<exists>c c' n. log_irreversible sample_node c = Some (Inr (), c') \<and> fdb_root (ctl_fork_db c') = Some n \<and>
     length (ctl_blog c') > length (ctl_blog c)"
proof -
  obtain s where s: "genesis_state sample_sha \<lparr>slot = 1\<rparr> zero_digest (K1_key (replicate 33 0)) = Inr s"
    using sample_genesis by blast
  obtain s' where s': "bhs_next sample_sha sample_recover sample_block_header [] empty_protocol_feature_set
      sample_validator True s = Inr s'" using sample_block [OF s] by blast
  note f = sample_block_fields [OF s s']
  let ?r = "block_header_state.extend s \<lparr>bst_validated = True\<rparr>"
  define A where "A = block_header_state.extend (s'\<lparr>bhs_dpos_irreversible_blocknum := 2\<rparr>) \<lparr>bst_validated = True\<rparr>"
  define c where "c = (sample_controller s s')\<lparr>ctl_fork_db := \<lparr>fdb_index = [A], fdb_root = Some ?r, fdb_head = Some A\<rparr>\<rparr>"
  have A: "bhs_id A = SHA256 0x02000000 0 0 0" "prev_id A = SHA256 0x01000000 0 0 0" "bhs_block_num A = 2"
    "bhs_dpos_irreversible_blocknum A = 2" "bst_validated A"
    using f by (simp_all add: A_def)
  have "tree_inv ?r [A]" using A f(1-3) by (simp add: tree_inv_def block_ok_def sample_num)
  moreover have "head_inv ?r A [A]" using A by (simp add: head_inv_def first_preferred_def)
  ultimately have inv: "fdb_inv (ctl_fork_db c)" by (simp add: fdb_inv_def c_def)
  have closed: "valid_closed (ctl_fork_db c)" using A by (simp add: valid_closed_def c_def)
  have r: "fdb_root (ctl_fork_db c) = Some ?r" "fdb_head (ctl_fork_db c) = Some A"
    "ctl_blog c \<noteq> []" "bhs_id (last (ctl_blog c)) = bhs_id ?r"
    by (simp_all add: c_def sample_controller_def)
  have nd: "\<not> nd_irreversible_mode sample_node" "\<forall>b. nd_append_error sample_node b = None" by (simp_all add: sample_node_def)
  have lib: "bhs_block_num ?r < bhs_dpos_irreversible_blocknum A" "bhs_dpos_irreversible_blocknum A \<le> bhs_block_num A"
    using A f(2) by simp_all
  from irreversible_blocks_logged [OF nd inv closed r lib] show ?thesis by fastforce
qed

end
