(* ===== verification/Resource_Limits.thy ===== *)
theory Resource_Limits
  imports Block_Time
begin

text \<open>
  Rate limits (src/libraries/chain/resource_limits.cpp and include/sysio/chain/resource_limits_private.hpp):
  the accumulators that average the usage of CPU and network over a window, the elastic limits of a block,
  the limits and usage of the accounts, and their totals.

  The rows of the database that belong to the component are the record \<open>resource_db\<close>: a map for each
  index by owner, where the composite key \<^verbatim>\<open>(pending, owner)\<close> of the limits is split into a map of the
  actual and a map of the pending limits, and the two singleton objects. A lookup of a missing row throws
  \<^verbatim>\<open>std::out_of_range\<close>, creating a row twice throws \<^verbatim>\<open>std::logic_error\<close>. An \<^verbatim>\<open>int64_t\<close> is a 64-bit word
  read by \<open>sint\<close>. After an exception the database session is undone, so the state is not returned.
\<close>

section \<open>Ratios and casts\<close>

type_synonym i64 = "64 word"

record ratio =
  numerator :: u64
  denominator :: u64

definition ratio_mult :: "u64 \<Rightarrow> ratio \<Rightarrow> u64 result" where
  "ratio_mult v r =
     ebind (if numerator r = 0 then Inr ()
            else sys_assert (- 1 div numerator r \<ge> v) rate_limiting_state_inconsistent) (\<lambda>_.
     if denominator r = 0 then Inl undefined_behaviour else Inr (v * numerator r div denominator r))"

definition integer_divide_ceil :: "'a::len word \<Rightarrow> 'a word \<Rightarrow> 'a word result" where
  "integer_divide_ceil num den =
     (if den = 0 then Inl undefined_behaviour else Inr (num div den + (if num mod den > 0 then 1 else 0)))"

definition downgrade_u64 :: "u128 \<Rightarrow> u64 result" where
  "downgrade_u64 v = ebind (sys_assert (v \<le> ucast (- 1 :: u64)) rate_limiting_state_inconsistent) (\<lambda>_. Inr (ucast v))"

definition downgrade_i64 :: "u128 \<Rightarrow> i64 result" where
  "downgrade_i64 v = ebind (sys_assert (v \<le> 0x7FFFFFFFFFFFFFFF) rate_limiting_state_inconsistent) (\<lambda>_. Inr (ucast v))"

section \<open>Accumulators\<close>

definition rate_limiting_precision :: u64 where
  "rate_limiting_precision = 1000 * 1000"

definition max_raw_value :: u64 where
  "max_raw_value = - 1 div rate_limiting_precision"

record usage_accumulator =
  last_ordinal :: u32
  value_ex :: u64
  consumed :: u64

definition empty_accumulator :: usage_accumulator where
  "empty_accumulator = \<lparr>last_ordinal = 0, value_ex = 0, consumed = 0\<rparr>"

definition average :: "usage_accumulator \<Rightarrow> u64 result" where
  "average a = integer_divide_ceil (value_ex a) rate_limiting_precision"

text \<open>The branch of \<^verbatim>\<open>add\<close> for a new ordinal.\<close>

definition decay_accumulator :: "u32 \<Rightarrow> u32 \<Rightarrow> usage_accumulator \<Rightarrow> usage_accumulator result" where
  "decay_accumulator ordinal window_size a =
     ebind (sys_assert (ordinal > last_ordinal a) resource_limit_exception) (\<lambda>_.
     ebind (if (ucast (last_ordinal a) :: u64) + ucast window_size > ucast ordinal
            then ratio_mult (value_ex a)
                   \<lparr>numerator = ucast window_size - ucast (ordinal - last_ordinal a), denominator = ucast window_size\<rparr>
            else Inr 0) (\<lambda>v.
     let a = a\<lparr>value_ex := v, last_ordinal := ordinal\<rparr>
     in ebind (average a) (\<lambda>avg. Inr (a\<lparr>consumed := avg\<rparr>))))"

definition add_usage :: "u64 \<Rightarrow> u32 \<Rightarrow> u32 \<Rightarrow> usage_accumulator \<Rightarrow> usage_accumulator result" where
  "add_usage units ordinal window_size a =
     ebind (sys_assert (units \<le> max_raw_value) rate_limiting_state_inconsistent) (\<lambda>_.
     ebind (sys_assert (- 1 - consumed a \<ge> units) rate_limiting_state_inconsistent) (\<lambda>_.
     ebind (integer_divide_ceil ((ucast units :: u128) * ucast rate_limiting_precision) (ucast window_size)) (\<lambda>q.
     ebind (downgrade_u64 q) (\<lambda>value_ex_contrib.
     ebind (sys_assert (- 1 - value_ex a \<ge> value_ex_contrib) rate_limiting_state_inconsistent) (\<lambda>_.
     ebind (if last_ordinal a \<noteq> ordinal then decay_accumulator ordinal window_size a else Inr a) (\<lambda>a.
       Inr (a\<lparr>consumed := consumed a + units, value_ex := value_ex a + value_ex_contrib\<rparr>)))))))"

text \<open>The accumulator that decays without averaging.\<close>

record decay_accumulator_t =
  da_last_ordinal :: u32
  da_value_ex :: u64

definition value_ex_at :: "u32 \<Rightarrow> u32 \<Rightarrow> decay_accumulator_t \<Rightarrow> u64 result" where
  "value_ex_at ordinal window_size a =
     (if da_last_ordinal a < ordinal
      then if (ucast (da_last_ordinal a) :: u64) + ucast window_size > ucast ordinal
           then let num = (ucast window_size :: u128) - ucast (ordinal - da_last_ordinal a)
                in ebind (if num = 0 then Inr ()
                          else sys_assert (- 1 div num \<ge> ucast (da_value_ex a)) rate_limiting_state_inconsistent) (\<lambda>_.
                   if window_size = 0 then Inl undefined_behaviour
                   else downgrade_u64 (ucast (da_value_ex a) * num div ucast window_size))
           else Inr 0
      else Inr (da_value_ex a))"

definition value_at :: "u32 \<Rightarrow> u32 \<Rightarrow> decay_accumulator_t \<Rightarrow> u64 result" where
  "value_at ordinal window_size a =
     ebind (value_ex_at ordinal window_size a) (\<lambda>v. integer_divide_ceil v rate_limiting_precision)"

definition add_decaying :: "u64 \<Rightarrow> u32 \<Rightarrow> u32 \<Rightarrow> decay_accumulator_t \<Rightarrow> decay_accumulator_t result" where
  "add_decaying units ordinal window_size a =
     ebind (sys_assert (units \<le> max_raw_value) rate_limiting_state_inconsistent) (\<lambda>_.
     let units_ex = (ucast units :: u128) * ucast rate_limiting_precision
     in ebind (if da_last_ordinal a < ordinal
               then ebind (value_ex_at ordinal window_size a) (\<lambda>v. Inr \<lparr>da_last_ordinal = ordinal, da_value_ex = v\<rparr>)
               else Inr a) (\<lambda>a.
        ebind (downgrade_u64 (min (units_ex + ucast (da_value_ex a)) (ucast (- 1 :: u64)))) (\<lambda>v.
          Inr (a\<lparr>da_value_ex := v\<rparr>))))"

section \<open>The rows of the database\<close>

record elastic_limit_parameters =
  elp_target :: u64
  elp_max :: u64
  elp_periods :: u32
  elp_max_multiplier :: u32
  elp_contract_rate :: ratio
  elp_expand_rate :: ratio

record resource_limits_object =
  rl_net_weight :: i64
  rl_cpu_weight :: i64
  rl_ram_bytes :: i64

record resource_usage_object =
  ru_net_usage :: usage_accumulator
  ru_cpu_usage :: usage_accumulator
  ru_ram_usage :: u64

record resource_limits_config_object =
  rc_cpu_limit_parameters :: elastic_limit_parameters
  rc_net_limit_parameters :: elastic_limit_parameters
  rc_account_cpu_usage_average_window :: u32
  rc_account_net_usage_average_window :: u32

record resource_limits_state_object =
  rs_average_block_net_usage :: usage_accumulator
  rs_average_block_cpu_usage :: usage_accumulator
  rs_pending_net_usage :: u64
  rs_pending_cpu_usage :: u64
  rs_total_net_weight :: u64
  rs_total_cpu_weight :: u64
  rs_total_ram_bytes :: u64
  rs_virtual_net_limit :: u64
  rs_virtual_cpu_limit :: u64

record resource_db =
  rdb_limits :: "(account_name \<times> resource_limits_object) list"
  rdb_pending :: "(account_name \<times> resource_limits_object) list"
  rdb_usage :: "(account_name \<times> resource_usage_object) list"
  rdb_config :: resource_limits_config_object
  rdb_state :: resource_limits_state_object

definition db_get :: "account_name \<Rightarrow> (account_name \<times> 'v) list \<Rightarrow> 'v result" where
  "db_get k m = (case fm_find k m of None \<Rightarrow> Inl out_of_range | Some v \<Rightarrow> Inr v)"

definition db_create :: "account_name \<Rightarrow> 'v \<Rightarrow> (account_name \<times> 'v) list \<Rightarrow> ((account_name \<times> 'v) list) result" where
  "db_create k v m = (case fm_find k m of None \<Rightarrow> Inr (fm_assign k v m) | Some _ \<Rightarrow> Inl logic_error)"

section \<open>The limits of a block\<close>

definition update_elastic_limit :: "u64 \<Rightarrow> u64 \<Rightarrow> elastic_limit_parameters \<Rightarrow> u64 result" where
  "update_elastic_limit current_limit average_usage params =
     ebind (if average_usage > elp_target params
            then ratio_mult current_limit (elp_contract_rate params)
            else ratio_mult current_limit (elp_expand_rate params)) (\<lambda>v.
     Inr (min (max v (elp_max params)) (elp_max params * ucast (elp_max_multiplier params))))"

definition validate_elastic :: "elastic_limit_parameters \<Rightarrow> unit result" where
  "validate_elastic p =
     ebind (sys_assert (elp_periods p > 0) resource_limit_exception) (\<lambda>_.
     ebind (sys_assert (denominator (elp_contract_rate p) > 0) resource_limit_exception) (\<lambda>_.
       sys_assert (denominator (elp_expand_rate p) > 0) resource_limit_exception))"

definition update_virtual_cpu_limit ::
  "resource_limits_config_object \<Rightarrow> resource_limits_state_object \<Rightarrow> resource_limits_state_object result" where
  "update_virtual_cpu_limit cfg s =
     ebind (average (rs_average_block_cpu_usage s)) (\<lambda>avg.
     ebind (update_elastic_limit (rs_virtual_cpu_limit s) avg (rc_cpu_limit_parameters cfg)) (\<lambda>v.
       Inr (s\<lparr>rs_virtual_cpu_limit := v\<rparr>)))"

definition update_virtual_net_limit ::
  "resource_limits_config_object \<Rightarrow> resource_limits_state_object \<Rightarrow> resource_limits_state_object result" where
  "update_virtual_net_limit cfg s =
     ebind (average (rs_average_block_net_usage s)) (\<lambda>avg.
     ebind (update_elastic_limit (rs_virtual_net_limit s) avg (rc_net_limit_parameters cfg)) (\<lambda>v.
       Inr (s\<lparr>rs_virtual_net_limit := v\<rparr>)))"

section \<open>Setting up\<close>

definition sys_percent :: "u64 \<Rightarrow> u32 \<Rightarrow> u64" where
  "sys_percent v percentage = v * ucast percentage div 10000"

definition default_max_block_net_usage :: u64 where
  "default_max_block_net_usage = 1024 * 1024"

definition default_max_block_cpu_usage :: u64 where
  "default_max_block_cpu_usage = 200000"

definition default_target_block_usage_pct :: u32 where
  "default_target_block_usage_pct = 10 * 100"

definition block_usage_average_window_ms :: u32 where
  "block_usage_average_window_ms = 60 * 1000"

definition account_usage_average_window_ms :: u32 where
  "account_usage_average_window_ms = 24 * 60 * 60 * 1000"

definition default_limit_parameters :: "u64 \<Rightarrow> elastic_limit_parameters" where
  "default_limit_parameters m =
     \<lparr>elp_target = sys_percent m default_target_block_usage_pct, elp_max = m,
      elp_periods = block_usage_average_window_ms div 500, elp_max_multiplier = 1000,
      elp_contract_rate = \<lparr>numerator = 99, denominator = 100\<rparr>, elp_expand_rate = \<lparr>numerator = 1000, denominator = 999\<rparr>\<rparr>"

definition default_config :: resource_limits_config_object where
  "default_config =
     \<lparr>rc_cpu_limit_parameters = default_limit_parameters default_max_block_cpu_usage,
      rc_net_limit_parameters = default_limit_parameters default_max_block_net_usage,
      rc_account_cpu_usage_average_window = account_usage_average_window_ms div 500,
      rc_account_net_usage_average_window = account_usage_average_window_ms div 500\<rparr>"

definition initialize_database :: resource_db where
  "initialize_database =
     \<lparr>rdb_limits = [], rdb_pending = [], rdb_usage = [], rdb_config = default_config,
      rdb_state = \<lparr>rs_average_block_net_usage = empty_accumulator, rs_average_block_cpu_usage = empty_accumulator,
        rs_pending_net_usage = 0, rs_pending_cpu_usage = 0, rs_total_net_weight = 0, rs_total_cpu_weight = 0,
        rs_total_ram_bytes = 0, rs_virtual_net_limit = elp_max (rc_net_limit_parameters default_config),
        rs_virtual_cpu_limit = elp_max (rc_cpu_limit_parameters default_config)\<rparr>\<rparr>"

definition unlimited :: resource_limits_object where
  "unlimited = \<lparr>rl_net_weight = - 1, rl_cpu_weight = - 1, rl_ram_bytes = - 1\<rparr>"

definition initialize_account :: "account_name \<Rightarrow> resource_db \<Rightarrow> resource_db result" where
  "initialize_account account db =
     ebind (db_create account unlimited (rdb_limits db)) (\<lambda>limits.
     ebind (db_create account \<lparr>ru_net_usage = empty_accumulator, ru_cpu_usage = empty_accumulator, ru_ram_usage = 0\<rparr>
              (rdb_usage db)) (\<lambda>usage.
       Inr (db\<lparr>rdb_limits := limits, rdb_usage := usage\<rparr>)))"

definition set_block_parameters ::
  "elastic_limit_parameters \<Rightarrow> elastic_limit_parameters \<Rightarrow> resource_db \<Rightarrow> resource_db result" where
  "set_block_parameters cpu net db =
     ebind (validate_elastic cpu) (\<lambda>_.
     ebind (validate_elastic net) (\<lambda>_.
       if rc_cpu_limit_parameters (rdb_config db) = cpu \<and> rc_net_limit_parameters (rdb_config db) = net then Inr db
       else Inr (db\<lparr>rdb_config := (rdb_config db)\<lparr>rc_cpu_limit_parameters := cpu, rc_net_limit_parameters := net\<rparr>\<rparr>)))"

section \<open>The limits of an account\<close>

definition get_account_limits :: "account_name \<Rightarrow> resource_db \<Rightarrow> resource_limits_object result" where
  "get_account_limits account db =
     (case fm_find account (rdb_pending db) of
        Some pending_buo \<Rightarrow> Inr pending_buo
      | None \<Rightarrow> db_get account (rdb_limits db))"

text \<open>The result says whether the new limit of memory is more restrictive.\<close>

definition set_account_limits ::
  "account_name \<Rightarrow> i64 \<Rightarrow> i64 \<Rightarrow> i64 \<Rightarrow> resource_db \<Rightarrow> (bool \<times> resource_db) result" where
  "set_account_limits account ram_bytes net_weight cpu_weight db =
     ebind (get_account_limits account db) (\<lambda>limits.
     let decreased_limit = (sint ram_bytes \<ge> 0 \<and> (sint (rl_ram_bytes limits) < 0 \<or> sint ram_bytes < sint (rl_ram_bytes limits)))
     in Inr (decreased_limit,
          db\<lparr>rdb_pending := fm_assign account
               \<lparr>rl_net_weight = net_weight, rl_cpu_weight = cpu_weight, rl_ram_bytes = ram_bytes\<rparr> (rdb_pending db)\<rparr>))"

definition is_unlimited_cpu :: "account_name \<Rightarrow> resource_db \<Rightarrow> bool" where
  "is_unlimited_cpu account db =
     (case fm_find account (rdb_limits db) of Some buo \<Rightarrow> rl_cpu_weight buo = - 1 | None \<Rightarrow> False)"

definition update_state_and_value :: "u64 \<Rightarrow> i64 \<Rightarrow> i64 \<Rightarrow> u64 result" where
  "update_state_and_value tot v pending_value =
     ebind (if sint v > 0
            then ebind (sys_assert (tot \<ge> v) rate_limiting_state_inconsistent) (\<lambda>_. Inr (tot - v))
            else Inr tot) (\<lambda>tot.
     if sint pending_value > 0
     then ebind (sys_assert (- 1 - tot \<ge> pending_value) rate_limiting_state_inconsistent) (\<lambda>_. Inr (tot + pending_value))
     else Inr tot)"

definition process_account_limit_update ::
  "account_name \<Rightarrow> resource_limits_object \<Rightarrow> resource_db \<Rightarrow> resource_db result" where
  "process_account_limit_update owner p db =
     ebind (db_get owner (rdb_limits db)) (\<lambda>actual.
     ebind (update_state_and_value (rs_total_ram_bytes (rdb_state db)) (rl_ram_bytes actual) (rl_ram_bytes p)) (\<lambda>ram.
     ebind (update_state_and_value (rs_total_cpu_weight (rdb_state db)) (rl_cpu_weight actual) (rl_cpu_weight p)) (\<lambda>cpu.
     ebind (update_state_and_value (rs_total_net_weight (rdb_state db)) (rl_net_weight actual) (rl_net_weight p)) (\<lambda>net.
       Inr (db\<lparr>rdb_limits := fm_assign owner p (rdb_limits db), rdb_pending := fm_erase owner (rdb_pending db),
               rdb_state := (rdb_state db)\<lparr>rs_total_ram_bytes := ram, rs_total_cpu_weight := cpu, rs_total_net_weight := net\<rparr>\<rparr>)))))"

lemma process_update_pending:
  assumes "process_account_limit_update owner p db = Inr db'"
  shows "rdb_pending db' = fm_erase owner (rdb_pending db)"
  using assms by (auto simp: process_account_limit_update_def ebind_Inr_iff)

text \<open>The loop takes the first pending row and removes it, until there is none.\<close>

function process_account_limit_updates :: "resource_db \<Rightarrow> resource_db result" where
  "process_account_limit_updates db =
     (case rdb_pending db of
        [] \<Rightarrow> Inr db
      | (owner, p) # rest \<Rightarrow>
          ebind (process_account_limit_update owner p db) process_account_limit_updates)"
  by pat_completeness auto
termination
  by (relation "measure (\<lambda>db. length (rdb_pending db))") (auto dest: process_update_pending)

section \<open>Usage\<close>

definition update_account_usage :: "account_name list \<Rightarrow> u32 \<Rightarrow> resource_db \<Rightarrow> resource_db result" where
  "update_account_usage accounts time_slot = efold (\<lambda>a db.
     ebind (db_get a (rdb_usage db)) (\<lambda>bu.
     ebind (add_usage 0 time_slot (rc_account_net_usage_average_window (rdb_config db)) (ru_net_usage bu)) (\<lambda>net.
     ebind (add_usage 0 time_slot (rc_account_cpu_usage_average_window (rdb_config db)) (ru_cpu_usage bu)) (\<lambda>cpu.
       Inr (db\<lparr>rdb_usage := fm_assign a (bu\<lparr>ru_net_usage := net, ru_cpu_usage := cpu\<rparr>) (rdb_usage db)\<rparr>))))) accounts"

text \<open>The check of one resource of one account, in 128-bit arithmetic.\<close>

definition check_account_usage :: "i64 \<Rightarrow> u64 \<Rightarrow> u32 \<Rightarrow> u64 \<Rightarrow> u64 \<Rightarrow> chain_error \<Rightarrow> unit result" where
  "check_account_usage weight total_weight window virtual_limit used_ex e =
     (if sint weight \<ge> 0 \<and> total_weight > 0
      then let window_size = (ucast window :: u128);
               virtual_capacity_in_window = ucast virtual_limit * window_size;
               used_in_window = ucast used_ex * window_size div ucast rate_limiting_precision;
               max_user_use_in_window = virtual_capacity_in_window * ucast weight div ucast total_weight
           in sys_assert (used_in_window \<le> max_user_use_in_window) e
      else Inr ())"

definition add_account_usage :: "u64 \<Rightarrow> u64 \<Rightarrow> u32 \<Rightarrow> account_name \<Rightarrow> resource_db \<Rightarrow> resource_db result" where
  "add_account_usage cpu_usage net_usage time_slot a db =
     ebind (db_get a (rdb_usage db)) (\<lambda>bu.
     ebind (get_account_limits a db) (\<lambda>limits.
     ebind (add_usage net_usage time_slot (rc_account_net_usage_average_window (rdb_config db)) (ru_net_usage bu)) (\<lambda>net.
     ebind (add_usage cpu_usage time_slot (rc_account_cpu_usage_average_window (rdb_config db)) (ru_cpu_usage bu)) (\<lambda>cpu.
     ebind (check_account_usage (rl_cpu_weight limits) (rs_total_cpu_weight (rdb_state db))
              (rc_account_cpu_usage_average_window (rdb_config db)) (rs_virtual_cpu_limit (rdb_state db))
              (value_ex cpu) tx_cpu_usage_exceeded) (\<lambda>_.
     ebind (check_account_usage (rl_net_weight limits) (rs_total_net_weight (rdb_state db))
              (rc_account_net_usage_average_window (rdb_config db)) (rs_virtual_net_limit (rdb_state db))
              (value_ex net) tx_net_usage_exceeded) (\<lambda>_.
       Inr (db\<lparr>rdb_usage := fm_assign a (bu\<lparr>ru_net_usage := net, ru_cpu_usage := cpu\<rparr>) (rdb_usage db)\<rparr>)))))))"

definition add_transaction_usage :: "account_name list \<Rightarrow> u64 \<Rightarrow> u64 \<Rightarrow> u32 \<Rightarrow> resource_db \<Rightarrow> resource_db result" where
  "add_transaction_usage accounts cpu_usage net_usage time_slot db =
     ebind (efold (add_account_usage cpu_usage net_usage time_slot) accounts db) (\<lambda>db.
     let s = (rdb_state db)\<lparr>rs_pending_cpu_usage := rs_pending_cpu_usage (rdb_state db) + cpu_usage,
                            rs_pending_net_usage := rs_pending_net_usage (rdb_state db) + net_usage\<rparr>
     in ebind (sys_assert (rs_pending_cpu_usage s \<le> elp_max (rc_cpu_limit_parameters (rdb_config db))) block_resource_exhausted) (\<lambda>_.
        ebind (sys_assert (rs_pending_net_usage s \<le> elp_max (rc_net_limit_parameters (rdb_config db))) block_resource_exhausted) (\<lambda>_.
          Inr (db\<lparr>rdb_state := s\<rparr>))))"

text \<open>The negation of the least \<^verbatim>\<open>int64_t\<close> is undefined.\<close>

definition add_pending_ram_usage :: "account_name \<Rightarrow> i64 \<Rightarrow> resource_db \<Rightarrow> resource_db result" where
  "add_pending_ram_usage account ram_delta db =
     (if ram_delta = 0 then Inr db
      else ebind (db_get account (rdb_usage db)) (\<lambda>u.
           ebind (sys_assert (sint ram_delta \<le> 0 \<or> - 1 - ru_ram_usage u \<ge> ram_delta) transaction_exception) (\<lambda>_.
           ebind (if sint ram_delta \<ge> 0 then Inr ()
                  else if sint ram_delta = - (2 ^ 63) then Inl undefined_behaviour
                  else sys_assert (ru_ram_usage u \<ge> - ram_delta) transaction_exception) (\<lambda>_.
             Inr (db\<lparr>rdb_usage := fm_assign account (u\<lparr>ru_ram_usage := ru_ram_usage u + ram_delta\<rparr>) (rdb_usage db)\<rparr>)))))"

definition verify_account_ram_usage :: "account_name \<Rightarrow> resource_db \<Rightarrow> unit result" where
  "verify_account_ram_usage account db =
     ebind (get_account_limits account db) (\<lambda>limits.
     ebind (db_get account (rdb_usage db)) (\<lambda>u.
       if sint (rl_ram_bytes limits) \<ge> 0
       then sys_assert (ru_ram_usage u \<le> rl_ram_bytes limits) ram_usage_exceeded
       else Inr ()))"

definition get_account_ram_usage :: "account_name \<Rightarrow> resource_db \<Rightarrow> i64 result" where
  "get_account_ram_usage name db = ebind (db_get name (rdb_usage db)) (\<lambda>u. Inr (ru_ram_usage u))"

definition process_block_usage :: "u32 \<Rightarrow> resource_db \<Rightarrow> resource_db result" where
  "process_block_usage block_num db =
     (let cfg = rdb_config db; s = rdb_state db in
      ebind (add_usage (rs_pending_cpu_usage s) block_num (elp_periods (rc_cpu_limit_parameters cfg)) (rs_average_block_cpu_usage s)) (\<lambda>cpu.
      ebind (update_virtual_cpu_limit cfg (s\<lparr>rs_average_block_cpu_usage := cpu\<rparr>)) (\<lambda>s.
      let s = s\<lparr>rs_pending_cpu_usage := 0\<rparr> in
      ebind (add_usage (rs_pending_net_usage s) block_num (elp_periods (rc_net_limit_parameters cfg)) (rs_average_block_net_usage s)) (\<lambda>net.
      ebind (update_virtual_net_limit cfg (s\<lparr>rs_average_block_net_usage := net\<rparr>)) (\<lambda>s.
        Inr (db\<lparr>rdb_state := s\<lparr>rs_pending_net_usage := 0\<rparr>\<rparr>))))))"

definition get_block_cpu_limit :: "resource_db \<Rightarrow> u64" where
  "get_block_cpu_limit db = elp_max (rc_cpu_limit_parameters (rdb_config db)) - rs_pending_cpu_usage (rdb_state db)"

definition get_block_net_limit :: "resource_db \<Rightarrow> u64" where
  "get_block_net_limit db = elp_max (rc_net_limit_parameters (rdb_config db)) - rs_pending_net_usage (rdb_state db)"

definition get_total_cpu_weight :: "resource_db \<Rightarrow> u64" where
  "get_total_cpu_weight db = rs_total_cpu_weight (rdb_state db)"

definition get_total_net_weight :: "resource_db \<Rightarrow> u64" where
  "get_total_net_weight db = rs_total_net_weight (rdb_state db)"

definition get_virtual_block_cpu_limit :: "resource_db \<Rightarrow> u64" where
  "get_virtual_block_cpu_limit db = rs_virtual_cpu_limit (rdb_state db)"

definition get_virtual_block_net_limit :: "resource_db \<Rightarrow> u64" where
  "get_virtual_block_net_limit db = rs_virtual_net_limit (rdb_state db)"

section \<open>What is left to an account\<close>

record account_resource_limit =
  arl_used :: i64
  arl_available :: i64
  arl_max :: i64
  arl_last_usage_update_time :: block_timestamp
  arl_current_used :: i64

definition maximum_elastic_resource_multiplier :: u32 where
  "maximum_elastic_resource_multiplier = 1000"

text \<open>
  The two functions for CPU and network are the same code over different fields, which are the arguments here.
\<close>

definition greylisted_limit :: "u32 \<Rightarrow> elastic_limit_parameters \<Rightarrow> u64 \<Rightarrow> u64 \<times> bool" where
  "greylisted_limit greylist_limit params virtual_limit =
     (if greylist_limit < maximum_elastic_resource_multiplier
      then let g = elp_max params * ucast greylist_limit
           in if g < virtual_limit then (g, True) else (virtual_limit, False)
      else (virtual_limit, False))"

definition used_in_window :: "usage_accumulator \<Rightarrow> u32 \<Rightarrow> u128 result" where
  "used_in_window u window =
     integer_divide_ceil ((ucast (value_ex u) :: u128) * ucast window) (ucast rate_limiting_precision)"

definition account_limit_ex ::
  "i64 \<Rightarrow> u64 \<Rightarrow> u32 \<Rightarrow> elastic_limit_parameters \<Rightarrow> u64 \<Rightarrow> usage_accumulator \<Rightarrow> u32 \<Rightarrow> block_timestamp option
     \<Rightarrow> (account_resource_limit \<times> bool) result" where
  "account_limit_ex weight total_weight window params virtual_limit usage greylist_limit current_time =
     (if sint weight < 0 \<or> total_weight = 0
      then Inr (\<lparr>arl_used = - 1, arl_available = - 1, arl_max = - 1,
                 arl_last_usage_update_time = block_timestamp_of_slot (last_ordinal usage), arl_current_used = - 1\<rparr>, False)
      else
        let (limit, greylisted) = greylisted_limit greylist_limit params virtual_limit;
            capacity = (ucast window :: u128) * ucast limit;
            max_use = capacity * ucast weight div ucast total_weight
        in ebind (used_in_window usage window) (\<lambda>used_w.
           ebind (if max_use \<le> used_w then Inr 0 else downgrade_i64 (max_use - used_w)) (\<lambda>available.
           ebind (downgrade_i64 used_w) (\<lambda>used.
           ebind (downgrade_i64 max_use) (\<lambda>mx.
           ebind (case current_time of
                    Some t \<Rightarrow>
                      if slot t > last_ordinal usage
                      then ebind (add_usage 0 (slot t) window usage) (\<lambda>history_usage.
                           ebind (used_in_window history_usage window) downgrade_i64)
                      else Inr used
                  | None \<Rightarrow> Inr used) (\<lambda>current_used.
             Inr (\<lparr>arl_used = used, arl_available = available, arl_max = mx,
                    arl_last_usage_update_time = block_timestamp_of_slot (last_ordinal usage), arl_current_used = current_used\<rparr>, greylisted)))))))"

definition get_account_cpu_limit_ex ::
  "account_name \<Rightarrow> u32 \<Rightarrow> block_timestamp option \<Rightarrow> resource_db \<Rightarrow> (account_resource_limit \<times> bool) result" where
  "get_account_cpu_limit_ex name greylist_limit current_time db =
     ebind (db_get name (rdb_usage db)) (\<lambda>usage.
     ebind (get_account_limits name db) (\<lambda>limits.
       account_limit_ex (rl_cpu_weight limits) (rs_total_cpu_weight (rdb_state db))
         (rc_account_cpu_usage_average_window (rdb_config db)) (rc_cpu_limit_parameters (rdb_config db))
         (rs_virtual_cpu_limit (rdb_state db)) (ru_cpu_usage usage) greylist_limit current_time))"

definition get_account_cpu_limit :: "account_name \<Rightarrow> u32 \<Rightarrow> resource_db \<Rightarrow> (i64 \<times> bool) result" where
  "get_account_cpu_limit name greylist_limit db =
     ebind (get_account_cpu_limit_ex name greylist_limit None db) (\<lambda>(arl, greylisted). Inr (arl_available arl, greylisted))"

definition get_account_net_limit_ex ::
  "account_name \<Rightarrow> u32 \<Rightarrow> block_timestamp option \<Rightarrow> resource_db \<Rightarrow> (account_resource_limit \<times> bool) result" where
  "get_account_net_limit_ex name greylist_limit current_time db =
     ebind (db_get name (rdb_usage db)) (\<lambda>usage.
     ebind (get_account_limits name db) (\<lambda>limits.
       account_limit_ex (rl_net_weight limits) (rs_total_net_weight (rdb_state db))
         (rc_account_net_usage_average_window (rdb_config db)) (rc_net_limit_parameters (rdb_config db))
         (rs_virtual_net_limit (rdb_state db)) (ru_net_usage usage) greylist_limit current_time))"

definition get_account_net_limit :: "account_name \<Rightarrow> u32 \<Rightarrow> resource_db \<Rightarrow> (i64 \<times> bool) result" where
  "get_account_net_limit name greylist_limit db =
     ebind (get_account_net_limit_ex name greylist_limit None db) (\<lambda>(arl, greylisted). Inr (arl_available arl, greylisted))"

end
