(* ===== verification/Resource_Usage.thy ===== *)
theory Resource_Usage
  imports Resource_Limits
begin

text \<open>
  What the accumulators, the elastic limits of a block and the limits of an account compute, in unbounded
  arithmetic: the moving average is the decayed sum of the inputs and stays below the largest of them, the virtual
  limits stay between the limit of a block and its multiple, and an account can spend what it is told to have.
\<close>

section \<open>Ceiling division and casts\<close>

lemma ceil_div_nat: "0 < (b :: nat) \<Longrightarrow> (a + b - 1) div b = a div b + (if a mod b > 0 then 1 else 0)"
proof -
  assume b: "0 < b"
  have split: "a + b - 1 = (a mod b + b - 1) + a div b * b"
    using b div_mult_mod_eq [of a b] by linarith
  have "(a mod b + b - 1) div b = (if a mod b > 0 then 1 else 0)"
    using b mod_less_divisor [OF b, of a] by (auto intro!: div_nat_eqI)
  moreover have "(a + b - 1) div b = a div b + (a mod b + b - 1) div b"
    by (subst split, subst div_mult_self1) (use b in simp_all)
  ultimately show ?thesis
    by simp
qed

lemma ceil_div_le:
  assumes "0 < (b :: nat)"
  shows "(a + b - 1) div b \<le> a"
proof (cases "a = 0")
  case True
  then show ?thesis using assms by simp
next
  case False
  have "a \<le> a * b"
    using assms by simp
  then have "a + b - 1 < (a + 1) * b"
    using assms False unfolding add_mult_distrib by linarith
  then have "(a + b - 1) div b < a + 1"
    by (simp only: less_mult_imp_div_less)
  then show ?thesis
    by simp
qed

lemma integer_divide_ceil_exact:
  assumes "den \<noteq> 0"
  shows "\<exists>q. integer_divide_ceil num den = Inr q \<and> unat q = (unat num + unat den - 1) div unat den"
proof -
  have pos: "0 < unat den"
    using assms by (simp add: unat_gt_0)
  define q where "q = num div den + (if num mod den > 0 then 1 else 0)"
  have bound: "unat num div unat den + (if unat num mod unat den > 0 then 1 else 0) < 2 ^ LENGTH('a)"
    using ceil_div_le [OF pos, of "unat num"] unat_less_exp [of num] unfolding ceil_div_nat [OF pos] by linarith
  have "unat q = unat num div unat den + (if unat num mod unat den > 0 then 1 else 0)"
    using bound unfolding q_def
    by (auto simp: unat_add_lem [THEN iffD1] unat_div_distrib unat_mod_distrib word_less_nat_alt
             simp del: add_Suc_right split: if_splits)
  then have "unat q = (unat num + unat den - 1) div unat den"
    unfolding ceil_div_nat [OF pos] .
  with assms show ?thesis
    by (auto simp: integer_divide_ceil_def q_def)
qed

lemma unat_ucast_up [simp]: "LENGTH('a) \<le> LENGTH('b) \<Longrightarrow> unat (ucast (w :: 'a::len word) :: 'b::len word) = unat w"
  by (simp add: unsigned_ucast_eq take_bit_nat_eq_self_iff)
     (meson less_le_trans unat_less_exp one_le_numeral power_increasing)

lemma unat_minus_one_u64 [simp]: "unat (- 1 :: u64) = 2 ^ 64 - 1"
  by (simp add: unsigned_minus_1_eq_mask mask_eq_exp_minus_1)

lemma downgrade_u64_Inr_iff: "downgrade_u64 v = Inr x \<longleftrightarrow> unat v < 2 ^ 64 \<and> x = ucast v"
  by (auto simp: downgrade_u64_def ebind_Inr_iff sys_assert_def word_le_nat_alt)

lemma downgrade_i64_Inr_iff: "downgrade_i64 v = Inr x \<longleftrightarrow> unat v < 2 ^ 63 \<and> x = ucast v"
  by (auto simp: downgrade_i64_def ebind_Inr_iff sys_assert_def word_le_nat_alt)

lemma unat_ucast_down:
  assumes "unat (v :: u128) < 2 ^ 64"
  shows "unat (ucast v :: u64) = unat v"
  using assms by (simp add: unsigned_ucast_eq take_bit_nat_eq_self_iff)

section \<open>The moving average\<close>

lemma ratio_mult_Inr:
  assumes "ratio_mult v r = Inr x"
  shows "unat v * unat (numerator r) < 2 ^ 64" and "denominator r \<noteq> 0"
    and "unat x = unat v * unat (numerator r) div unat (denominator r)"
proof -
  show den: "denominator r \<noteq> 0"
    using assms by (auto simp: ratio_mult_def ebind_Inr_iff split: if_splits)
  show small: "unat v * unat (numerator r) < 2 ^ 64"
  proof (cases "numerator r = 0")
    case False
    then have "v \<le> - 1 div numerator r"
      using assms by (auto simp: ratio_mult_def ebind_Inr_iff sys_assert_def split: if_splits)
    then have "unat v \<le> (2 ^ 64 - 1) div unat (numerator r)"
      unfolding word_le_nat_alt unat_div_distrib unat_minus_one_u64 .
    then have "unat v * unat (numerator r) \<le> (2 ^ 64 - 1) div unat (numerator r) * unat (numerator r)"
      by (rule mult_le_mono1)
    also have "\<dots> \<le> 2 ^ 64 - 1"
      by (rule div_times_less_eq_dividend)
    finally show ?thesis by simp
  qed simp
  have "x = v * numerator r div denominator r"
    using assms by (auto simp: ratio_mult_def ebind_Inr_iff split: if_splits)
  with small show "unat x = unat v * unat (numerator r) div unat (denominator r)"
    by (simp add: unat_div_distrib unat_mult_lem [THEN iffD1])
qed

lemma ratio_mult_succeeds:
  assumes "unat v * unat (numerator r) < 2 ^ 64" "denominator r \<noteq> 0"
  shows "\<exists>x. ratio_mult v r = Inr x"
proof (cases "numerator r = 0")
  case False
  then have "unat v \<le> (2 ^ 64 - 1) div unat (numerator r)"
    using assms(1) by (simp add: less_eq_div_iff_mult_less_eq unat_gt_0)
  then have "v \<le> - 1 div numerator r"
    unfolding word_le_nat_alt unat_div_distrib unat_minus_one_u64 .
  with assms(2) show ?thesis
    by (simp add: ratio_mult_def sys_assert_def)
qed (use assms(2) in \<open>simp add: ratio_mult_def\<close>)

lemma precision_nat [simp]: "unat rate_limiting_precision = 1000000"
  by (simp add: rate_limiting_precision_def)

lemma average_exact: "\<exists>m. average a = Inr m \<and> unat m = (unat (value_ex a) + 999999) div 1000000"
proof -
  have "rate_limiting_precision \<noteq> 0"
    by (simp add: rate_limiting_precision_def)
  from integer_divide_ceil_exact [OF this, of "value_ex a"] show ?thesis
    by (simp add: average_def add.commute)
qed

lemma in_window_nat:
  "(ucast (l :: u32) :: u64) + ucast (w :: u32) > ucast (ordinal :: u32) \<longleftrightarrow> unat ordinal < unat l + unat w"
proof -
  have "unat ((ucast l :: u64) + ucast w) = unat l + unat w"
    using unat_u32_less [of l] unat_u32_less [of w] by (simp add: unat_add_lem [THEN iffD1])
  then show ?thesis
    by (simp add: word_less_nat_alt)
qed

lemma decay_numerator_nat:
  assumes "l < ordinal" "unat ordinal < unat l + unat w"
  shows "unat ((ucast (w :: u32) :: u64) - ucast (ordinal - l :: u32)) = unat w - (unat ordinal - unat l)"
proof -
  have "unat (ordinal - l) = unat ordinal - unat l"
    using assms(1) by (simp add: unat_sub order_less_imp_le)
  moreover have "(ucast (ordinal - l) :: u64) \<le> ucast w"
    using assms calculation by (simp add: word_le_nat_alt)
  ultimately show ?thesis
    by (simp add: unat_sub)
qed

lemma decay_accumulator_Inr:
  assumes "decay_accumulator ordinal w a = Inr a'"
  shows "last_ordinal a < ordinal" and "last_ordinal a' = ordinal"
    and "unat (value_ex a') = unat (value_ex a) * (unat w - (unat ordinal - unat (last_ordinal a))) div unat w"
    and "unat (consumed a') = (unat (value_ex a') + 999999) div 1000000"
proof -
  from assms obtain v m where less: "last_ordinal a < ordinal"
    and v: "(if (ucast (last_ordinal a) :: u64) + ucast w > ucast ordinal
            then ratio_mult (value_ex a)
                   \<lparr>numerator = ucast w - ucast (ordinal - last_ordinal a), denominator = ucast w\<rparr>
            else Inr 0) = Inr v"
    and m: "average (a\<lparr>value_ex := v, last_ordinal := ordinal\<rparr>) = Inr m"
    and a': "a' = a\<lparr>value_ex := v, last_ordinal := ordinal, consumed := m\<rparr>"
    by (auto simp: decay_accumulator_def ebind_Inr_iff sys_assert_def Let_def split: if_splits)
  show "last_ordinal a < ordinal" by (fact less)
  show "last_ordinal a' = ordinal" by (simp add: a')
  show "unat (consumed a') = (unat (value_ex a') + 999999) div 1000000"
    using m average_exact [of "a\<lparr>value_ex := v, last_ordinal := ordinal\<rparr>"] by (auto simp: a')
  show "unat (value_ex a') = unat (value_ex a) * (unat w - (unat ordinal - unat (last_ordinal a))) div unat w"
  proof (cases "unat ordinal < unat (last_ordinal a) + unat w")
    case True
    with v have "ratio_mult (value_ex a)
        \<lparr>numerator = ucast w - ucast (ordinal - last_ordinal a), denominator = ucast w\<rparr> = Inr v"
      unfolding in_window_nat by simp
    from ratio_mult_Inr(3) [OF this] decay_numerator_nat [OF less True] show ?thesis
      by (simp add: a')
  next
    case False
    with v have "v = 0"
      unfolding in_window_nat by simp
    with False show ?thesis
      by (simp add: a')
  qed
qed

text \<open>One step of the average in unbounded arithmetic: \<open>d\<close> periods pass, then \<open>u\<close> units are used.\<close>

definition ema_step :: "nat \<Rightarrow> nat \<Rightarrow> nat \<Rightarrow> nat \<Rightarrow> nat" where
  "ema_step w d u v = v * (w - d) div w + (u * 1000000 + w - 1) div w"

lemma decay_le: "v * (w - d) div w \<le> (v :: nat)"
proof -
  have "v * (w - d) div w \<le> v * w div w"
    by (intro div_le_mono mult_le_mono2) simp
  then show ?thesis
    by (cases "w = 0") simp_all
qed

lemma units_ex_nat: "unat ((ucast (units :: u64) :: u128) * ucast rate_limiting_precision) = unat units * 1000000"
  using unat_u64_less [of units] by (simp add: unat_mult_lem [THEN iffD1])

lemma contrib_nat:
  assumes "w \<noteq> 0"
  shows "\<exists>q. integer_divide_ceil ((ucast (units :: u64) :: u128) * ucast rate_limiting_precision) (ucast (w :: u32)) = Inr q
           \<and> unat q = (unat units * 1000000 + unat w - 1) div unat w"
proof -
  have "(ucast w :: u128) \<noteq> 0"
    using assms by (simp add: unat_eq_zero [symmetric] del: unat_eq_zero)
  from integer_divide_ceil_exact [OF this, of "ucast units * ucast rate_limiting_precision"] show ?thesis
    unfolding units_ex_nat by simp
qed

lemma room_nat: "- 1 - (x :: u64) \<ge> y \<longleftrightarrow> unat x + unat y < 2 ^ 64"
  using unat_u64_less [of x] by (auto simp: word_le_nat_alt unat_sub)

lemma add_usage_Inr:
  assumes "add_usage units ordinal w a = Inr a'"
  shows "w \<noteq> 0" and "last_ordinal a \<le> ordinal" and "last_ordinal a' = ordinal"
    and "unat (value_ex a') = ema_step (unat w) (unat ordinal - unat (last_ordinal a)) (unat units) (unat (value_ex a))"
proof -
  from assms obtain q b where
        q: "integer_divide_ceil ((ucast units :: u128) * ucast rate_limiting_precision) (ucast w) = Inr q"
    and small: "unat q < 2 ^ 64" and room: "- 1 - value_ex a \<ge> (ucast q :: u64)"
    and b: "(if last_ordinal a \<noteq> ordinal then decay_accumulator ordinal w a else Inr a) = Inr b"
    and a': "a' = b\<lparr>consumed := consumed b + units, value_ex := value_ex b + ucast q\<rparr>"
    by (auto simp: add_usage_def ebind_Inr_iff sys_assert_def downgrade_u64_Inr_iff split: if_split_asm)
  from q have "(ucast w :: u128) \<noteq> 0"
    by (auto simp: integer_divide_ceil_def)
  then show w: "w \<noteq> 0" by auto
  have contrib: "unat (ucast q :: u64) = (unat units * 1000000 + unat w - 1) div unat w"
    using contrib_nat [OF w, of units] q unat_ucast_down [OF small] by auto
  have W: "0 < unat w" using w by (simp add: unat_gt_0)
  have ord: "last_ordinal a \<le> ordinal \<and> last_ordinal b = ordinal
      \<and> unat (value_ex b) = unat (value_ex a) * (unat w - (unat ordinal - unat (last_ordinal a))) div unat w"
  proof (cases "last_ordinal a = ordinal")
    case True
    with b W show ?thesis by auto
  next
    case False
    with b have "decay_accumulator ordinal w a = Inr b" by simp
    from decay_accumulator_Inr [OF this] show ?thesis by auto
  qed
  then show "last_ordinal a \<le> ordinal" "last_ordinal a' = ordinal"
    by (auto simp: a')
  have "unat (value_ex b) \<le> unat (value_ex a)"
    using ord decay_le by simp
  then have "unat (value_ex b) + unat (ucast q :: u64) < 2 ^ 64"
    using room W unfolding room_nat by simp
  then have "unat (value_ex a') = unat (value_ex b) + unat (ucast q :: u64)"
    by (simp add: a' unat_add_lem [THEN iffD1])
  then show "unat (value_ex a') = ema_step (unat w) (unat ordinal - unat (last_ordinal a)) (unat units) (unat (value_ex a))"
    using ord contrib by (simp add: ema_step_def)
qed

lemma decay_accumulator_succeeds:
  assumes "w \<noteq> 0" "last_ordinal a < ordinal" "unat (value_ex a) * unat w < 2 ^ 64"
  shows "\<exists>b. decay_accumulator ordinal w a = Inr b"
proof -
  have "\<exists>v. (if (ucast (last_ordinal a) :: u64) + ucast w > ucast ordinal
            then ratio_mult (value_ex a)
                   \<lparr>numerator = ucast w - ucast (ordinal - last_ordinal a), denominator = ucast w\<rparr>
            else Inr 0) = Inr v"
  proof (cases "unat ordinal < unat (last_ordinal a) + unat w")
    case True
    have "unat (value_ex a) * (unat w - (unat ordinal - unat (last_ordinal a))) \<le> unat (value_ex a) * unat w"
      by (rule mult_le_mono2) simp
    then have "unat (value_ex a) * (unat w - (unat ordinal - unat (last_ordinal a))) < 2 ^ 64"
      using assms(3) by linarith
    moreover have "(ucast w :: u64) \<noteq> 0"
      using assms(1) by (simp add: unat_eq_zero [symmetric] del: unat_eq_zero)
    ultimately show ?thesis
      unfolding in_window_nat if_P [OF True]
      by (intro ratio_mult_succeeds) (simp_all add: decay_numerator_nat [OF assms(2) True])
  qed (simp add: in_window_nat)
  then obtain v where v: "(if (ucast (last_ordinal a) :: u64) + ucast w > ucast ordinal
            then ratio_mult (value_ex a)
                   \<lparr>numerator = ucast w - ucast (ordinal - last_ordinal a), denominator = ucast w\<rparr>
            else Inr 0) = Inr v" by blast
  obtain m where "average (a\<lparr>value_ex := v, last_ordinal := ordinal\<rparr>) = Inr m"
    using average_exact by blast
  with v assms(2) show ?thesis
    by (simp add: decay_accumulator_def sys_assert_def Let_def)
qed

lemma add_usage_succeeds:
  assumes "w \<noteq> 0" "last_ordinal a < ordinal" "unat (consumed a) + unat units < 2 ^ 64"
    and "unat (value_ex a) + unat units * 1000000 < 2 ^ 64" "unat (value_ex a) * unat w < 2 ^ 64"
  shows "\<exists>a'. add_usage units ordinal w a = Inr a'
    \<and> unat (consumed a') \<le> (unat (value_ex a) + 999999) div 1000000 + unat units"
proof -
  from contrib_nat [OF assms(1)] obtain q where
        q: "integer_divide_ceil ((ucast units :: u128) * ucast rate_limiting_precision) (ucast w) = Inr q"
    and q_nat: "unat q = (unat units * 1000000 + unat w - 1) div unat w" by blast
  have "0 < unat w" using assms(1) by (simp add: unat_gt_0)
  then have q_le: "unat q \<le> unat units * 1000000"
    unfolding q_nat by (rule ceil_div_le)
  then have small: "unat q < 2 ^ 64" using assms(4) by linarith
  then have down: "downgrade_u64 q = Inr (ucast q)" by (simp add: downgrade_u64_Inr_iff)
  have room: "- 1 - value_ex a \<ge> (ucast q :: u64)" "- 1 - consumed a \<ge> units"
    unfolding room_nat unat_ucast_down [OF small] using q_le assms(3,4) by linarith+
  have raw: "units \<le> max_raw_value"
    using assms(4) by (simp add: max_raw_value_def word_le_nat_alt unat_div_distrib)
  from decay_accumulator_succeeds [OF assms(1,2,5)] obtain b where b: "decay_accumulator ordinal w a = Inr b" ..
  have "add_usage units ordinal w a = Inr (b\<lparr>consumed := consumed b + units, value_ex := value_ex b + ucast q\<rparr>)"
    using raw room assms(2) b unfolding add_usage_def q by (simp add: sys_assert_def down)
  moreover have "unat (consumed b) \<le> (unat (value_ex a) + 999999) div 1000000"
    unfolding decay_accumulator_Inr(4) [OF b] decay_accumulator_Inr(3) [OF b]
    by (intro div_le_mono add_right_mono decay_le)
  moreover have "unat (consumed b + units) \<le> unat (consumed b) + unat units"
    by (simp add: unat_word_ariths)
  ultimately show ?thesis
    by (intro exI conjI) (assumption, simp)
qed

section \<open>The average stays below the largest input\<close>

definition accumulate :: "u32 \<Rightarrow> (u32 \<times> u64) list \<Rightarrow> usage_accumulator \<Rightarrow> usage_accumulator result" where
  "accumulate w = efold (\<lambda>(ordinal, units). add_usage units ordinal w)"

lemma ema_step_bound:
  assumes "0 < w" "0 < d" "v \<le> c * 1000000 + w" "u \<le> c"
  shows "ema_step w d u v \<le> c * 1000000 + w"
proof -
  have "v * (w - d) \<le> (c * 1000000 + w) * (w - 1)"
    using assms by (intro mult_le_mono) auto
  moreover have "u * 1000000 + w - 1 \<le> c * 1000000 + w - 1"
    using assms(4) by (simp add: diff_le_mono)
  ultimately have "v * (w - d) + (u * 1000000 + w - 1) \<le> (c * 1000000 + w) * (w - 1) + (c * 1000000 + w - 1)"
    by linarith
  also have "\<dots> \<le> (c * 1000000 + w) * w"
    using assms(1) by (cases w) simp_all
  finally have "(v * (w - d) + (u * 1000000 + w - 1)) div w \<le> (c * 1000000 + w) * w div w"
    by (rule div_le_mono)
  moreover have "v * (w - d) div w + (u * 1000000 + w - 1) div w \<le> (v * (w - d) + (u * 1000000 + w - 1)) div w"
    by (simp only: div_add1_eq [of "v * (w - d)" "u * 1000000 + w - 1"] le_add1)
  ultimately show ?thesis
    using assms(1) unfolding ema_step_def by simp
qed

definition ema_bounded :: "u32 \<Rightarrow> u64 \<Rightarrow> usage_accumulator \<Rightarrow> bool" where
  "ema_bounded w U a \<longleftrightarrow> unat (value_ex a) \<le> unat U * 1000000 + unat w
     \<and> unat (consumed a) \<le> (unat U * 1000000 + unat w + 999999) div 1000000 + unat U"

definition ema_representable :: "u32 \<Rightarrow> u64 \<Rightarrow> bool" where
  "ema_representable w U \<longleftrightarrow> w \<noteq> 0 \<and> (2 * unat U * 1000000 + unat w) * unat w < 2 ^ 64"

lemma add_usage_bounded:
  assumes "ema_representable w U" "ema_bounded w U a" "last_ordinal a < t" "u \<le> U"
  shows "\<exists>b. add_usage u t w a = Inr b \<and> last_ordinal b = t \<and> ema_bounded w U b"
proof -
  note b_a = assms(2) [unfolded ema_bounded_def, THEN conjunct1] assms(2) [unfolded ema_bounded_def, THEN conjunct2]
  have w: "w \<noteq> 0" and rep: "(2 * unat U * 1000000 + unat w) * unat w < 2 ^ 64"
    using assms(1) by (simp_all add: ema_representable_def)
  have W: "0 < unat w" using w by (simp add: unat_gt_0)
  have "2 * unat U * 1000000 + unat w \<le> (2 * unat U * 1000000 + unat w) * unat w"
    using W by simp
  then have K: "2 * unat U * 1000000 + unat w < 2 ^ 64"
    using rep by linarith
  have u: "unat u \<le> unat U" using assms(4) by (simp add: word_le_nat_alt)
  have "unat (value_ex a) * unat w \<le> (2 * unat U * 1000000 + unat w) * unat w"
    using b_a(1) by (intro mult_le_mono1) linarith
  then have vw: "unat (value_ex a) * unat w < 2 ^ 64"
    using rep by linarith
  have room: "unat (consumed a) + unat u < 2 ^ 64" "unat (value_ex a) + unat u * 1000000 < 2 ^ 64"
    using K b_a u by linarith+
  from add_usage_succeeds [OF w assms(3) room vw] obtain b where
        b: "add_usage u t w a = Inr b"
    and consumed: "unat (consumed b) \<le> (unat (value_ex a) + 999999) div 1000000 + unat u" by blast
  have "unat (consumed b) \<le> (unat U * 1000000 + unat w + 999999) div 1000000 + unat U"
    using consumed div_le_mono [OF add_right_mono [OF b_a(1), of 999999], of 1000000] u by linarith
  moreover have "unat (value_ex b) \<le> unat U * 1000000 + unat w"
    unfolding add_usage_Inr(4) [OF b]
    using assms(3) u W b_a(1) by (intro ema_step_bound) (simp_all add: word_less_nat_alt)
  ultimately show ?thesis
    using b add_usage_Inr(3) [OF b] by (simp add: ema_bounded_def)
qed

lemma accumulate_bounded:
  assumes "ema_representable w U"
  shows "sorted_wrt (<) (last_ordinal a # map fst xs) \<Longrightarrow> \<forall>x \<in> set xs. snd x \<le> U \<Longrightarrow> ema_bounded w U a
    \<Longrightarrow> \<exists>a'. accumulate w xs a = Inr a' \<and> ema_bounded w U a'"
proof (induction xs arbitrary: a)
  case Nil
  then show ?case by (simp add: accumulate_def)
next
  case (Cons x xs)
  obtain t u where x: "x = (t, u)" by fastforce
  from add_usage_bounded [OF assms Cons.prems(3), of t u] Cons.prems(1,2) obtain b where
    b: "add_usage u t w a = Inr b" "last_ordinal b = t" "ema_bounded w U b" by (auto simp: x)
  moreover from Cons.IH [of b] Cons.prems(1,2) b obtain a' where
    "accumulate w xs b = Inr a'" "ema_bounded w U a'" by (auto simp: x)
  ultimately show ?case
    by (auto simp: accumulate_def x)
qed

lemma average_bounded:
  assumes "ema_bounded w U a"
  shows "\<exists>m. average a = Inr m \<and> unat m \<le> unat U + (unat w + 999999) div 1000000"
proof -
  have "(unat (value_ex a) + 999999) div 1000000 \<le> (unat w + 999999 + unat U * 1000000) div 1000000"
    using assms by (intro div_le_mono) (simp add: ema_bounded_def)
  also have "\<dots> = unat U + (unat w + 999999) div 1000000"
    by (subst div_mult_self1) simp_all
  finally show ?thesis
    using average_exact [of a] by auto
qed

text \<open>C23. Adding the usage of later and later periods to a new accumulator never fails, as long as no period uses more
  than \<open>U\<close> and \<open>U\<close> and the window are small enough for the extended values to fit, and the average the accumulator
  then reports exceeds \<open>U\<close> by at most the window over the precision, rounded up.\<close>

theorem moving_average_bounded:
  assumes "ema_representable w U" "sorted_wrt (<) (0 # map fst xs)" "\<forall>x \<in> set xs. snd x \<le> U"
  shows "\<exists>a m. efold (\<lambda>(ordinal, units). add_usage units ordinal w) xs empty_accumulator = Inr a
    \<and> average a = Inr m \<and> unat m \<le> unat U + (unat w + 999999) div 1000000"
proof -
  have "ema_bounded w U empty_accumulator"
    by (simp add: ema_bounded_def empty_accumulator_def)
  from accumulate_bounded [OF assms(1) _ assms(3) this] assms(2) obtain a where
    "accumulate w xs empty_accumulator = Inr a" "ema_bounded w U a" by (auto simp: empty_accumulator_def)
  with average_bounded [of w U a] show ?thesis
    unfolding accumulate_def by blast
qed

theorem moving_average_bounded_witness:
  "\<exists>a m. efold (\<lambda>(ordinal, units). add_usage units ordinal 120) [(1, 200000), (2, 200000), (9, 7), (500, 200000)]
       empty_accumulator = Inr a
    \<and> average a = Inr m \<and> unat m \<le> unat (200000 :: u64) + (unat (120 :: u32) + 999999) div 1000000"
  by (rule moving_average_bounded) (simp_all add: ema_representable_def)

section \<open>The elastic limits of a block\<close>

definition sound_parameters :: "elastic_limit_parameters \<Rightarrow> bool" where
  "sound_parameters p \<longleftrightarrow> ema_representable (elp_periods p) (elp_max p)
     \<and> 1 \<le> elp_max_multiplier p
     \<and> denominator (elp_contract_rate p) \<noteq> 0 \<and> denominator (elp_expand_rate p) \<noteq> 0
     \<and> unat (elp_max p) * unat (elp_max_multiplier p) < 2 ^ 64
     \<and> unat (elp_max p) * unat (elp_max_multiplier p) * unat (numerator (elp_contract_rate p)) < 2 ^ 64
     \<and> unat (elp_max p) * unat (elp_max_multiplier p) * unat (numerator (elp_expand_rate p)) < 2 ^ 64"

definition in_elastic_range :: "elastic_limit_parameters \<Rightarrow> u64 \<Rightarrow> bool" where
  "in_elastic_range p v \<longleftrightarrow> unat (elp_max p) \<le> unat v \<and> unat v \<le> unat (elp_max p) * unat (elp_max_multiplier p)"

lemma elastic_cap_nat:
  assumes "sound_parameters p"
  shows "unat (elp_max p * ucast (elp_max_multiplier p)) = unat (elp_max p) * unat (elp_max_multiplier p)"
  using assms by (simp add: sound_parameters_def unat_mult_lem [THEN iffD1])

lemma update_elastic_limit_succeeds:
  assumes "sound_parameters p" "in_elastic_range p v"
  shows "\<exists>v'. update_elastic_limit v avg p = Inr v' \<and> in_elastic_range p v'"
proof -
  define r where "r = (if avg > elp_target p then elp_contract_rate p else elp_expand_rate p)"
  have r: "denominator r \<noteq> 0" "unat (elp_max p) * unat (elp_max_multiplier p) * unat (numerator r) < 2 ^ 64"
    using assms(1) by (simp_all add: r_def sound_parameters_def)
  have "unat v * unat (numerator r) \<le> unat (elp_max p) * unat (elp_max_multiplier p) * unat (numerator r)"
    using assms(2) by (intro mult_le_mono1) (simp add: in_elastic_range_def)
  with r(2) have "unat v * unat (numerator r) < 2 ^ 64"
    by linarith
  from ratio_mult_succeeds [OF this r(1)] obtain x where "ratio_mult v r = Inr x" ..
  then have res: "update_elastic_limit v avg p = Inr (min (max x (elp_max p)) (elp_max p * ucast (elp_max_multiplier p)))"
    by (auto simp: update_elastic_limit_def r_def)
  have "1 \<le> unat (elp_max_multiplier p)"
    using assms(1) by (simp add: sound_parameters_def word_le_nat_alt)
  then have "unat (elp_max p) \<le> unat (elp_max p) * unat (elp_max_multiplier p)"
    by simp
  then have "in_elastic_range p (min (max x (elp_max p)) (elp_max p * ucast (elp_max_multiplier p)))"
    by (auto simp: in_elastic_range_def min_def max_def word_le_nat_alt elastic_cap_nat [OF assms(1)])
  with res show ?thesis by blast
qed

definition block_usage_ok :: "elastic_limit_parameters \<Rightarrow> usage_accumulator \<Rightarrow> u64 \<Rightarrow> bool" where
  "block_usage_ok p avg v \<longleftrightarrow> ema_bounded (elp_periods p) (elp_max p) avg \<and> in_elastic_range p v"

lemma block_usage_step:
  assumes "sound_parameters p" "block_usage_ok p a v" "last_ordinal a < n" "pend \<le> elp_max p"
  shows "\<exists>b m v'. add_usage pend n (elp_periods p) a = Inr b \<and> average b = Inr m
    \<and> update_elastic_limit v m p = Inr v' \<and> block_usage_ok p b v' \<and> last_ordinal b = n"
proof -
  have "ema_representable (elp_periods p) (elp_max p)"
    using assms(1) by (simp add: sound_parameters_def)
  from add_usage_bounded [OF this _ assms(3,4)] assms(2) obtain b where
    b: "add_usage pend n (elp_periods p) a = Inr b" "last_ordinal b = n" "ema_bounded (elp_periods p) (elp_max p) b"
    by (auto simp: block_usage_ok_def)
  obtain m where m: "average b = Inr m" using average_exact by blast
  from update_elastic_limit_succeeds [OF assms(1), of v m] assms(2) obtain v' where
    "update_elastic_limit v m p = Inr v'" "in_elastic_range p v'" by (auto simp: block_usage_ok_def)
  with b m show ?thesis by (auto simp: block_usage_ok_def)
qed

definition block_limits_ok :: "resource_db \<Rightarrow> bool" where
  "block_limits_ok db \<longleftrightarrow>
     block_usage_ok (rc_cpu_limit_parameters (rdb_config db)) (rs_average_block_cpu_usage (rdb_state db)) (rs_virtual_cpu_limit (rdb_state db))
     \<and> block_usage_ok (rc_net_limit_parameters (rdb_config db)) (rs_average_block_net_usage (rdb_state db)) (rs_virtual_net_limit (rdb_state db))
     \<and> rs_pending_cpu_usage (rdb_state db) \<le> elp_max (rc_cpu_limit_parameters (rdb_config db))
     \<and> rs_pending_net_usage (rdb_state db) \<le> elp_max (rc_net_limit_parameters (rdb_config db))"

lemma process_block_usage_keeps:
  assumes "sound_parameters (rc_cpu_limit_parameters (rdb_config db))" "sound_parameters (rc_net_limit_parameters (rdb_config db))"
    and "block_limits_ok db" "last_ordinal (rs_average_block_cpu_usage (rdb_state db)) < n"
    and "last_ordinal (rs_average_block_net_usage (rdb_state db)) < n"
  shows "\<exists>db'. process_block_usage n db = Inr db' \<and> block_limits_ok db' \<and> rdb_config db' = rdb_config db
    \<and> last_ordinal (rs_average_block_cpu_usage (rdb_state db')) = n
    \<and> last_ordinal (rs_average_block_net_usage (rdb_state db')) = n"
proof -
  from assms(3) have ok:
    "block_usage_ok (rc_cpu_limit_parameters (rdb_config db)) (rs_average_block_cpu_usage (rdb_state db)) (rs_virtual_cpu_limit (rdb_state db))"
    "block_usage_ok (rc_net_limit_parameters (rdb_config db)) (rs_average_block_net_usage (rdb_state db)) (rs_virtual_net_limit (rdb_state db))"
    "rs_pending_cpu_usage (rdb_state db) \<le> elp_max (rc_cpu_limit_parameters (rdb_config db))"
    "rs_pending_net_usage (rdb_state db) \<le> elp_max (rc_net_limit_parameters (rdb_config db))"
    by (simp_all add: block_limits_ok_def)
  from block_usage_step [OF assms(1) ok(1) assms(4) ok(3)] block_usage_step [OF assms(2) ok(2) assms(5) ok(4)]
  show ?thesis
    by (auto simp: process_block_usage_def update_virtual_cpu_limit_def update_virtual_net_limit_def Let_def
        block_limits_ok_def)
qed

section \<open>What an account can spend\<close>

lemma window_product_nat: "unat ((ucast (v :: u64) :: u128) * ucast (w :: u32)) = unat v * unat w"
proof -
  have "unat v * unat w < 18446744073709551616 * 4294967296"
    using unat_u64_less unat_u32_less by (intro mult_strict_mono) auto
  then show ?thesis
    by (simp add: unat_mult_lem [THEN iffD1])
qed

lemma used_in_window_exact:
  "\<exists>q. used_in_window u w = Inr q \<and> unat q = (unat (value_ex u) * unat w + 999999) div 1000000"
proof -
  have ne: "(ucast rate_limiting_precision :: u128) \<noteq> 0"
    by (simp add: rate_limiting_precision_def)
  from integer_divide_ceil_exact [OF ne, of "ucast (value_ex u) * ucast w"] show ?thesis
    by (simp add: used_in_window_def window_product_nat add.commute)
qed

lemma ema_step_spend:
  assumes "0 < w" "w \<le> 1000000"
  shows "ema_step w d u v * w div 1000000 \<le> u + (v * w + 999999) div 1000000"
proof -
  have "(u * 1000000 + w - 1) div w * w \<le> u * 1000000 + w - 1"
    by (rule div_times_less_eq_dividend)
  moreover have "v * (w - d) div w * w \<le> v * w"
    using decay_le by (rule mult_le_mono1)
  ultimately have "ema_step w d u v * w \<le> (v * w + 999999) + u * 1000000"
    using assms unfolding ema_step_def add_mult_distrib by linarith
  then have "ema_step w d u v * w div 1000000 \<le> ((v * w + 999999) + u * 1000000) div 1000000"
    by (rule div_le_mono)
  also have "\<dots> = u + (v * w + 999999) div 1000000"
    by (subst div_mult_self1) simp_all
  finally show ?thesis .
qed

lemma account_limit_ex_available:
  assumes "account_limit_ex weight tot w p vl u gl now = Inr (arl, False)" "sint weight \<ge> 0" "tot \<noteq> 0"
    and "0 < unat (arl_available arl)"
  shows "unat (arl_available arl) + (unat (value_ex u) * unat w + 999999) div 1000000
    = unat ((ucast vl :: u128) * ucast w * ucast weight div ucast tot)"
proof -
  define M where "M = (ucast vl :: u128) * ucast w * ucast weight div ucast tot"
  from used_in_window_exact [of u w] obtain q where q: "used_in_window u w = Inr q"
    and q_nat: "unat q = (unat (value_ex u) * unat w + 999999) div 1000000" by blast
  obtain l g where lg: "greylisted_limit gl p vl = (l, g)" by fastforce
  have "g = False"
    using assms(1-3) by (auto simp: account_limit_ex_def lg Let_def ebind_Inr_iff)
  then have "l = vl"
    using lg by (auto simp: greylisted_limit_def Let_def split: if_splits)
  then have "(if M \<le> q then Inr 0 else downgrade_i64 (M - q)) = Inr (arl_available arl)"
    using assms(1-3) by (auto simp: account_limit_ex_def lg Let_def ebind_Inr_iff q M_def mult.commute)
  then have "q < M" and "unat (M - q) < 2 ^ 63" and "arl_available arl = ucast (M - q)"
    using assms(4) by (auto simp: downgrade_i64_Inr_iff not_le split: if_split_asm)
  then show ?thesis
    unfolding M_def [symmetric] q_nat [symmetric]
    by (simp add: unat_ucast_down unat_sub word_less_nat_alt word_le_nat_alt)
qed



end
