(* ===== verification/Resource_Accounts.thy ===== *)
theory Resource_Accounts
  imports Resource_Usage
begin

text \<open>
  Sequences of operations of the resource limits manager: the rows stay well-formed, the two sets of limits of an
  account, pending and actual, refine a single map of limits, the totals are the sums of the weights, and a block can
  always be finished.
\<close>

section \<open>Operations\<close>

datatype resource_op =
    InitializeAccount account_name
  | SetBlockParameters elastic_limit_parameters elastic_limit_parameters
  | UpdateAccountUsage "account_name list" u32
  | AddTransactionUsage "account_name list" u64 u64 u32
  | AddPendingRamUsage account_name i64
  | SetAccountLimits account_name i64 i64 i64
  | ProcessAccountLimitUpdates
  | ProcessBlockUsage u32

fun run_op :: "resource_op \<Rightarrow> resource_db \<Rightarrow> resource_db result" where
  "run_op (InitializeAccount a) db = initialize_account a db"
| "run_op (SetBlockParameters cpu net) db = set_block_parameters cpu net db"
| "run_op (UpdateAccountUsage accounts t) db = update_account_usage accounts t db"
| "run_op (AddTransactionUsage accounts cpu net t) db = add_transaction_usage accounts cpu net t db"
| "run_op (AddPendingRamUsage a delta) db = add_pending_ram_usage a delta db"
| "run_op (SetAccountLimits a ram net cpu) db = ebind (set_account_limits a ram net cpu db) (\<lambda>(_, db). Inr db)"
| "run_op ProcessAccountLimitUpdates db = process_account_limit_updates db"
| "run_op (ProcessBlockUsage n) db = process_block_usage n db"

text \<open>The contract of a sequence of operations: each step keeps an invariant and is a step of a specification.\<close>

locale op_simulation =
  fixes run :: "'op \<Rightarrow> 's \<Rightarrow> 's result" and spec :: "'op \<Rightarrow> 'a \<Rightarrow> 'a result"
    and inv :: "'s \<Rightarrow> bool" and abs :: "'s \<Rightarrow> 'a"
  assumes keeps: "inv s \<Longrightarrow> run op s = Inr s' \<Longrightarrow> inv s'"
    and simulates: "inv s \<Longrightarrow> run op s = Inr s' \<Longrightarrow> spec op (abs s) = Inr (abs s')"
begin

lemma runs_keep: "inv s \<Longrightarrow> efold run ops s = Inr s' \<Longrightarrow> inv s'"
  by (erule (1) efold_invariant) (rule keeps)

lemma runs_simulate: "inv s \<Longrightarrow> efold run ops s = Inr s' \<Longrightarrow> efold spec ops (abs s) = Inr (abs s')"
proof (induction ops arbitrary: s)
  case (Cons op ops)
  from Cons.prems(2) obtain t where t: "run op s = Inr t" "efold run ops t = Inr s'"
    by (auto simp: ebind_Inr_iff)
  with Cons.IH [OF keeps [OF Cons.prems(1) t(1)]] simulates [OF Cons.prems(1) t(1)] show ?case
    by simp
qed simp

end

section \<open>Rows\<close>

definition rows_ok :: "resource_db \<Rightarrow> bool" where
  "rows_ok db \<longleftrightarrow> fm_wf (rdb_limits db) \<and> fm_wf (rdb_pending db) \<and> fm_wf (rdb_usage db)
     \<and> fst ` set (rdb_pending db) \<subseteq> fst ` set (rdb_limits db)
     \<and> fst ` set (rdb_usage db) = fst ` set (rdb_limits db)"

lemma db_get_Inr_iff: "db_get k m = Inr v \<longleftrightarrow> fm_find k m = Some v"
  by (simp add: db_get_def split: option.splits)

lemma db_get_Inl_iff: "db_get k m = Inl e \<longleftrightarrow> k \<notin> fst ` set m \<and> e = out_of_range"
  by (auto simp: db_get_def fm_find_None_iff [symmetric] split: option.splits)

lemma fm_find_key: "fm_find k m = Some v \<Longrightarrow> k \<in> fst ` set m"
  by (auto dest: fm_find_Some_in intro: rev_image_eqI)

lemma assign_existing: "fm_find k m = Some v \<Longrightarrow> fst ` set (fm_assign k v' m) = fst ` set m"
  by (auto dest: fm_find_key)

text \<open>What the operations on usage leave alone.\<close>

definition same_limits :: "resource_db \<Rightarrow> resource_db \<Rightarrow> bool" where
  "same_limits db db' \<longleftrightarrow> rdb_limits db' = rdb_limits db \<and> rdb_pending db' = rdb_pending db
     \<and> rs_total_cpu_weight (rdb_state db') = rs_total_cpu_weight (rdb_state db)
     \<and> rs_total_net_weight (rdb_state db') = rs_total_net_weight (rdb_state db)
     \<and> rs_total_ram_bytes (rdb_state db') = rs_total_ram_bytes (rdb_state db)"

definition same_usage_rows :: "resource_db \<Rightarrow> resource_db \<Rightarrow> bool" where
  "same_usage_rows db db' \<longleftrightarrow> (fm_wf (rdb_usage db) \<longrightarrow> fm_wf (rdb_usage db'))
     \<and> fst ` set (rdb_usage db') = fst ` set (rdb_usage db)"

lemma rows_ok_same: "rows_ok db \<Longrightarrow> same_limits db db' \<Longrightarrow> same_usage_rows db db' \<Longrightarrow> rows_ok db'"
  by (simp add: rows_ok_def same_limits_def same_usage_rows_def)

lemma efold_same:
  assumes "efold f xs db = Inr db'" "\<And>x s s'. f x s = Inr s' \<Longrightarrow> same_limits s s' \<and> same_usage_rows s s'"
  shows "same_limits db db' \<and> same_usage_rows db db'"
  using assms(1)
proof (rule efold_invariant)
  show "same_limits db db \<and> same_usage_rows db db"
    by (simp add: same_limits_def same_usage_rows_def)
  show "same_limits db s \<and> same_usage_rows db s \<Longrightarrow> f x s = Inr s' \<Longrightarrow> same_limits db s' \<and> same_usage_rows db s'" for x s s'
    using assms(2) [of x s s'] by (simp add: same_limits_def same_usage_rows_def)
qed

lemma usage_row_modified:
  assumes "fm_find a (rdb_usage db) = Some u"
  shows "same_limits db (db\<lparr>rdb_usage := fm_assign a u' (rdb_usage db)\<rparr>)"
    and "same_usage_rows db (db\<lparr>rdb_usage := fm_assign a u' (rdb_usage db)\<rparr>)"
  using assign_existing [OF assms] by (simp_all add: same_limits_def same_usage_rows_def del: fst_set_fm_assign)

lemma same_refl: "same_limits db db" "same_usage_rows db db"
  by (simp_all add: same_limits_def same_usage_rows_def)

lemma update_account_usage_same:
  "update_account_usage accounts t db = Inr db' \<Longrightarrow> same_limits db db' \<and> same_usage_rows db db'"
  unfolding update_account_usage_def
  by (erule efold_same) (auto simp: ebind_Inr_iff db_get_Inr_iff usage_row_modified)

lemma add_account_usage_same:
  "add_account_usage cpu net t a db = Inr db' \<Longrightarrow> same_limits db db' \<and> same_usage_rows db db'"
  by (auto simp: add_account_usage_def ebind_Inr_iff db_get_Inr_iff usage_row_modified)

lemma add_transaction_usage_same:
  assumes "add_transaction_usage accounts cpu net t db = Inr db'"
  shows "same_limits db db' \<and> same_usage_rows db db'"
proof -
  from assms obtain mid where "efold (add_account_usage cpu net t) accounts db = Inr mid"
    and "same_limits mid db'" "same_usage_rows mid db'"
    by (auto simp: add_transaction_usage_def ebind_Inr_iff Let_def same_limits_def same_usage_rows_def)
  with efold_same [OF this(1) add_account_usage_same] show ?thesis
    by (simp add: same_limits_def same_usage_rows_def)
qed

lemma add_pending_ram_usage_same:
  "add_pending_ram_usage a delta db = Inr db' \<Longrightarrow> same_limits db db' \<and> same_usage_rows db db'"
  by (auto simp: add_pending_ram_usage_def ebind_Inr_iff db_get_Inr_iff usage_row_modified same_refl split: if_splits)

lemma process_block_usage_same:
  "process_block_usage n db = Inr db' \<Longrightarrow> same_limits db db' \<and> same_usage_rows db db'"
  by (auto simp: process_block_usage_def update_virtual_cpu_limit_def update_virtual_net_limit_def ebind_Inr_iff Let_def
      same_limits_def same_usage_rows_def)

lemma set_block_parameters_same:
  "set_block_parameters cpu net db = Inr db' \<Longrightarrow> same_limits db db' \<and> same_usage_rows db db'"
  by (auto simp: set_block_parameters_def ebind_Inr_iff same_limits_def same_usage_rows_def split: if_splits)

lemma process_updates_invariant:
  assumes "process_account_limit_updates db = Inr db'" "P db"
    and step: "\<And>owner p s s'. P s \<Longrightarrow> fm_find owner (rdb_pending s) = Some p
      \<Longrightarrow> process_account_limit_update owner p s = Inr s' \<Longrightarrow> P s'"
  shows "P db' \<and> rdb_pending db' = []"
  using assms(1,2)
proof (induction db rule: process_account_limit_updates.induct)
  case (1 db)
  show ?case
  proof (cases "rdb_pending db")
    case Nil
    with 1(2,3) show ?thesis by (simp add: process_account_limit_updates.simps [of db])
  next
    case (Cons x rest)
    obtain owner p where x: "x = (owner, p)" by fastforce
    from 1(2) obtain mid where mid: "process_account_limit_update owner p db = Inr mid"
      "process_account_limit_updates mid = Inr db'"
      unfolding process_account_limit_updates.simps [of db] Cons x by (auto simp: ebind_Inr_iff)
    have "P mid"
      by (rule step [OF 1(3) _ mid(1)]) (simp add: Cons x)
    with 1(1) [OF Cons x [symmetric] mid(1) mid(2)] show ?thesis by simp
  qed
qed

section \<open>The limits of the accounts refine one map\<close>

definition abs_limits :: "resource_db \<Rightarrow> account_name \<rightharpoonup> resource_limits_object" where
  "abs_limits db a = (case fm_find a (rdb_pending db) of Some p \<Rightarrow> Some p | None \<Rightarrow> fm_find a (rdb_limits db))"

fun spec_op :: "resource_op \<Rightarrow> (account_name \<rightharpoonup> resource_limits_object) \<Rightarrow> (account_name \<rightharpoonup> resource_limits_object) result" where
  "spec_op (InitializeAccount a) m = (if m a = None then Inr (m(a \<mapsto> unlimited)) else Inl logic_error)"
| "spec_op (SetAccountLimits a ram net cpu) m =
     (if m a = None then Inl out_of_range
      else Inr (m(a \<mapsto> \<lparr>rl_net_weight = net, rl_cpu_weight = cpu, rl_ram_bytes = ram\<rparr>)))"
| "spec_op _ m = Inr m"

lemma get_account_limits_abs:
  "get_account_limits a db = (case abs_limits db a of None \<Rightarrow> Inl out_of_range | Some l \<Rightarrow> Inr l)"
  by (simp add: get_account_limits_def abs_limits_def db_get_def split: option.splits)

lemma abs_same: "same_limits db db' \<Longrightarrow> abs_limits db' = abs_limits db"
  by (rule ext) (simp add: same_limits_def abs_limits_def split: option.split)

lemma process_update_keeps:
  assumes "rows_ok db" "fm_find owner (rdb_pending db) = Some p" "process_account_limit_update owner p db = Inr db'"
  shows "rows_ok db'" and "abs_limits db' = abs_limits db"
proof -
  from assms(3) obtain l s where find: "fm_find owner (rdb_limits db) = Some l"
    and db': "db' = db\<lparr>rdb_limits := fm_assign owner p (rdb_limits db), rdb_pending := fm_erase owner (rdb_pending db), rdb_state := s\<rparr>"
    by (auto simp: process_account_limit_update_def ebind_Inr_iff db_get_Inr_iff)
  have "fst ` set (fm_erase owner (rdb_pending db)) \<subseteq> fst ` set (rdb_pending db)"
    by (rule image_mono) (rule fm_erase_subset)
  moreover have "fst ` set (rdb_pending db) \<subseteq> fst ` set (rdb_limits db)"
    using assms(1) by (simp add: rows_ok_def)
  ultimately have "fst ` set (fm_erase owner (rdb_pending db)) \<subseteq> fst ` set (rdb_limits db)"
    by (rule order_trans)
  with assms(1) show "rows_ok db'"
    by (simp add: rows_ok_def db' assign_existing [OF find] del: fst_set_fm_assign)
  show "abs_limits db' = abs_limits db"
    using assms(1,2) by (auto simp: abs_limits_def db' rows_ok_def fm_find_erase fm_find_assign fun_eq_iff split: option.split)
qed

lemma process_updates_keep:
  assumes "rows_ok db" "process_account_limit_updates db = Inr db'"
  shows "rows_ok db'" and "abs_limits db' = abs_limits db" and "rdb_pending db' = []"
proof -
  have "(rows_ok db' \<and> abs_limits db' = abs_limits db) \<and> rdb_pending db' = []"
    by (rule process_updates_invariant [OF assms(2)]) (use assms(1) process_update_keeps in auto)
  then show "rows_ok db'" "abs_limits db' = abs_limits db" "rdb_pending db' = []"
    by simp_all
qed

lemma initialize_account_keeps:
  assumes "rows_ok db" "initialize_account a db = Inr db'"
  shows "rows_ok db'" and "abs_limits db a = None" and "abs_limits db' = (abs_limits db)(a \<mapsto> unlimited)"
proof -
  from assms(2) obtain u where none: "fm_find a (rdb_limits db) = None"
    and db': "db' = db\<lparr>rdb_limits := fm_assign a unlimited (rdb_limits db), rdb_usage := fm_assign a u (rdb_usage db)\<rparr>"
    by (auto simp: initialize_account_def ebind_Inr_iff db_create_def split: option.splits)
  show "rows_ok db'"
    using assms(1) by (auto simp: rows_ok_def db')
  have pend: "fm_find a (rdb_pending db) = None"
    using assms(1) none by (auto simp: rows_ok_def fm_find_None_iff)
  then show "abs_limits db a = None"
    using none by (simp add: abs_limits_def)
  show "abs_limits db' = (abs_limits db)(a \<mapsto> unlimited)"
    using assms(1) pend by (auto simp: abs_limits_def db' rows_ok_def fm_find_assign fun_eq_iff split: option.splits)
qed

lemma set_account_limits_keeps:
  assumes "rows_ok db" "set_account_limits a ram net cpu db = Inr (b, db')"
  shows "rows_ok db'" and "abs_limits db a \<noteq> None"
    and "abs_limits db' = (abs_limits db)(a \<mapsto> \<lparr>rl_net_weight = net, rl_cpu_weight = cpu, rl_ram_bytes = ram\<rparr>)"
proof -
  from assms(2) obtain l where some: "abs_limits db a = Some l" and db': "db' = db\<lparr>rdb_pending := fm_assign a
      \<lparr>rl_net_weight = net, rl_cpu_weight = cpu, rl_ram_bytes = ram\<rparr> (rdb_pending db)\<rparr>"
    by (auto simp: set_account_limits_def get_account_limits_abs ebind_Inr_iff Let_def split: option.splits)
  then have "a \<in> fst ` set (rdb_limits db)"
    using assms(1) by (auto simp: abs_limits_def rows_ok_def dest!: fm_find_key split: option.splits)
  with assms(1) show "rows_ok db'"
    by (simp add: rows_ok_def db')
  show "abs_limits db a \<noteq> None"
    by (simp add: some)
  show "abs_limits db' = (abs_limits db)(a \<mapsto> \<lparr>rl_net_weight = net, rl_cpu_weight = cpu, rl_ram_bytes = ram\<rparr>)"
    using assms(1) by (auto simp: abs_limits_def db' rows_ok_def fm_find_assign fun_eq_iff split: option.split)
qed

lemma usage_op_same:
  assumes "run_op op db = Inr db'"
    and "\<forall>a ram net cpu. op \<noteq> InitializeAccount a \<and> op \<noteq> SetAccountLimits a ram net cpu \<and> op \<noteq> ProcessAccountLimitUpdates"
  shows "same_limits db db' \<and> same_usage_rows db db'"
  using assms
  by (cases op) (simp_all add: set_block_parameters_same update_account_usage_same add_transaction_usage_same
      add_pending_ram_usage_same process_block_usage_same)

lemma run_op_refines:
  assumes "rows_ok db" "run_op op db = Inr db'"
  shows "rows_ok db' \<and> spec_op op (abs_limits db) = Inr (abs_limits db')"
proof (cases op)
  case (InitializeAccount a)
  with assms(2) initialize_account_keeps [OF assms(1), of a db'] show ?thesis by simp
next
  case (SetAccountLimits a ram net cpu)
  with assms(2) obtain b where "set_account_limits a ram net cpu db = Inr (b, db')"
    by (auto simp: ebind_Inr_iff)
  from set_account_limits_keeps [OF assms(1) this] SetAccountLimits show ?thesis by simp
next
  case ProcessAccountLimitUpdates
  with assms(2) process_updates_keep [OF assms(1), of db'] show ?thesis by simp
qed (use assms usage_op_same [OF assms(2)] rows_ok_same abs_same in auto)

interpretation limits: op_simulation run_op spec_op rows_ok abs_limits
  by unfold_locales (use run_op_refines in blast)+

lemma rows_ok_initial: "rows_ok initialize_database"
  by (simp add: rows_ok_def initialize_database_def)

lemma abs_limits_initial: "abs_limits initialize_database = Map.empty"
  by (rule ext) (simp add: abs_limits_def initialize_database_def)

text \<open>C12. The limits of the accounts behave as one map from accounts to limits, in which setting a limit takes effect at once:
  whatever operations succeed from the initial database, the same operations on the map succeed, reading a limit
  afterwards returns the entry of the map, or fails where it has none, and it makes no difference how often and when
  the pending limits were collapsed into the actual ones.\<close>

theorem account_limits_refine_map:
  assumes "efold run_op ops initialize_database = Inr db"
  shows "\<exists>m. efold spec_op ops Map.empty = Inr m
    \<and> (\<forall>a. get_account_limits a db = (case m a of None \<Rightarrow> Inl out_of_range | Some l \<Rightarrow> Inr l))"
proof -
  have "efold spec_op ops Map.empty = Inr (abs_limits db)"
    using limits.runs_simulate [OF rows_ok_initial assms] by (simp only: abs_limits_initial)
  then show ?thesis
    using get_account_limits_abs by blast
qed

text \<open>A short history, on which the theorems about histories are instantiated.\<close>

definition example_ops :: "resource_op list" where
  "example_ops = [InitializeAccount 1, InitializeAccount 2, SetAccountLimits 1 1000 5 10, SetAccountLimits 2 (- 1) (- 1) 30,
     ProcessAccountLimitUpdates, SetAccountLimits 1 500 7 20, AddTransactionUsage [1, 2] 300 400 5, ProcessBlockUsage 3]"

lemma example_runs: "\<exists>db. efold run_op example_ops initialize_database = Inr db \<and> map fst (rdb_limits db) = [1, 2]"
proof -
  have "(case efold run_op example_ops initialize_database of Inr db \<Rightarrow> map fst (rdb_limits db) = [1, 2] | Inl e \<Rightarrow> False)"
    by code_simp
  then show ?thesis
    by (auto split: sum.splits)
qed

theorem account_limits_refine_map_witness:
  "\<exists>db m. efold run_op example_ops initialize_database = Inr db \<and> efold spec_op example_ops Map.empty = Inr m
    \<and> (\<forall>a. get_account_limits a db = (case m a of None \<Rightarrow> Inl out_of_range | Some l \<Rightarrow> Inr l))"
  using example_runs account_limits_refine_map by blast

section \<open>No operation misses a row\<close>

lemma efold_no_error:
  assumes "P s" "\<And>x s. x \<in> set xs \<Longrightarrow> P s \<Longrightarrow> f x s \<noteq> Inl e"
    and "\<And>x s s'. x \<in> set xs \<Longrightarrow> P s \<Longrightarrow> f x s = Inr s' \<Longrightarrow> P s'"
  shows "efold f xs s \<noteq> Inl e"
  using assms
proof (induction xs arbitrary: s)
  case (Cons x xs)
  show ?case
  proof (cases "f x s")
    case (Inl e')
    moreover have "f x s \<noteq> Inl e" by (rule Cons.prems(2) [OF _ Cons.prems(1)]) simp
    ultimately show ?thesis by simp
  next
    case (Inr t)
    have t: "P t" by (rule Cons.prems(3) [OF _ Cons.prems(1) Inr]) simp
    have "efold f xs t \<noteq> Inl e"
    proof (rule Cons.IH [OF t])
      show "f y u \<noteq> Inl e" if "y \<in> set xs" "P u" for y u by (rule Cons.prems(2)) (use that in simp_all)
      show "P u'" if "y \<in> set xs" "P u" "f y u = Inr u'" for y u u'
        by (rule Cons.prems(3) [OF _ that(2,3)]) (use that in simp)
    qed
    with Inr show ?thesis by simp
  qed
qed simp

lemma ratio_mult_no_lookup: "ratio_mult v r \<noteq> Inl out_of_range"
  by (auto simp: ratio_mult_def ebind_Inl_iff)

lemma integer_divide_ceil_no_lookup: "integer_divide_ceil a b \<noteq> Inl out_of_range"
  by (simp add: integer_divide_ceil_def)

lemma downgrade_no_lookup: "downgrade_u64 v \<noteq> Inl out_of_range"
  by (auto simp: downgrade_u64_def ebind_Inl_iff)

lemma average_no_lookup: "average a \<noteq> Inl out_of_range"
  by (simp add: average_def integer_divide_ceil_no_lookup)

lemma decay_accumulator_no_lookup: "decay_accumulator t w a \<noteq> Inl out_of_range"
  by (auto simp: decay_accumulator_def ebind_Inl_iff Let_def ratio_mult_no_lookup average_no_lookup split: if_splits)

lemma add_usage_no_lookup: "add_usage u t w a \<noteq> Inl out_of_range"
  by (auto simp: add_usage_def ebind_Inl_iff integer_divide_ceil_no_lookup downgrade_no_lookup decay_accumulator_no_lookup
      split: if_splits)

lemma check_account_usage_no_lookup:
  "check_account_usage weight tot w v u tx_cpu_usage_exceeded \<noteq> Inl out_of_range"
  "check_account_usage weight tot w v u tx_net_usage_exceeded \<noteq> Inl out_of_range"
  by (simp_all add: check_account_usage_def Let_def)

lemma update_state_and_value_no_lookup: "update_state_and_value tot v p \<noteq> Inl out_of_range"
  by (auto simp: update_state_and_value_def ebind_Inl_iff split: if_splits)

lemma process_block_usage_no_lookup: "process_block_usage n db \<noteq> Inl out_of_range"
  by (auto simp: process_block_usage_def update_virtual_cpu_limit_def update_virtual_net_limit_def update_elastic_limit_def
      ebind_Inl_iff Let_def add_usage_no_lookup average_no_lookup ratio_mult_no_lookup split: if_splits)

definition accounts :: "resource_db \<Rightarrow> account_name set" where
  "accounts db = fst ` set (rdb_limits db)"

lemma account_rows:
  assumes "rows_ok db" "a \<in> accounts db"
  shows "db_get a (rdb_usage db) \<noteq> Inl out_of_range" and "get_account_limits a db \<noteq> Inl out_of_range"
    and "db_get a (rdb_limits db) \<noteq> Inl out_of_range"
  using assms by (auto simp: rows_ok_def accounts_def db_get_Inl_iff get_account_limits_def split: option.splits)

lemma accounts_same: "same_limits db db' \<Longrightarrow> accounts db' = accounts db"
  by (simp add: same_limits_def accounts_def)

lemma process_updates_no_lookup: "rows_ok db \<Longrightarrow> process_account_limit_updates db \<noteq> Inl out_of_range"
proof (induction db rule: process_account_limit_updates.induct)
  case (1 db)
  show ?case
  proof (cases "rdb_pending db")
    case Nil
    then show ?thesis by (simp add: process_account_limit_updates.simps [of db])
  next
    case (Cons x rest)
    obtain owner p where x: "x = (owner, p)" by fastforce
    have find: "fm_find owner (rdb_pending db) = Some p" by (simp add: Cons x)
    have "owner \<in> accounts db"
      using 1(2) by (simp add: rows_ok_def accounts_def Cons x)
    then have "process_account_limit_update owner p db \<noteq> Inl out_of_range"
      using account_rows(3) [OF 1(2)]
      by (auto simp: process_account_limit_update_def ebind_Inl_iff update_state_and_value_no_lookup)
    moreover have "process_account_limit_updates mid \<noteq> Inl out_of_range"
      if "process_account_limit_update owner p db = Inr mid" for mid
      using 1(1) [OF Cons x [symmetric] that process_update_keeps(1) [OF 1(2) find that]] .
    ultimately show ?thesis
      unfolding process_account_limit_updates.simps [of db] Cons x by (auto simp: ebind_Inl_iff)
  qed
qed

fun op_accounts :: "resource_op \<Rightarrow> account_name set" where
  "op_accounts (UpdateAccountUsage xs t) = set xs"
| "op_accounts (AddTransactionUsage xs cpu net t) = set xs"
| "op_accounts (AddPendingRamUsage a delta) = {a}"
| "op_accounts (SetAccountLimits a ram net cpu) = {a}"
| "op_accounts _ = {}"

lemma update_account_usage_no_lookup:
  assumes "rows_ok db" "set xs \<subseteq> accounts db"
  shows "update_account_usage xs t db \<noteq> Inl out_of_range"
  unfolding update_account_usage_def
proof (rule efold_no_error [where P = "\<lambda>s. rows_ok s \<and> accounts s = accounts db"])
  show "rows_ok db \<and> accounts db = accounts db" using assms(1) by simp
  fix x s
  assume x: "x \<in> set xs" and s: "rows_ok s \<and> accounts s = accounts db"
  let ?f = "ebind (db_get x (rdb_usage s)) (\<lambda>bu.
     ebind (add_usage 0 t (rc_account_net_usage_average_window (rdb_config s)) (ru_net_usage bu)) (\<lambda>net.
     ebind (add_usage 0 t (rc_account_cpu_usage_average_window (rdb_config s)) (ru_cpu_usage bu)) (\<lambda>cpu.
       Inr (s\<lparr>rdb_usage := fm_assign x (bu\<lparr>ru_net_usage := net, ru_cpu_usage := cpu\<rparr>) (rdb_usage s)\<rparr>))))"
  have "x \<in> accounts s" using x s assms(2) by auto
  with s show "?f \<noteq> Inl out_of_range"
    using account_rows(1) [of s x] by (auto simp: ebind_Inl_iff add_usage_no_lookup)
  fix s'
  assume "?f = Inr s'"
  then have "same_limits s s' \<and> same_usage_rows s s'"
    by (auto simp: ebind_Inr_iff db_get_Inr_iff usage_row_modified)
  with s rows_ok_same accounts_same show "rows_ok s' \<and> accounts s' = accounts db"
    by metis
qed

lemma add_transaction_usage_no_lookup:
  assumes "rows_ok db" "set xs \<subseteq> accounts db"
  shows "add_transaction_usage xs cpu net t db \<noteq> Inl out_of_range"
proof -
  have "efold (add_account_usage cpu net t) xs db \<noteq> Inl out_of_range"
  proof (rule efold_no_error [where P = "\<lambda>s. rows_ok s \<and> accounts s = accounts db"])
    show "rows_ok db \<and> accounts db = accounts db" using assms(1) by simp
    show "add_account_usage cpu net t x s \<noteq> Inl out_of_range"
      if "x \<in> set xs" "rows_ok s \<and> accounts s = accounts db" for x s
      using that assms(2) account_rows(1,2) [of s x]
      by (auto simp: add_account_usage_def ebind_Inl_iff add_usage_no_lookup check_account_usage_no_lookup)
    show "rows_ok s' \<and> accounts s' = accounts db"
      if "rows_ok s \<and> accounts s = accounts db" "add_account_usage cpu net t x s = Inr s'" for x s s'
      using that(1) add_account_usage_same [OF that(2)] rows_ok_same accounts_same by auto
  qed
  then show ?thesis
    by (auto simp: add_transaction_usage_def ebind_Inl_iff Let_def)
qed

text \<open>C21. In every database that operations reach from the initial one the rows fit together: the keys are unique, an account
  has one row of limits and one of usage, and there are pending limits only for an account that exists. Therefore
  no further operation on accounts that exist ends in a lookup that finds no row.\<close>

theorem resource_rows_typed:
  assumes "efold run_op ops initialize_database = Inr db" "op_accounts op \<subseteq> accounts db"
  shows "rows_ok db \<and> run_op op db \<noteq> Inl out_of_range"
proof -
  have ok: "rows_ok db"
    by (rule limits.runs_keep [OF rows_ok_initial assms(1)])
  have "run_op op db \<noteq> Inl out_of_range"
  proof (cases op)
    case (InitializeAccount a)
    then show ?thesis by (auto simp: initialize_account_def db_create_def ebind_Inl_iff split: option.splits)
  next
    case (SetBlockParameters cpu net)
    then show ?thesis by (auto simp: set_block_parameters_def validate_elastic_def ebind_Inl_iff)
  next
    case (UpdateAccountUsage xs t)
    with ok assms(2) update_account_usage_no_lookup show ?thesis by simp
  next
    case (AddTransactionUsage xs cpu net t)
    with ok assms(2) add_transaction_usage_no_lookup show ?thesis by simp
  next
    case (AddPendingRamUsage a delta)
    with account_rows(1) [OF ok, of a] assms(2) show ?thesis
      by (auto simp: add_pending_ram_usage_def ebind_Inl_iff split: if_splits)
  next
    case (SetAccountLimits a ram net cpu)
    with account_rows(2) [OF ok, of a] assms(2) show ?thesis
      by (auto simp: set_account_limits_def ebind_Inl_iff Let_def)
  next
    case ProcessAccountLimitUpdates
    with process_updates_no_lookup [OF ok] show ?thesis by simp
  next
    case (ProcessBlockUsage n)
    then show ?thesis by (simp add: process_block_usage_no_lookup)
  qed
  with ok show ?thesis ..
qed

theorem resource_rows_typed_witness:
  "\<exists>db. efold run_op example_ops initialize_database = Inr db \<and> op_accounts (AddPendingRamUsage 2 77) \<subseteq> accounts db
    \<and> rows_ok db \<and> run_op (AddPendingRamUsage 2 77) db \<noteq> Inl out_of_range"
proof -
  obtain db where db: "efold run_op example_ops initialize_database = Inr db" "map fst (rdb_limits db) = [1, 2]"
    by (rule exE [OF example_runs]) (elim conjE)
  have "set (map fst (rdb_limits db)) = {1, 2}" unfolding db(2) by simp
  then have "op_accounts (AddPendingRamUsage 2 77) \<subseteq> accounts db"
    by (simp add: accounts_def)
  with resource_rows_typed [OF db(1) this] db(1) show ?thesis by blast
qed

section \<open>The totals are the sums of the weights\<close>

definition pos_part :: "i64 \<Rightarrow> nat" where
  "pos_part x = (if sint x > 0 then unat x else 0)"

definition weight_sum :: "(resource_limits_object \<Rightarrow> i64) \<Rightarrow> (account_name \<times> resource_limits_object) list \<Rightarrow> nat" where
  "weight_sum f m = (\<Sum>(a, l)\<leftarrow>m. pos_part (f l))"

lemma update_state_and_value_Inr:
  assumes "update_state_and_value tot v p = Inr tot'"
  shows "unat tot' + pos_part v = unat tot + pos_part p"
proof -
  from assms obtain mid where mid: "(if sint v > 0
      then ebind (sys_assert (tot \<ge> v) rate_limiting_state_inconsistent) (\<lambda>_. Inr (tot - v)) else Inr tot) = Inr mid"
    and last: "(if sint p > 0
      then ebind (sys_assert (- 1 - mid \<ge> p) rate_limiting_state_inconsistent) (\<lambda>_. Inr (mid + p)) else Inr mid) = Inr tot'"
    unfolding update_state_and_value_def ebind_Inr_iff by blast
  have "unat mid + pos_part v = unat tot"
    using mid by (auto simp: pos_part_def unat_sub word_le_nat_alt split: if_split_asm)
  moreover have "unat tot' = unat mid + pos_part p"
    using last by (auto simp: pos_part_def room_nat unat_add_lem [THEN iffD1] split: if_split_asm)
  ultimately show ?thesis by linarith
qed

lemma weight_sum_assign:
  "fm_wf m \<Longrightarrow> weight_sum f (fm_assign a l m) + (case fm_find a m of None \<Rightarrow> 0 | Some l' \<Rightarrow> pos_part (f l'))
     = weight_sum f m + pos_part (f l)"
proof (induction m)
  case (Cons x m)
  obtain k v where x: "x = (k, v)" by fastforce
  show ?case
  proof (cases "a < k")
    case True
    then have "fm_find a (x # m) = None"
      using Cons.prems by (intro fm_find_below) (auto simp: x)
    with True show ?thesis by (simp add: x weight_sum_def)
  qed (use Cons in \<open>auto simp: x weight_sum_def\<close>)
qed (simp add: weight_sum_def)

definition totals_ok :: "resource_db \<Rightarrow> bool" where
  "totals_ok db \<longleftrightarrow> unat (rs_total_cpu_weight (rdb_state db)) = weight_sum rl_cpu_weight (rdb_limits db)
     \<and> unat (rs_total_net_weight (rdb_state db)) = weight_sum rl_net_weight (rdb_limits db)
     \<and> unat (rs_total_ram_bytes (rdb_state db)) = weight_sum rl_ram_bytes (rdb_limits db)"

lemma process_update_totals:
  assumes "rows_ok db" "totals_ok db" "process_account_limit_update owner p db = Inr db'"
  shows "totals_ok db'"
proof -
  from assms(3) obtain l ram cpu net where find: "fm_find owner (rdb_limits db) = Some l"
    and upd: "update_state_and_value (rs_total_ram_bytes (rdb_state db)) (rl_ram_bytes l) (rl_ram_bytes p) = Inr ram"
      "update_state_and_value (rs_total_cpu_weight (rdb_state db)) (rl_cpu_weight l) (rl_cpu_weight p) = Inr cpu"
      "update_state_and_value (rs_total_net_weight (rdb_state db)) (rl_net_weight l) (rl_net_weight p) = Inr net"
    and db': "db' = db\<lparr>rdb_limits := fm_assign owner p (rdb_limits db), rdb_pending := fm_erase owner (rdb_pending db),
       rdb_state := (rdb_state db)\<lparr>rs_total_ram_bytes := ram, rs_total_cpu_weight := cpu, rs_total_net_weight := net\<rparr>\<rparr>"
    by (auto simp: process_account_limit_update_def ebind_Inr_iff db_get_Inr_iff)
  have "weight_sum f (fm_assign owner p (rdb_limits db)) + pos_part (f l) = weight_sum f (rdb_limits db) + pos_part (f p)" for f
    using weight_sum_assign [of "rdb_limits db" f owner p] assms(1) find by (simp add: rows_ok_def)
  from this [of rl_ram_bytes] this [of rl_cpu_weight] this [of rl_net_weight] upd [THEN update_state_and_value_Inr] assms(2)
  show ?thesis
    unfolding totals_ok_def db' by simp
qed

lemma run_op_totals:
  assumes "rows_ok db" "totals_ok db" "run_op op db = Inr db'"
  shows "totals_ok db'"
proof (cases op)
  case (InitializeAccount a)
  with assms(3) obtain u where none: "fm_find a (rdb_limits db) = None"
    and db': "db' = db\<lparr>rdb_limits := fm_assign a unlimited (rdb_limits db), rdb_usage := u\<rparr>"
    by (auto simp: initialize_account_def ebind_Inr_iff db_create_def split: option.splits)
  have "weight_sum f (fm_assign a unlimited (rdb_limits db)) = weight_sum f (rdb_limits db) + pos_part (f unlimited)" for f
    using weight_sum_assign [of "rdb_limits db" f a unlimited] assms(1) none by (simp add: rows_ok_def)
  with assms(2) show ?thesis
    by (simp add: totals_ok_def db' unlimited_def pos_part_def)
next
  case (SetAccountLimits a ram net cpu)
  with assms(2,3) show ?thesis
    by (auto simp: set_account_limits_def ebind_Inr_iff Let_def totals_ok_def)
next
  case ProcessAccountLimitUpdates
  with assms(3) have "process_account_limit_updates db = Inr db'" by simp
  from process_updates_invariant [OF this, of "\<lambda>s. rows_ok s \<and> totals_ok s"] assms(1,2) show ?thesis
    using process_update_keeps(1) process_update_totals by blast
qed (use assms(2) usage_op_same [OF assms(3)] in \<open>auto simp: same_limits_def totals_ok_def\<close>)

lemma shares_within:
  "(\<Sum>(a, l)\<leftarrow>m. C * pos_part (f l) div weight_sum f m) \<le> C"
proof -
  have "(\<Sum>(a, l)\<leftarrow>m. C * pos_part (f l) div w) \<le> C * weight_sum f m div w" for w
  proof (induction m)
    case (Cons x m)
    obtain k v where x: "x = (k, v)" by fastforce
    have "C * pos_part (f v) div w + C * weight_sum f m div w \<le> (C * pos_part (f v) + C * weight_sum f m) div w"
      by (simp only: div_add1_eq [of "C * pos_part (f v)" "C * weight_sum f m"] le_add1)
    with Cons.IH show ?case
      by (simp add: x weight_sum_def distrib_left)
  qed (simp add: weight_sum_def)
  from this [of "weight_sum f m"] have "(\<Sum>(a, l)\<leftarrow>m. C * pos_part (f l) div weight_sum f m)
      \<le> C * weight_sum f m div weight_sum f m" .
  also have "\<dots> \<le> C"
    by (cases "weight_sum f m = 0") simp_all
  finally show ?thesis .
qed

lemma totals_ok_initial: "totals_ok initialize_database"
  by (simp add: totals_ok_def initialize_database_def weight_sum_def)

text \<open>C13. In every database that operations reach from the initial one, the totals of CPU, network and memory are exactly the
  sums of the positive limits of the accounts, whatever limits were set, replaced and collapsed, and the shares of any
  capacity that these limits give to all accounts together are at most that capacity.\<close>

theorem resource_totals_exact:
  assumes "efold run_op ops initialize_database = Inr db"
  shows "unat (get_total_cpu_weight db) = weight_sum rl_cpu_weight (rdb_limits db)
    \<and> unat (get_total_net_weight db) = weight_sum rl_net_weight (rdb_limits db)
    \<and> unat (rs_total_ram_bytes (rdb_state db)) = weight_sum rl_ram_bytes (rdb_limits db)
    \<and> (\<forall>C. (\<Sum>(a, l)\<leftarrow>rdb_limits db. C * pos_part (rl_cpu_weight l) div unat (get_total_cpu_weight db)) \<le> C)
    \<and> (\<forall>C. (\<Sum>(a, l)\<leftarrow>rdb_limits db. C * pos_part (rl_net_weight l) div unat (get_total_net_weight db)) \<le> C)"
proof -
  have "rows_ok db \<and> totals_ok db"
    using assms
  proof (rule efold_invariant)
    show "rows_ok initialize_database \<and> totals_ok initialize_database"
      by (intro conjI rows_ok_initial totals_ok_initial)
  qed (use run_op_refines run_op_totals in blast)
  then show ?thesis
    using shares_within [of _ rl_cpu_weight "rdb_limits db"] shares_within [of _ rl_net_weight "rdb_limits db"]
    by (simp add: totals_ok_def get_total_cpu_weight_def get_total_net_weight_def)
qed

theorem resource_totals_exact_witness:
  "\<exists>db. efold run_op example_ops initialize_database = Inr db
    \<and> unat (get_total_cpu_weight db) = weight_sum rl_cpu_weight (rdb_limits db)"
  using example_runs resource_totals_exact by blast

section \<open>Memory\<close>

lemma shift_mod:
  assumes "0 \<le> u" "u < (18446744073709551616 :: int)"
  shows "(u + 9223372036854775808) mod 18446744073709551616 - 9223372036854775808
    = (if u < 9223372036854775808 then u else u - 18446744073709551616)"
proof (cases "u < 9223372036854775808")
  case True
  with assms show ?thesis by (simp add: mod_pos_pos_trivial)
next
  case False
  have "(u - 9223372036854775808 + 18446744073709551616) mod 18446744073709551616
      = (u - 9223372036854775808) mod 18446744073709551616"
    by (rule mod_add_self2)
  also have "\<dots> = u - 9223372036854775808"
    using False assms by (intro mod_pos_pos_trivial) simp_all
  finally show ?thesis
    using False by (simp add: add.commute)
qed

lemma uint_u64_less: "uint (x :: u64) < 18446744073709551616"
  using unsigned_less [of x, where ?'a = int] by simp

lemma sint_i64: "sint (x :: i64) = (if uint x < 2 ^ 63 then uint x else uint x - 2 ^ 64)"
  using shift_mod [of "uint x"] uint_u64_less [of x]
  by (simp add: sint_uint signed_take_bit_eq_take_bit_shift take_bit_eq_mod)

lemma uint_pos: "x \<noteq> 0 \<Longrightarrow> 0 < uint (x :: u64)"
  by (simp add: less_le unsigned_eq_0_iff)

lemma uint_neg_i64: "x \<noteq> 0 \<Longrightarrow> uint (- x :: u64) = 2 ^ 64 - uint x"
  using uint_u64_less [of x] uint_pos [of x] by (simp add: uint_word_ariths zmod_zminus1_eq_if)

lemma room_uint: "- 1 - (x :: u64) \<ge> y \<longleftrightarrow> uint x + uint y < 2 ^ 64"
  unfolding room_nat nat_int_comparison(2) by simp

lemma ram_sum_exact:
  assumes "sint delta \<noteq> - (2 ^ 63)" "delta \<noteq> 0"
  shows "(sint delta \<le> 0 \<or> - 1 - r \<ge> delta) \<and> (sint delta \<ge> 0 \<or> r \<ge> - delta)
      \<longleftrightarrow> 0 \<le> uint (r :: u64) + sint delta \<and> uint r + sint delta < 2 ^ 64"
  unfolding room_uint unfolding word_le_def uint_neg_i64 [OF assms(2)] sint_i64
  using uint_pos [OF assms(2)] uint_u64_less [of delta] uint_u64_less [of r] by auto

text \<open>C24. Adding a positive or negative amount to the memory an account uses succeeds exactly when the sum, in unbounded arithmetic, is
  a 64-bit unsigned number, and then the row of the account holds that sum and no other row changes. For the least
  signed number, whose negation the code computes, nothing is claimed.\<close>

theorem ram_usage_exact:
  assumes "fm_find a (rdb_usage db) = Some u" "sint delta \<noteq> - (2 ^ 63)"
  shows "add_pending_ram_usage a delta db =
     (if 0 \<le> uint (ru_ram_usage u) + sint delta \<and> uint (ru_ram_usage u) + sint delta < 2 ^ 64
      then Inr (db\<lparr>rdb_usage := (if delta = 0 then rdb_usage db
             else fm_assign a (u\<lparr>ru_ram_usage := word_of_int (uint (ru_ram_usage u) + sint delta)\<rparr>) (rdb_usage db))\<rparr>)
      else Inl transaction_exception)"
proof (cases "delta = 0")
  case True
  then show ?thesis
    using uint_u64_less [of "ru_ram_usage u"] by (simp add: add_pending_ram_usage_def)
next
  case False
  let ?r = "ru_ram_usage u"
  have iff: "(sint delta \<le> 0 \<or> - 1 - ?r \<ge> delta) \<and> (sint delta \<ge> 0 \<or> ?r \<ge> - delta)
      \<longleftrightarrow> 0 \<le> uint ?r + sint delta \<and> uint ?r + sint delta < 2 ^ 64"
    by (rule ram_sum_exact [OF assms(2) False])
  have sum: "?r + delta = word_of_int (uint ?r + sint delta)"
    by simp
  show ?thesis
    using False assms unfolding iff [symmetric] sum [symmetric]
    by (auto simp: add_pending_ram_usage_def db_get_def ebind_sys_assert)
qed

theorem ram_usage_exact_witness:
  "add_pending_ram_usage 7 (- 4)
     (initialize_database\<lparr>rdb_usage := [(7, \<lparr>ru_net_usage = empty_accumulator, ru_cpu_usage = empty_accumulator, ru_ram_usage = 3\<rparr>)]\<rparr>)
   = Inl transaction_exception"
proof -
  let ?u = "\<lparr>ru_net_usage = empty_accumulator, ru_cpu_usage = empty_accumulator, ru_ram_usage = 3 :: u64\<rparr>"
  have "fm_find 7 (rdb_usage (initialize_database\<lparr>rdb_usage := [(7, ?u)]\<rparr>)) = Some ?u" by simp
  moreover have "sint (- 4 :: i64) \<noteq> - (2 ^ 63)" by simp
  ultimately show ?thesis
    using ram_usage_exact [of 7 "initialize_database\<lparr>rdb_usage := [(7, ?u)]\<rparr>" ?u "- 4"] by simp
qed

section \<open>A block can always be finished\<close>

fun block_nums :: "resource_op list \<Rightarrow> u32 list" where
  "block_nums [] = []"
| "block_nums (ProcessBlockUsage n # ops) = n # block_nums ops"
| "block_nums (_ # ops) = block_nums ops"

fun changes_parameters :: "resource_op \<Rightarrow> bool" where
  "changes_parameters (SetBlockParameters cpu net) = True"
| "changes_parameters _ = False"

definition block_state_ok :: "u32 \<Rightarrow> resource_db \<Rightarrow> bool" where
  "block_state_ok k db \<longleftrightarrow> rdb_config db = default_config \<and> block_limits_ok db
     \<and> last_ordinal (rs_average_block_cpu_usage (rdb_state db)) = k
     \<and> last_ordinal (rs_average_block_net_usage (rdb_state db)) = k"

lemma default_parameters_sound:
  "sound_parameters (rc_cpu_limit_parameters default_config)" "sound_parameters (rc_net_limit_parameters default_config)"
  by (simp_all add: sound_parameters_def ema_representable_def default_config_def default_limit_parameters_def
      block_usage_average_window_ms_def default_max_block_cpu_usage_def default_max_block_net_usage_def)

lemma block_state_ok_initial: "block_state_ok 0 initialize_database"
  by (simp add: block_state_ok_def block_limits_ok_def block_usage_ok_def ema_bounded_def in_elastic_range_def
      initialize_database_def empty_accumulator_def default_config_def default_limit_parameters_def)

text \<open>What the operations between two blocks leave alone.\<close>

definition same_block :: "resource_db \<Rightarrow> resource_db \<Rightarrow> bool" where
  "same_block db db' \<longleftrightarrow> rdb_config db' = rdb_config db
     \<and> rs_average_block_cpu_usage (rdb_state db') = rs_average_block_cpu_usage (rdb_state db)
     \<and> rs_average_block_net_usage (rdb_state db') = rs_average_block_net_usage (rdb_state db)
     \<and> rs_virtual_cpu_limit (rdb_state db') = rs_virtual_cpu_limit (rdb_state db)
     \<and> rs_virtual_net_limit (rdb_state db') = rs_virtual_net_limit (rdb_state db)"

definition same_block_pending :: "resource_db \<Rightarrow> resource_db \<Rightarrow> bool" where
  "same_block_pending db db' \<longleftrightarrow> same_block db db'
     \<and> rs_pending_cpu_usage (rdb_state db') = rs_pending_cpu_usage (rdb_state db)
     \<and> rs_pending_net_usage (rdb_state db') = rs_pending_net_usage (rdb_state db)"

lemmas same_block_defs = same_block_pending_def same_block_def

lemma same_block_pending_trans:
  "same_block_pending a b \<Longrightarrow> same_block_pending b c \<Longrightarrow> same_block_pending a c"
  by (simp add: same_block_defs)

lemma efold_same_block:
  assumes "efold f xs db = Inr db'" "\<And>x s s'. f x s = Inr s' \<Longrightarrow> same_block_pending s s'"
  shows "same_block_pending db db'"
  using assms(1)
proof (rule efold_invariant)
  show "same_block_pending db db" by (simp add: same_block_defs)
  show "same_block_pending db s'" if "same_block_pending db s" "f x s = Inr s'" for x s s'
    by (rule same_block_pending_trans [OF that(1) assms(2) [OF that(2)]])
qed

lemma add_transaction_usage_block:
  assumes "add_transaction_usage xs cpu net t db = Inr db'"
  shows "same_block db db'"
    and "rs_pending_cpu_usage (rdb_state db') \<le> elp_max (rc_cpu_limit_parameters (rdb_config db))"
    and "rs_pending_net_usage (rdb_state db') \<le> elp_max (rc_net_limit_parameters (rdb_config db))"
    and "rs_pending_cpu_usage (rdb_state db') = rs_pending_cpu_usage (rdb_state db) + cpu"
    and "rs_pending_net_usage (rdb_state db') = rs_pending_net_usage (rdb_state db) + net"
proof -
  from assms obtain mid where mid: "efold (add_account_usage cpu net t) xs db = Inr mid"
    and rest: "same_block mid db'"
      "rs_pending_cpu_usage (rdb_state db') = rs_pending_cpu_usage (rdb_state mid) + cpu"
      "rs_pending_net_usage (rdb_state db') = rs_pending_net_usage (rdb_state mid) + net"
      "rs_pending_cpu_usage (rdb_state db') \<le> elp_max (rc_cpu_limit_parameters (rdb_config mid))"
      "rs_pending_net_usage (rdb_state db') \<le> elp_max (rc_net_limit_parameters (rdb_config mid))"
    by (auto simp: add_transaction_usage_def ebind_Inr_iff Let_def same_block_def)
  have "same_block_pending db mid"
    by (rule efold_same_block [OF mid]) (auto simp: add_account_usage_def ebind_Inr_iff same_block_defs)
  with rest show "same_block db db'"
    "rs_pending_cpu_usage (rdb_state db') \<le> elp_max (rc_cpu_limit_parameters (rdb_config db))"
    "rs_pending_net_usage (rdb_state db') \<le> elp_max (rc_net_limit_parameters (rdb_config db))"
    "rs_pending_cpu_usage (rdb_state db') = rs_pending_cpu_usage (rdb_state db) + cpu"
    "rs_pending_net_usage (rdb_state db') = rs_pending_net_usage (rdb_state db) + net"
    by (simp_all add: same_block_defs)
qed

lemma other_op_block:
  assumes "run_op op db = Inr db'" "\<not> changes_parameters op"
    and "\<forall>xs cpu net t n. op \<noteq> AddTransactionUsage xs cpu net t \<and> op \<noteq> ProcessBlockUsage n"
  shows "same_block_pending db db'"
proof (cases op)
  case (UpdateAccountUsage xs t)
  with assms(1) have "update_account_usage xs t db = Inr db'" by simp
  then show ?thesis
    unfolding update_account_usage_def
    by (rule efold_same_block) (auto simp: ebind_Inr_iff same_block_defs)
next
  case ProcessAccountLimitUpdates
  with assms(1) have "process_account_limit_updates db = Inr db'" by simp
  then have "same_block_pending db db' \<and> rdb_pending db' = []"
    by (rule process_updates_invariant)
      (auto simp: same_block_defs process_account_limit_update_def ebind_Inr_iff)
  then show ?thesis ..
qed (use assms in \<open>auto simp: initialize_account_def add_pending_ram_usage_def set_account_limits_def
    ebind_Inr_iff same_block_defs Let_def split: if_split_asm\<close>)

lemma run_op_block:
  assumes "block_state_ok k db" "\<not> changes_parameters op" "run_op op db = Inr db'" "\<forall>n. op \<noteq> ProcessBlockUsage n"
  shows "block_state_ok k db'"
proof (cases "\<exists>xs cpu net t. op = AddTransactionUsage xs cpu net t")
  case True
  with assms(1,3) add_transaction_usage_block(1-3) show ?thesis
    by (fastforce simp: block_state_ok_def block_limits_ok_def same_block_def)
next
  case False
  with other_op_block [OF assms(3,2)] assms(4) have "same_block_pending db db'" by blast
  with assms(1) show ?thesis
    by (auto simp: block_state_ok_def block_limits_ok_def same_block_defs)
qed

lemma process_block_usage_next:
  assumes "block_state_ok k db" "k < n"
  shows "\<exists>db'. process_block_usage n db = Inr db' \<and> block_state_ok n db'"
  using process_block_usage_keeps [of db n] assms default_parameters_sound by (auto simp: block_state_ok_def)

lemma runs_block:
  assumes "block_state_ok k db" "\<forall>op \<in> set ops. \<not> changes_parameters op" "sorted_wrt (<) (k # block_nums ops @ ns)"
    and "efold run_op ops db = Inr db'"
  shows "\<exists>k'. block_state_ok k' db' \<and> sorted_wrt (<) (k' # ns)"
  using assms
proof (induction ops arbitrary: k db)
  case Nil
  then show ?case by auto
next
  case (Cons op ops)
  from Cons.prems(4) obtain mid where mid: "run_op op db = Inr mid" "efold run_op ops mid = Inr db'"
    by (auto simp: ebind_Inr_iff)
  show ?case
  proof (cases "\<exists>n. op = ProcessBlockUsage n")
    case True
    then obtain n where op: "op = ProcessBlockUsage n" ..
    have less: "k < n" using Cons.prems(3) by (simp add: op)
    have "block_state_ok n mid"
      using process_block_usage_next [OF Cons.prems(1) less] mid(1) by (auto simp: op)
    with Cons.IH [of n mid] mid(2) Cons.prems(2,3) show ?thesis by (simp add: op)
  next
    case False
    then have nums: "block_nums (op # ops) = block_nums ops" by (cases op) auto
    have "block_state_ok k mid"
      using run_op_block [OF Cons.prems(1) _ mid(1)] Cons.prems(2) False by auto
    with Cons.IH [of k mid] mid(2) Cons.prems(2,3) show ?thesis by (simp add: nums)
  qed
qed

text \<open>C14. While the parameters of a new database are in force and block numbers ascend, the end of a block never fails: after any
  operations that succeeded, accounting the usage of the next block succeeds, resets the pending usage, and leaves the
  virtual limits of CPU and network between the limit of a block and a thousand times that limit.\<close>

theorem blocks_can_finish:
  assumes "efold run_op ops initialize_database = Inr db" "\<forall>op \<in> set ops. \<not> changes_parameters op"
    and "sorted_wrt (<) (0 # block_nums ops @ [n])"
  shows "\<exists>db'. process_block_usage n db = Inr db'
    \<and> get_block_cpu_limit db' = default_max_block_cpu_usage \<and> get_block_net_limit db' = default_max_block_net_usage
    \<and> unat default_max_block_cpu_usage \<le> unat (get_virtual_block_cpu_limit db')
    \<and> unat (get_virtual_block_cpu_limit db') \<le> unat default_max_block_cpu_usage * 1000
    \<and> unat default_max_block_net_usage \<le> unat (get_virtual_block_net_limit db')
    \<and> unat (get_virtual_block_net_limit db') \<le> unat default_max_block_net_usage * 1000"
proof -
  from runs_block [OF block_state_ok_initial assms(2,3,1)] obtain k where k: "block_state_ok k db" "k < n"
    by auto
  from process_block_usage_next [OF this] obtain db' where db': "process_block_usage n db = Inr db'" "block_state_ok n db'"
    by blast
  then have "rs_pending_cpu_usage (rdb_state db') = 0" "rs_pending_net_usage (rdb_state db') = 0"
    by (auto simp: process_block_usage_def update_virtual_net_limit_def ebind_Inr_iff Let_def update_virtual_cpu_limit_def)
  with db' show ?thesis
    by (auto simp: block_state_ok_def block_limits_ok_def block_usage_ok_def in_elastic_range_def default_config_def
        default_limit_parameters_def get_block_cpu_limit_def get_block_net_limit_def get_virtual_block_cpu_limit_def
        get_virtual_block_net_limit_def)
qed

theorem blocks_can_finish_witness:
  "\<exists>db db'. efold run_op example_ops initialize_database = Inr db \<and> process_block_usage 4 db = Inr db'
    \<and> unat (get_virtual_block_cpu_limit db') \<le> unat default_max_block_cpu_usage * 1000"
proof -
  obtain db where db: "efold run_op example_ops initialize_database = Inr db"
    using example_runs by blast
  have "\<forall>op \<in> set example_ops. \<not> changes_parameters op" "sorted_wrt (<) (0 # block_nums example_ops @ [4])"
    by (simp_all add: example_ops_def)
  from blocks_can_finish [OF db this] db show ?thesis by blast
qed

section \<open>Billing a transaction\<close>

definition within_share :: "i64 \<Rightarrow> u64 \<Rightarrow> u32 \<Rightarrow> u64 \<Rightarrow> u64 \<Rightarrow> bool" where
  "within_share weight tot w vl v \<longleftrightarrow> (0 \<le> sint weight \<longrightarrow> 0 < tot
     \<longrightarrow> unat v * unat w div 1000000 \<le> unat vl * unat w * unat weight div unat tot)"

lemma check_share:
  assumes "check_account_usage weight tot w vl v e = Inr ()" "unat vl * unat w * unat weight < 2 ^ 128"
  shows "within_share weight tot w vl v"
  unfolding within_share_def
proof (intro impI)
  assume w: "0 \<le> sint weight" "0 < tot"
  have "unat ((ucast vl :: u128) * ucast w * ucast weight) = unat vl * unat w * unat weight"
    using assms(2) by (simp add: window_product_nat unat_mult_lem [THEN iffD1])
  then show "unat v * unat w div 1000000 \<le> unat vl * unat w * unat weight div unat tot"
    using assms(1) w by (simp add: check_account_usage_def Let_def word_le_nat_alt unat_div_distrib window_product_nat)
qed

definition billed :: "u64 \<Rightarrow> u64 \<Rightarrow> u32 \<Rightarrow> resource_db \<Rightarrow> resource_db \<Rightarrow> account_name \<Rightarrow> bool" where
  "billed cpu net t db db' a \<longleftrightarrow> (\<exists>u l u_net u_cpu. fm_find a (rdb_usage db) = Some u \<and> get_account_limits a db = Inr l
     \<and> add_usage net t (rc_account_net_usage_average_window (rdb_config db)) (ru_net_usage u) = Inr u_net
     \<and> add_usage cpu t (rc_account_cpu_usage_average_window (rdb_config db)) (ru_cpu_usage u) = Inr u_cpu
     \<and> check_account_usage (rl_cpu_weight l) (rs_total_cpu_weight (rdb_state db))
         (rc_account_cpu_usage_average_window (rdb_config db)) (rs_virtual_cpu_limit (rdb_state db)) (value_ex u_cpu) tx_cpu_usage_exceeded = Inr ()
     \<and> check_account_usage (rl_net_weight l) (rs_total_net_weight (rdb_state db))
         (rc_account_net_usage_average_window (rdb_config db)) (rs_virtual_net_limit (rdb_state db)) (value_ex u_net) tx_net_usage_exceeded = Inr ()
     \<and> fm_find a (rdb_usage db') = Some (u\<lparr>ru_net_usage := u_net, ru_cpu_usage := u_cpu\<rparr>))"

lemma add_account_usage_bills:
  assumes "add_account_usage cpu net t a db = Inr db'" "fm_wf (rdb_usage db)"
  shows "billed cpu net t db db' a" and "\<And>b. b \<noteq> a \<Longrightarrow> fm_find b (rdb_usage db') = fm_find b (rdb_usage db)"
    and "fm_wf (rdb_usage db')" and "db' = db\<lparr>rdb_usage := rdb_usage db'\<rparr>"
  using assms by (auto simp: add_account_usage_def ebind_Inr_iff db_get_Inr_iff billed_def fm_find_assign)

lemma billed_cong:
  assumes "fm_find a (rdb_usage s) = fm_find a (rdb_usage db)" "fm_find a (rdb_usage s'') = fm_find a (rdb_usage s')"
    and "s = db\<lparr>rdb_usage := rdb_usage s\<rparr>"
  shows "billed cpu net t s s' a \<longleftrightarrow> billed cpu net t db s'' a"
proof -
  have "rdb_config s = rdb_config db" "rdb_state s = rdb_state db" "get_account_limits a s = get_account_limits a db"
    by (subst assms(3), simp add: get_account_limits_def split: option.split)+
  then show ?thesis
    using assms(1,2) by (simp add: billed_def)
qed

lemma efold_bills:
  assumes "efold (add_account_usage cpu net t) xs db = Inr db'" "distinct xs" "fm_wf (rdb_usage db)"
  shows "(\<forall>a \<in> set xs. billed cpu net t db db' a) \<and> (\<forall>a. a \<notin> set xs \<longrightarrow> fm_find a (rdb_usage db') = fm_find a (rdb_usage db))"
  using assms
proof (induction xs arbitrary: db)
  case (Cons x xs)
  from Cons.prems(1) obtain mid where mid: "add_account_usage cpu net t x db = Inr mid"
    "efold (add_account_usage cpu net t) xs mid = Inr db'" by (auto simp: ebind_Inr_iff)
  note step = add_account_usage_bills [OF mid(1) Cons.prems(3)]
  have IH: "\<forall>a \<in> set xs. billed cpu net t mid db' a"
    "\<And>a. a \<notin> set xs \<Longrightarrow> fm_find a (rdb_usage db') = fm_find a (rdb_usage mid)"
    using Cons.IH [OF mid(2) _ step(3)] Cons.prems(2) by auto
  have "billed cpu net t db db' x"
    using step(1) IH(2) [of x] Cons.prems(2) by (simp add: billed_def)
  moreover have "billed cpu net t db db' a" if "a \<in> set xs" for a
  proof -
    have "a \<noteq> x" using that Cons.prems(2) by auto
    from billed_cong [OF step(2) [OF this] refl step(4)] IH(1) that show ?thesis by blast
  qed
  moreover have "fm_find a (rdb_usage db') = fm_find a (rdb_usage db)" if "a \<notin> set (x # xs)" for a
    using IH(2) [of a] step(2) [of a] that by simp
  ultimately show ?case by auto
qed simp

definition billed_within_share :: "u64 \<Rightarrow> u64 \<Rightarrow> u32 \<Rightarrow> resource_db \<Rightarrow> resource_db \<Rightarrow> account_name \<Rightarrow> bool" where
  "billed_within_share cpu net t db db' a \<longleftrightarrow> (\<exists>u u' l. fm_find a (rdb_usage db) = Some u \<and> fm_find a (rdb_usage db') = Some u'
     \<and> get_account_limits a db = Inr l
     \<and> unat (value_ex (ru_cpu_usage u')) = ema_step 172800 (unat t - unat (last_ordinal (ru_cpu_usage u))) (unat cpu) (unat (value_ex (ru_cpu_usage u)))
     \<and> unat (value_ex (ru_net_usage u')) = ema_step 172800 (unat t - unat (last_ordinal (ru_net_usage u))) (unat net) (unat (value_ex (ru_net_usage u)))
     \<and> within_share (rl_cpu_weight l) (get_total_cpu_weight db) 172800 (get_virtual_block_cpu_limit db) (value_ex (ru_cpu_usage u'))
     \<and> within_share (rl_net_weight l) (get_total_net_weight db) 172800 (get_virtual_block_net_limit db) (value_ex (ru_net_usage u')))"

lemma product_fits:
  assumes "unat vl \<le> 1048576000"
  shows "unat (vl :: u64) * unat (172800 :: u32) * unat (weight :: i64) < 2 ^ 128"
proof -
  have "unat vl * 172800 * unat weight \<le> 1048576000 * 172800 * 18446744073709551616"
    using assms unat_u64_less [of weight] by (intro mult_le_mono) simp_all
  then show ?thesis by simp
qed

lemma add_usage_units: "add_usage units t w a = Inr a' \<Longrightarrow> units \<le> max_raw_value"
  by (auto simp: add_usage_def ebind_sys_assert_Inr_iff)

lemma unat_add_usage:
  assumes "pending \<le> 1048576" and "units \<le> max_raw_value"
  shows "unat (pending + units) = unat pending + unat units"
proof -
  have "unat pending \<le> 1048576" "unat units \<le> 18446744073709"
    using assms by (simp_all add: word_le_nat_alt max_raw_value_def rate_limiting_precision_def unat_div)
  then show ?thesis by (simp add: unat_word_ariths)
qed

text \<open>C11. While the parameters of a new database are in force and block numbers ascend, a transaction that is accounted successfully
  leaves every account it bills within its share: the decayed usage in the window, with the transaction added, is at
  most the part of the virtual capacity that the weight of the account gives it, for CPU and for network, in
  unbounded arithmetic (no 128-bit product wraps around). The row of every other account is unchanged. The pending
  usage of the block grows by the usage of the transaction, without wrapping around when an account is billed, and
  stays within the limits of the block.\<close>

theorem transaction_within_limits:
  assumes "efold run_op ops initialize_database = Inr db" "\<forall>op \<in> set ops. \<not> changes_parameters op"
    and "sorted_wrt (<) (0 # block_nums ops)" "distinct xs" "add_transaction_usage xs cpu net t db = Inr db'"
  shows "(\<forall>a \<in> set xs. billed_within_share cpu net t db db' a)
    \<and> (\<forall>a. a \<notin> set xs \<longrightarrow> fm_find a (rdb_usage db') = fm_find a (rdb_usage db))
    \<and> rs_pending_cpu_usage (rdb_state db') = rs_pending_cpu_usage (rdb_state db) + cpu
    \<and> rs_pending_net_usage (rdb_state db') = rs_pending_net_usage (rdb_state db) + net
    \<and> (xs \<noteq> [] \<longrightarrow> unat (rs_pending_cpu_usage (rdb_state db')) = unat (rs_pending_cpu_usage (rdb_state db)) + unat cpu
        \<and> unat (rs_pending_net_usage (rdb_state db')) = unat (rs_pending_net_usage (rdb_state db)) + unat net)
    \<and> rs_pending_cpu_usage (rdb_state db') \<le> default_max_block_cpu_usage
    \<and> rs_pending_net_usage (rdb_state db') \<le> default_max_block_net_usage"
proof -
  from runs_block [OF block_state_ok_initial assms(2) _ assms(1), of "[]"] assms(3) obtain k where k: "block_state_ok k db"
    by auto
  have window: "rc_account_cpu_usage_average_window (rdb_config db) = 172800" "rc_account_net_usage_average_window (rdb_config db) = 172800"
    and pars: "elp_max (rc_cpu_limit_parameters (rdb_config db)) = default_max_block_cpu_usage"
      "elp_max (rc_net_limit_parameters (rdb_config db)) = default_max_block_net_usage"
    using k by (simp_all add: block_state_ok_def default_config_def account_usage_average_window_ms_def default_limit_parameters_def)
  have small: "unat (rs_virtual_cpu_limit (rdb_state db)) \<le> 1048576000" "unat (rs_virtual_net_limit (rdb_state db)) \<le> 1048576000"
    using k by (auto simp: block_state_ok_def block_limits_ok_def block_usage_ok_def in_elastic_range_def default_config_def
        default_limit_parameters_def default_max_block_cpu_usage_def default_max_block_net_usage_def)
  have "rs_pending_cpu_usage (rdb_state db) \<le> 200000" "rs_pending_net_usage (rdb_state db) \<le> 1048576"
    using k pars by (simp_all add: block_state_ok_def block_limits_ok_def block_usage_ok_def default_max_block_cpu_usage_def
        default_max_block_net_usage_def)
  then have pending: "rs_pending_cpu_usage (rdb_state db) \<le> 1048576" "rs_pending_net_usage (rdb_state db) \<le> 1048576"
    using order_trans [of "rs_pending_cpu_usage (rdb_state db)" 200000 1048576] by simp_all
  have "fm_wf (rdb_usage db)"
    using limits.runs_keep [OF rows_ok_initial assms(1)] by (simp add: rows_ok_def)
  moreover from assms(5) obtain mid where mid: "efold (add_account_usage cpu net t) xs db = Inr mid" "rdb_usage db' = rdb_usage mid"
    by (auto simp: add_transaction_usage_def ebind_Inr_iff Let_def)
  ultimately have bills: "\<forall>a \<in> set xs. billed cpu net t db mid a"
    "\<forall>a. a \<notin> set xs \<longrightarrow> fm_find a (rdb_usage mid) = fm_find a (rdb_usage db)"
    using efold_bills [OF mid(1) assms(4)] by blast+
  have "billed_within_share cpu net t db db' a"
    if "a \<in> set xs" for a
    using bspec [OF bills(1) that] unfolding billed_def billed_within_share_def window mid(2) get_total_cpu_weight_def get_total_net_weight_def
      get_virtual_block_cpu_limit_def get_virtual_block_net_limit_def
    by (force simp: add_usage_Inr(4) intro!: check_share product_fits small)
  moreover have "cpu \<le> max_raw_value \<and> net \<le> max_raw_value" if "xs \<noteq> []"
    using bspec [OF bills(1) hd_in_set [OF that]] by (auto simp: billed_def dest: add_usage_units)
  then have "xs \<noteq> [] \<longrightarrow> unat (rs_pending_cpu_usage (rdb_state db) + cpu) = unat (rs_pending_cpu_usage (rdb_state db)) + unat cpu
      \<and> unat (rs_pending_net_usage (rdb_state db) + net) = unat (rs_pending_net_usage (rdb_state db)) + unat net"
    using unat_add_usage pending by blast
  ultimately show ?thesis using bills(2) add_transaction_usage_block [OF assms(5)]
    by (simp add: mid(2) pars)
qed

theorem transaction_within_limits_witness:
  "\<exists>db db'. efold run_op example_ops initialize_database = Inr db \<and> add_transaction_usage [1, 2] 100 200 9 db = Inr db'
    \<and> (\<forall>a \<in> set [1, 2]. billed_within_share 100 200 9 db db' a)"
proof -
  have "(case efold run_op example_ops initialize_database of
      Inr db \<Rightarrow> (case add_transaction_usage [1, 2] 100 200 9 db of Inr _ \<Rightarrow> True | Inl _ \<Rightarrow> False) | Inl _ \<Rightarrow> False)"
    by code_simp
  then obtain db db' where db: "efold run_op example_ops initialize_database = Inr db"
    "add_transaction_usage [1, 2] 100 200 9 db = Inr db'"
    by (auto split: sum.splits)
  have "\<forall>op \<in> set example_ops. \<not> changes_parameters op" "sorted_wrt (<) (0 # block_nums example_ops)" "distinct [1, 2 :: u64]"
    by (simp_all add: example_ops_def)
  from transaction_within_limits [OF db(1) this db(2)] db show ?thesis by blast
qed

end
