(* ===== verification/Authority_Checker.thy ===== *)
theory Authority_Checker
  imports Authority
begin

text \<open>
  Whether keys, permissions and a delay satisfy an authority (src/libraries/chain/include/sysio/chain/authority_checker.hpp),
  and the checks of the authorization manager that use it on one permission (src/libraries/chain/authorization_manager.cpp).

  The function \<^verbatim>\<open>permission_to_authority\<close> that the checker is given is a field of the checker. The members that change
  during a check, the used keys and the cache of permissions, are the state that the functions pass on. After an
  exception nothing of the state is read, so it is not returned. The template is modelled for \<^verbatim>\<open>authority\<close>.
\<close>

section \<open>The checker\<close>

type_synonym microseconds = "64 word"

record authority_checker =
  permission_to_authority :: "permission_level \<Rightarrow> authority result"
  provided_keys :: "public_key_type list"
  provided_permissions :: "permission_level list"
  provided_delay :: microseconds
  recursion_depth_limit :: u16

datatype permission_cache_status = being_evaluated | permission_unsatisfied | permission_satisfied

type_synonym permission_cache_type = "(permission_level \<times> permission_cache_status) list"

record checker_state =
  cs_used_keys :: "bool list"
  cs_cache :: permission_cache_type

definition permission_status_in_cache :: "permission_cache_type \<Rightarrow> permission_level \<Rightarrow> permission_cache_status option" where
  "permission_status_in_cache permissions level =
     (case fm_find level permissions of
        Some s \<Rightarrow> Some s
      | None \<Rightarrow> fm_find (permission_level (actor level) 0) permissions)"

definition initialize_permission_cache :: "authority_checker \<Rightarrow> permission_cache_type" where
  "initialize_permission_cache c = map (\<lambda>p. (p, permission_satisfied)) (provided_permissions c)"

text \<open>
  The factors of an authority, and the order in which they are evaluated: a multimap with descending keys, in which
  entries with equal keys stay in the order of insertion.
\<close>

datatype meta_permission =
    Meta_account permission_level_weight
  | Meta_key key_weight
  | Meta_wait wait_weight

fun meta_weight :: "meta_permission \<Rightarrow> weight_type" where
  "meta_weight (Meta_account p) = plw_weight p"
| "meta_weight (Meta_key k) = kw_weight k"
| "meta_weight (Meta_wait w) = ww_weight w"

fun meta_priority :: "meta_permission \<Rightarrow> int" where
  "meta_priority (Meta_account p) = 1"
| "meta_priority (Meta_key k) = 2"
| "meta_priority (Meta_wait w) = 3"

definition factors :: "authority \<Rightarrow> meta_permission list" where
  "factors auth = map Meta_account (auth_accounts auth) @ map Meta_key (auth_keys auth) @ map Meta_wait (auth_waits auth)"

definition meta_permissions :: "authority \<Rightarrow> meta_permission list" where
  "meta_permissions auth = sort_key (\<lambda>m. (- int (unat (meta_weight m)), - meta_priority m)) (factors auth)"

section \<open>The visitor\<close>

text \<open>
  A visitor holds the total weight and passes on the state. The argument \<open>sat\<close> is the check of an authority one level
  deeper, or \<open>None\<close> when the limit of the depth is reached.
\<close>

definition visit_wait :: "authority_checker \<Rightarrow> wait_weight \<Rightarrow> u32 \<Rightarrow> u32" where
  "visit_wait c w total_weight =
     (if sint (provided_delay c) \<ge> int (unat (wait_sec w)) * 1000000 then total_weight + ucast (ww_weight w) else total_weight)"

fun find_key :: "public_key_type \<Rightarrow> public_key_type list \<Rightarrow> nat option" where
  "find_key k [] = None"
| "find_key k (k' # ks) = (if k' = k then Some 0 else map_option Suc (find_key k ks))"

definition visit_key :: "authority_checker \<Rightarrow> key_weight \<Rightarrow> u32 \<times> checker_state \<Rightarrow> u32 \<times> checker_state" where
  "visit_key c k = (\<lambda>(total_weight, st).
     (case find_key (kw_key k) (provided_keys c) of
        Some i \<Rightarrow> (total_weight + ucast (kw_weight k), st\<lparr>cs_used_keys := (cs_used_keys st)[i := True]\<rparr>)
      | None \<Rightarrow> (total_weight, st)))"

type_synonym authority_check = "authority \<Rightarrow> checker_state \<Rightarrow> (bool \<times> checker_state) result"

definition visit_permission ::
  "authority_checker \<Rightarrow> authority_check option \<Rightarrow> permission_level_weight \<Rightarrow> u32 \<times> checker_state \<Rightarrow> (u32 \<times> checker_state) result" where
  "visit_permission c sat p = (\<lambda>(total_weight, st).
     (case permission_status_in_cache (cs_cache st) (plw_permission p) of
        None \<Rightarrow>
          (case sat of
             None \<Rightarrow> Inr (total_weight, st)
           | Some check \<Rightarrow>
               (case permission_to_authority c (plw_permission p) of
                  Inl e \<Rightarrow> if e = permission_query_exception then Inr (total_weight, st) else Inl e
                | Inr auth \<Rightarrow>
                    let cache = snd (fm_emplace (plw_permission p) being_evaluated (cs_cache st)) in
                    ebind (check auth (st\<lparr>cs_cache := cache\<rparr>)) (\<lambda>(r, st).
                      if r then Inr (total_weight + ucast (plw_weight p),
                             st\<lparr>cs_cache := fm_assign (plw_permission p) permission_satisfied (cs_cache st)\<rparr>)
                      else Inr (total_weight,
                             st\<lparr>cs_cache := fm_assign (plw_permission p) permission_unsatisfied (cs_cache st)\<rparr>))))
      | Some status \<Rightarrow>
          if status = permission_satisfied then Inr (total_weight + ucast (plw_weight p), st) else Inr (total_weight, st)))"

fun visit :: "authority_checker \<Rightarrow> authority_check option \<Rightarrow> meta_permission \<Rightarrow> u32 \<times> checker_state \<Rightarrow> (u32 \<times> checker_state) result" where
  "visit c sat (Meta_account p) ts = visit_permission c sat p ts"
| "visit c sat (Meta_key k) ts = Inr (visit_key c k ts)"
| "visit c sat (Meta_wait w) ts = Inr (visit_wait c w (fst ts), snd ts)"

fun tally ::
  "(meta_permission \<Rightarrow> u32 \<times> checker_state \<Rightarrow> (u32 \<times> checker_state) result) \<Rightarrow> u32 \<Rightarrow> meta_permission list
     \<Rightarrow> u32 \<times> checker_state \<Rightarrow> (bool \<times> checker_state) result" where
  "tally visitor threshold [] ts = Inr (False, snd ts)"
| "tally visitor threshold (m # ms) ts =
     ebind (visitor m ts) (\<lambda>ts. if fst ts \<ge> threshold then Inr (True, snd ts) else tally visitor threshold ms ts)"

text \<open>The keys used so far are restored when the authority is not satisfied; the cache is not.\<close>

definition satisfied_body :: "authority_checker \<Rightarrow> authority_check option \<Rightarrow> authority_check" where
  "satisfied_body c sat auth st =
     ebind (tally (visit c sat) (auth_threshold auth) (meta_permissions auth) (0, st)) (\<lambda>(r, st').
       if r then Inr (True, st') else Inr (False, st'\<lparr>cs_used_keys := cs_used_keys st\<rparr>))"

lemma unat_next_depth: "(depth :: u16) < limit \<Longrightarrow> unat (depth + 1) = unat depth + 1"
  using unat_u16_less [of limit] unat_add_lem [of depth 1] by (simp add: word_less_nat_alt)

function satisfied_at :: "authority_checker \<Rightarrow> u16 \<Rightarrow> authority_check" where
  "satisfied_at c depth =
     satisfied_body c (if depth < recursion_depth_limit c then Some (satisfied_at c (depth + 1)) else None)"
  by pat_completeness auto
termination
  by (relation "measure (\<lambda>(c, depth). unat (recursion_depth_limit c) - unat depth)")
     (auto simp: unat_next_depth word_less_nat_alt)

declare satisfied_at.simps [simp del]

section \<open>The interface\<close>

definition cache_or_initial :: "authority_checker \<Rightarrow> permission_cache_type option \<Rightarrow> permission_cache_type" where
  "cache_or_initial c cached_perms = (case cached_perms of None \<Rightarrow> initialize_permission_cache c | Some m \<Rightarrow> m)"

definition satisfied_permission ::
  "authority_checker \<Rightarrow> permission_level \<Rightarrow> permission_cache_type option \<Rightarrow> bool list \<Rightarrow> (bool \<times> checker_state) result" where
  "satisfied_permission c p cached_perms used =
     ebind (visit_permission c (if 0 < recursion_depth_limit c then Some (satisfied_at c 1) else None)
              \<lparr>plw_permission = p, plw_weight = 1\<rparr> (0, \<lparr>cs_used_keys = used, cs_cache = cache_or_initial c cached_perms\<rparr>))
       (\<lambda>(total_weight, st). Inr (total_weight > 0, st))"

definition satisfied_permission_delay ::
  "authority_checker \<Rightarrow> permission_level \<Rightarrow> microseconds \<Rightarrow> permission_cache_type option \<Rightarrow> bool list \<Rightarrow> (bool \<times> checker_state) result" where
  "satisfied_permission_delay c p override_provided_delay cached_perms used =
     satisfied_permission (c\<lparr>provided_delay := override_provided_delay\<rparr>) p cached_perms used"

definition satisfied_authority ::
  "authority_checker \<Rightarrow> authority \<Rightarrow> permission_cache_type option \<Rightarrow> bool list \<Rightarrow> (bool \<times> checker_state) result" where
  "satisfied_authority c auth cached_perms used =
     satisfied_at c 0 auth \<lparr>cs_used_keys = used, cs_cache = cache_or_initial c cached_perms\<rparr>"

definition satisfied_authority_delay ::
  "authority_checker \<Rightarrow> authority \<Rightarrow> microseconds \<Rightarrow> permission_cache_type option \<Rightarrow> bool list \<Rightarrow> (bool \<times> checker_state) result" where
  "satisfied_authority_delay c auth override_provided_delay cached_perms used =
     satisfied_authority (c\<lparr>provided_delay := override_provided_delay\<rparr>) auth cached_perms used"

definition filter_data_by_marker :: "'a list \<Rightarrow> bool list \<Rightarrow> bool \<Rightarrow> 'a list" where
  "filter_data_by_marker data markers marker_value = map snd (filter (\<lambda>(m, x). m = marker_value) (zip markers data))"

definition all_keys_used :: "bool list \<Rightarrow> bool" where
  "all_keys_used used = list_all (\<lambda>b. b = True) used"

definition used_keys :: "authority_checker \<Rightarrow> bool list \<Rightarrow> public_key_type list" where
  "used_keys c used = fold fs_insert (filter_data_by_marker (provided_keys c) used True) []"

definition unused_keys :: "authority_checker \<Rightarrow> bool list \<Rightarrow> public_key_type list" where
  "unused_keys c used = fold fs_insert (filter_data_by_marker (provided_keys c) used False) []"

text \<open>A new checker and its initial used keys.\<close>

definition make_auth_checker ::
  "(permission_level \<Rightarrow> authority result) \<Rightarrow> u16 \<Rightarrow> public_key_type list \<Rightarrow> permission_level list \<Rightarrow> microseconds
     \<Rightarrow> authority_checker \<times> bool list" where
  "make_auth_checker pta depth_limit keys permissions delay =
     (\<lparr>permission_to_authority = pta, provided_keys = keys, provided_permissions = permissions,
       provided_delay = delay, recursion_depth_limit = depth_limit\<rparr>, replicate (length keys) False)"

section \<open>The authorization manager\<close>

text \<open>The rows of \<^verbatim>\<open>permission_index\<close> by owner and name, of which only the authority is read.\<close>

type_synonym permission_rows = "(permission_level \<times> authority) list"

definition get_permission :: "permission_rows \<Rightarrow> permission_level \<Rightarrow> authority result" where
  "get_permission db level =
     ebind (sys_assert (actor level \<noteq> 0 \<and> permission level \<noteq> 0) invalid_permission) (\<lambda>_.
     case fm_find level db of None \<Rightarrow> Inl permission_query_exception | Some auth \<Rightarrow> Inr auth)"

definition effective_delay :: "u32 \<Rightarrow> microseconds \<Rightarrow> microseconds" where
  "effective_delay max_transaction_delay delay =
     (if sint delay \<ge> int (unat max_transaction_delay) * 1000000 then 0x7FFFFFFFFFFFFFFF else delay)"

definition check_authorization ::
  "permission_rows \<Rightarrow> u16 \<Rightarrow> u32 \<Rightarrow> permission_level \<Rightarrow> public_key_type list \<Rightarrow> permission_level list \<Rightarrow> microseconds \<Rightarrow> bool
     \<Rightarrow> unit result" where
  "check_authorization db max_authority_depth max_transaction_delay level keys permissions delay allow_unused_keys =
     (let (checker, used) = make_auth_checker (get_permission db) max_authority_depth keys permissions
                              (effective_delay max_transaction_delay delay)
      in ebind (satisfied_permission checker level None used) (\<lambda>(r, st).
         ebind (sys_assert r unsatisfied_authorization) (\<lambda>_.
           if allow_unused_keys then Inr () else sys_assert (all_keys_used (cs_used_keys st)) tx_irrelevant_sig)))"

text \<open>The declared authorizations of the actions of a transaction, in order.\<close>

definition get_required_keys ::
  "permission_rows \<Rightarrow> u16 \<Rightarrow> permission_level list list \<Rightarrow> public_key_type list \<Rightarrow> microseconds \<Rightarrow> public_key_type list result" where
  "get_required_keys db max_authority_depth actions candidate_keys delay =
     (let (checker, used) = make_auth_checker (get_permission db) max_authority_depth candidate_keys [] delay
      in ebind (efold (\<lambda>declared_auth used.
             ebind (satisfied_permission checker declared_auth None used) (\<lambda>(r, st).
             ebind (sys_assert r unsatisfied_authorization) (\<lambda>_. Inr (cs_used_keys st)))) (concat actions) used) (\<lambda>used.
           Inr (used_keys checker used)))"

end
