(* ===== verification/Authority_Grants.thy ===== *)
theory Authority_Grants
  imports Authority_Checker
begin

text \<open>
  What the authority checker decides. The specification is the relation \<open>grants\<close>, which knows nothing of the cache, the
  order of evaluation or the limit of the depth. Whatever the checker accepts is granted; where permissions do not
  delegate in a circle and the limit is large enough, it accepts exactly what is granted.
\<close>

section \<open>The specification\<close>

definition factor_weight :: "meta_permission \<Rightarrow> nat" where
  "factor_weight m = unat (meta_weight m)"

definition key_provided :: "authority_checker \<Rightarrow> key_weight \<Rightarrow> bool" where
  "key_provided c k \<longleftrightarrow> kw_key k \<in> set (provided_keys c)"

definition wait_over :: "authority_checker \<Rightarrow> wait_weight \<Rightarrow> bool" where
  "wait_over c w \<longleftrightarrow> int (unat (wait_sec w)) * 1000000 \<le> sint (provided_delay c)"

definition permission_provided :: "authority_checker \<Rightarrow> permission_level \<Rightarrow> bool" where
  "permission_provided c p \<longleftrightarrow> p \<in> set (provided_permissions c) \<or> permission_level (actor p) 0 \<in> set (provided_permissions c)"

text \<open>
  A permission is granted when it is provided, itself or for all permissions of its account, or when some of the factors of its
  authority, each of them fulfilled, reach the threshold.
\<close>

inductive grants :: "authority_checker \<Rightarrow> permission_level \<Rightarrow> bool" for c where
  provided: "permission_provided c p \<Longrightarrow> grants c p"
| delegated: "permission_to_authority c p = Inr a \<Longrightarrow> mset fs \<subseteq># mset (factors a)
    \<Longrightarrow> \<forall>x. Meta_account x \<in> set fs \<longrightarrow> grants c (plw_permission x)
    \<Longrightarrow> \<forall>k. Meta_key k \<in> set fs \<longrightarrow> key_provided c k
    \<Longrightarrow> \<forall>w. Meta_wait w \<in> set fs \<longrightarrow> wait_over c w
    \<Longrightarrow> unat (auth_threshold a) \<le> sum_list (map factor_weight fs) \<Longrightarrow> grants c p"

fun fulfilled :: "authority_checker \<Rightarrow> meta_permission \<Rightarrow> bool" where
  "fulfilled c (Meta_account x) = grants c (plw_permission x)"
| "fulfilled c (Meta_key k) = key_provided c k"
| "fulfilled c (Meta_wait w) = wait_over c w"

definition authority_granted :: "authority_checker \<Rightarrow> authority \<Rightarrow> bool" where
  "authority_granted c a \<longleftrightarrow> unat (auth_threshold a) \<le> sum_list (map factor_weight (filter (fulfilled c) (factors a)))"

lemma fulfilled_all:
  "(\<forall>m \<in> set fs. fulfilled c m) \<longleftrightarrow> (\<forall>x. Meta_account x \<in> set fs \<longrightarrow> grants c (plw_permission x))
     \<and> (\<forall>k. Meta_key k \<in> set fs \<longrightarrow> key_provided c k) \<and> (\<forall>w. Meta_wait w \<in> set fs \<longrightarrow> wait_over c w)"
proof
  assume all: "(\<forall>x. Meta_account x \<in> set fs \<longrightarrow> grants c (plw_permission x))
     \<and> (\<forall>k. Meta_key k \<in> set fs \<longrightarrow> key_provided c k) \<and> (\<forall>w. Meta_wait w \<in> set fs \<longrightarrow> wait_over c w)"
  show "\<forall>m \<in> set fs. fulfilled c m"
  proof
    fix m assume "m \<in> set fs"
    with all show "fulfilled c m" by (cases m) auto
  qed
qed force

lemma sum_factors_mset: "sum_list (map factor_weight fs) = sum_mset (image_mset factor_weight (mset fs))"
  by (simp add: sum_mset_sum_list [symmetric])

lemma authority_granted_iff:
  "authority_granted c a \<longleftrightarrow> (\<exists>fs. mset fs \<subseteq># mset (factors a) \<and> (\<forall>m \<in> set fs. fulfilled c m)
     \<and> unat (auth_threshold a) \<le> sum_list (map factor_weight fs))"
proof
  assume "authority_granted c a"
  then show "\<exists>fs. mset fs \<subseteq># mset (factors a) \<and> (\<forall>m \<in> set fs. fulfilled c m)
     \<and> unat (auth_threshold a) \<le> sum_list (map factor_weight fs)"
    by (intro exI [of _ "filter (fulfilled c) (factors a)"]) (simp add: authority_granted_def)
next
  assume "\<exists>fs. mset fs \<subseteq># mset (factors a) \<and> (\<forall>m \<in> set fs. fulfilled c m)
     \<and> unat (auth_threshold a) \<le> sum_list (map factor_weight fs)"
  then obtain fs where fs: "mset fs \<subseteq># mset (factors a)" "\<forall>m \<in> set fs. fulfilled c m"
    "unat (auth_threshold a) \<le> sum_list (map factor_weight fs)" by blast
  have "filter_mset (fulfilled c) (mset fs) \<subseteq># filter_mset (fulfilled c) (mset (factors a))"
    by (rule multiset_filter_mono [OF fs(1)])
  moreover have "filter_mset (fulfilled c) (mset fs) = mset fs"
    using fs(2) by (simp add: filter_mset_eq_conv)
  ultimately have "mset fs \<subseteq># mset (filter (fulfilled c) (factors a))"
    by simp
  then obtain rest where "mset (filter (fulfilled c) (factors a)) = mset fs + rest"
    by (auto simp: mset_subset_eq_exists_conv)
  with fs(3) show "authority_granted c a"
    unfolding authority_granted_def sum_factors_mset by simp
qed

lemma grants_iff:
  "grants c p \<longleftrightarrow> permission_provided c p \<or> (\<exists>a. permission_to_authority c p = Inr a \<and> authority_granted c a)"
  unfolding authority_granted_iff fulfilled_all by (subst grants.simps) blast

section \<open>What is accepted is granted\<close>

text \<open>No authority is stored under an empty permission name, which the cache uses for all permissions of an account.\<close>

definition empty_name_unknown :: "authority_checker \<Rightarrow> bool" where
  "empty_name_unknown c \<longleftrightarrow> (\<forall>a x. permission_to_authority c (permission_level a 0) \<noteq> Inr x)"

definition cache_sound :: "authority_checker \<Rightarrow> permission_cache_type \<Rightarrow> bool" where
  "cache_sound c m \<longleftrightarrow> fm_wf m \<and> (\<forall>p. fm_find p m = Some permission_satisfied \<longrightarrow> grants c p)
     \<and> (\<forall>a s. fm_find (permission_level a 0) m = Some s \<longrightarrow> permission_level a 0 \<in> set (provided_permissions c))"

lemma status_sound:
  assumes "cache_sound c m" "permission_status_in_cache m p = Some permission_satisfied"
  shows "grants c p"
proof (cases "fm_find p m")
  case None
  with assms have "permission_level (actor p) 0 \<in> set (provided_permissions c)"
    by (auto simp: permission_status_in_cache_def cache_sound_def)
  then show ?thesis by (intro grants.provided) (simp add: permission_provided_def)
next
  case (Some s)
  with assms show ?thesis by (auto simp: permission_status_in_cache_def cache_sound_def)
qed

lemma known_not_empty:
  "empty_name_unknown c \<Longrightarrow> permission_to_authority c p = Inr a \<Longrightarrow> p \<noteq> permission_level b 0"
  by (auto simp: empty_name_unknown_def)

lemma cache_sound_assign:
  assumes "cache_sound c m" "empty_name_unknown c" "permission_to_authority c p = Inr a"
    and "s = permission_satisfied \<Longrightarrow> grants c p"
  shows "cache_sound c (fm_assign p s m)"
  using assms known_not_empty [OF assms(2,3)] by (auto simp: cache_sound_def fm_find_assign)

lemma emplace_eq_assign: "fm_find k m = None \<Longrightarrow> snd (fm_emplace k v m) = fm_assign k v m"
  by (simp add: fm_emplace_def)

lemma status_None: "permission_status_in_cache m p = None \<Longrightarrow> fm_find p m = None"
  by (auto simp: permission_status_in_cache_def split: option.splits)

definition check_sound :: "authority_checker \<Rightarrow> authority_check \<Rightarrow> bool" where
  "check_sound c f \<longleftrightarrow> (\<forall>a st r st'. cache_sound c (cs_cache st) \<longrightarrow> f a st = Inr (r, st')
     \<longrightarrow> cache_sound c (cs_cache st') \<and> (r \<longrightarrow> authority_granted c a))"

lemma unat_add_weight: "unat ((t :: u32) + ucast (w :: u16)) \<le> unat t + unat w"
proof -
  have "unat (ucast w :: u32) = unat w"
    by (simp add: unsigned_ucast_eq take_bit_nat_eq_self_iff less_le_trans [OF unat_u16_less])
  then show ?thesis
    by (simp add: unat_word_ariths)
qed

lemma find_key_Some: "find_key k ks = Some i \<Longrightarrow> k \<in> set ks"
  by (induction k ks arbitrary: i rule: find_key.induct) (auto split: if_splits)

lemma find_key_None: "find_key k ks = None \<longleftrightarrow> k \<notin> set ks"
  by (induction k ks rule: find_key.induct) auto

lemma visit_permission_sound:
  assumes "empty_name_unknown c" "\<And>f. sat = Some f \<Longrightarrow> check_sound c f"
    and "cache_sound c (cs_cache st)" "visit_permission c sat p (t, st) = Inr (t', st')"
  shows "cache_sound c (cs_cache st') \<and> (t' = t \<or> grants c (plw_permission p) \<and> t' = t + ucast (plw_weight p))"
proof (cases "permission_status_in_cache (cs_cache st) (plw_permission p)")
  case (Some s)
  with assms(3,4) status_sound [OF assms(3)] show ?thesis
    by (auto simp: visit_permission_def split: if_splits)
next
  case None
  note fresh = emplace_eq_assign [OF status_None [OF None], of being_evaluated]
  show ?thesis
  proof (cases "\<exists>f a. sat = Some f \<and> permission_to_authority c (plw_permission p) = Inr a")
    case False
    with None assms(3,4) show ?thesis
      by (auto simp: visit_permission_def split: option.splits sum.splits if_splits)
  next
    case True
    then obtain f a where f: "sat = Some f" and a: "permission_to_authority c (plw_permission p) = Inr a" by blast
    from assms(4) None obtain r mid where
          mid: "f a (st\<lparr>cs_cache := fm_assign (plw_permission p) being_evaluated (cs_cache st)\<rparr>) = Inr (r, mid)"
      and res: "(if r then Inr (t + ucast (plw_weight p), mid\<lparr>cs_cache := fm_assign (plw_permission p) permission_satisfied (cs_cache mid)\<rparr>)
         else Inr (t, mid\<lparr>cs_cache := fm_assign (plw_permission p) permission_unsatisfied (cs_cache mid)\<rparr>)) = (Inr (t', st') :: _ result)"
      by (auto simp: visit_permission_def f a fresh ebind_Inr_iff simp del: if_split)
    have t': "t' = (if r then t + ucast (plw_weight p) else t)"
      and st': "cs_cache st' = fm_assign (plw_permission p) (if r then permission_satisfied else permission_unsatisfied) (cs_cache mid)"
      using res by (cases r; auto)+
    have "cache_sound c (fm_assign (plw_permission p) being_evaluated (cs_cache st))"
      by (rule cache_sound_assign [OF assms(3,1) a]) simp
    with assms(2) [OF f] mid have mid_ok: "cache_sound c (cs_cache mid)" and granted: "r \<Longrightarrow> authority_granted c a"
      unfolding check_sound_def by force+
    from granted have "r \<Longrightarrow> grants c (plw_permission p)"
      using a by (auto simp: grants_iff [of c "plw_permission p"])
    moreover from this have "cache_sound c (cs_cache st')"
      unfolding st' by (intro cache_sound_assign [OF mid_ok assms(1) a]) (simp split: if_splits)
    ultimately show ?thesis
      by (simp add: t')
  qed
qed

lemma visit_sound:
  assumes "empty_name_unknown c" "\<And>f. sat = Some f \<Longrightarrow> check_sound c f"
    and "cache_sound c (cs_cache (snd ts))" "visit c sat m ts = Inr ts'"
  shows "cache_sound c (cs_cache (snd ts'))"
    and "fst ts' = fst ts \<or> fulfilled c m \<and> fst ts' = fst ts + ucast (meta_weight m)"
proof -
  have "cache_sound c (cs_cache (snd ts')) \<and> (fst ts' = fst ts \<or> fulfilled c m \<and> fst ts' = fst ts + ucast (meta_weight m))"
  proof (cases m)
    case (Meta_account p)
    with assms(4) visit_permission_sound [OF assms(1) assms(2) assms(3), of sat p "fst ts" "fst ts'" "snd ts'"] show ?thesis
      by simp
  next
    case (Meta_key k)
    with assms(3,4) show ?thesis
      by (auto simp: visit_key_def key_provided_def case_prod_unfold dest: find_key_Some split: option.splits)
  next
    case (Meta_wait w)
    with assms(3,4) show ?thesis
      by (auto simp: visit_wait_def wait_over_def split: if_split_asm)
  qed
  then show "cache_sound c (cs_cache (snd ts'))"
    "fst ts' = fst ts \<or> fulfilled c m \<and> fst ts' = fst ts + ucast (meta_weight m)" by blast+
qed

lemma tally_sound:
  assumes "empty_name_unknown c" "\<And>f. sat = Some f \<Longrightarrow> check_sound c f"
  shows "cache_sound c (cs_cache (snd ts)) \<Longrightarrow> tally (visit c sat) thr ms ts = Inr (r, st')
    \<Longrightarrow> cache_sound c (cs_cache st') \<and> (r \<longrightarrow> unat thr \<le> unat (fst ts) + sum_list (map factor_weight (filter (fulfilled c) ms)))"
proof (induction ms arbitrary: ts)
  case Nil
  then show ?case by auto
next
  case (Cons m ms)
  from Cons.prems(2) obtain ts' where v: "visit c sat m ts = Inr ts'"
    and rest: "(if fst ts' \<ge> thr then Inr (True, snd ts') else tally (visit c sat) thr ms ts') = Inr (r, st')"
    by (auto simp: ebind_Inr_iff)
  note sound = visit_sound [OF assms Cons.prems(1) v]
  have step: "unat (fst ts') + sum_list (map factor_weight (filter (fulfilled c) ms))
      \<le> unat (fst ts) + sum_list (map factor_weight (filter (fulfilled c) (m # ms)))"
    using sound(2) unat_add_weight [of "fst ts" "meta_weight m"] by (auto simp: factor_weight_def)
  show ?case
  proof (cases "fst ts' \<ge> thr")
    case True
    then have "unat thr \<le> unat (fst ts')" by (simp add: word_le_nat_alt)
    with True rest sound(1) step show ?thesis by auto
  next
    case False
    with rest have "tally (visit c sat) thr ms ts' = Inr (r, st')" by simp
    with Cons.IH [OF sound(1) this] step show ?thesis by auto
  qed
qed

lemma sum_meta_permissions:
  "sum_list (map factor_weight (filter P (meta_permissions a))) = sum_list (map factor_weight (filter P (factors a)))"
  unfolding sum_factors_mset meta_permissions_def by (simp add: mset_filter)

lemma body_sound:
  assumes "empty_name_unknown c" "\<And>f. sat = Some f \<Longrightarrow> check_sound c f"
  shows "check_sound c (satisfied_body c sat)"
  unfolding check_sound_def
proof (intro allI impI)
  fix a st r st'
  assume st: "cache_sound c (cs_cache st)" and res: "satisfied_body c sat a st = Inr (r, st')"
  from res obtain mid where mid: "tally (visit c sat) (auth_threshold a) (meta_permissions a) (0, st) = Inr (r, mid)"
    and "cs_cache st' = cs_cache mid"
    by (auto simp: satisfied_body_def ebind_Inr_iff split: if_splits)
  with tally_sound [OF assms, of sat "(0, st)" "auth_threshold a" "meta_permissions a" r mid] st
  show "cache_sound c (cs_cache st') \<and> (r \<longrightarrow> authority_granted c a)"
    by (simp add: authority_granted_def sum_meta_permissions)
qed

lemma satisfied_at_sound: "empty_name_unknown c \<Longrightarrow> check_sound c (satisfied_at c depth)"
proof (induction c depth rule: satisfied_at.induct)
  case (1 c depth)
  show ?case
    unfolding satisfied_at.simps [of c depth]
    by (rule body_sound [OF 1(2)]) (use 1 in \<open>auto split: if_splits\<close>)
qed

lemma initial_cache_sound:
  assumes "fs_wf (provided_permissions c)"
  shows "cache_sound c (initialize_permission_cache c)"
proof -
  have find: "fm_find p (initialize_permission_cache c) = Some s \<Longrightarrow> p \<in> set (provided_permissions c)" for p s
    by (auto dest!: fm_find_Some_in simp: initialize_permission_cache_def)
  moreover have "fm_wf (initialize_permission_cache c)"
    using assms by (simp add: initialize_permission_cache_def fm_wf_def fs_wf_def comp_def)
  ultimately show ?thesis
    by (auto simp: cache_sound_def permission_provided_def intro: grants.provided)
qed

lemma satisfied_permission_sound:
  assumes "empty_name_unknown c" "fs_wf (provided_permissions c)" "satisfied_permission c p None used = Inr (True, st)"
  shows "grants c p"
proof -
  define sat where "sat = (if 0 < recursion_depth_limit c then Some (satisfied_at c 1) else None)"
  from assms(3) obtain t where t: "visit_permission c sat \<lparr>plw_permission = p, plw_weight = 1\<rparr>
      (0, \<lparr>cs_used_keys = used, cs_cache = initialize_permission_cache c\<rparr>) = Inr (t, st)" "t > 0"
    by (auto simp: satisfied_permission_def sat_def cache_or_initial_def ebind_Inr_iff)
  have "check_sound c f" if "sat = Some f" for f
    using that satisfied_at_sound [OF assms(1)] by (auto simp: sat_def split: if_splits)
  from visit_permission_sound [OF assms(1) this _ t(1)] initial_cache_sound [OF assms(2)] t(2) show ?thesis
    by auto
qed

section \<open>What is granted is accepted\<close>

definition refused :: "authority_checker \<Rightarrow> permission_level \<Rightarrow> bool" where
  "refused c p \<longleftrightarrow> (\<exists>e. permission_to_authority c p = Inl e \<and> e \<noteq> permission_query_exception)"

text \<open>Delegation without circles, between authorities whose weights add up to a 32-bit number.\<close>

definition authority_ranked :: "authority_checker \<Rightarrow> (permission_level \<Rightarrow> nat) \<Rightarrow> nat \<Rightarrow> authority \<Rightarrow> bool" where
  "authority_ranked c rank n a \<longleftrightarrow> 0 < auth_threshold a \<and> sum_list (map factor_weight (factors a)) < 2 ^ 32
     \<and> (\<forall>x \<in> set (auth_accounts a). rank (plw_permission x) < n \<and> \<not> refused c (plw_permission x))"

definition delegation_ranked :: "authority_checker \<Rightarrow> (permission_level \<Rightarrow> nat) \<Rightarrow> bool" where
  "delegation_ranked c rank \<longleftrightarrow> (\<forall>p a. permission_to_authority c p = Inr a \<longrightarrow> authority_ranked c rank (rank p) a)"

definition being :: "permission_cache_type \<Rightarrow> permission_level set" where
  "being m = {p. fm_find p m = Some being_evaluated}"

definition cache_exact :: "authority_checker \<Rightarrow> permission_cache_type \<Rightarrow> bool" where
  "cache_exact c m \<longleftrightarrow> cache_sound c m \<and> (\<forall>p. fm_find p m = Some permission_unsatisfied \<longrightarrow> \<not> grants c p)
     \<and> (\<forall>p \<in> set (provided_permissions c). fm_find p m = Some permission_satisfied)"

lemma cache_exact_assign:
  assumes "cache_exact c m" "empty_name_unknown c" "permission_to_authority c p = Inr a" "p \<notin> set (provided_permissions c)"
    and "s = permission_satisfied \<Longrightarrow> grants c p" "s = permission_unsatisfied \<Longrightarrow> \<not> grants c p"
  shows "cache_exact c (fm_assign p s m)"
proof -
  have wf: "fm_wf m" and sound: "cache_sound c m" using assms(1) by (simp_all add: cache_exact_def cache_sound_def)
  have "cache_sound c (fm_assign p s m)"
    by (rule cache_sound_assign [OF sound assms(2,3,5)])
  then show ?thesis
    using assms(1,4,6) by (auto simp: cache_exact_def fm_find_assign [OF wf])
qed

lemma being_assign:
  "fm_wf m \<Longrightarrow> being (fm_assign p s m) = (if s = being_evaluated then insert p (being m) else being m - {p})"
  by (auto simp: being_def fm_find_assign)

definition check_exact :: "authority_checker \<Rightarrow> (permission_level \<Rightarrow> nat) \<Rightarrow> nat \<Rightarrow> authority_check \<Rightarrow> bool" where
  "check_exact c rank n f \<longleftrightarrow> (\<forall>a st. authority_ranked c rank n a \<longrightarrow> cache_exact c (cs_cache st)
     \<longrightarrow> (\<forall>p \<in> being (cs_cache st). n \<le> rank p)
     \<longrightarrow> (\<exists>st'. f a st = Inr (authority_granted c a, st') \<and> cache_exact c (cs_cache st') \<and> being (cs_cache st') = being (cs_cache st)))"

lemma status_exact:
  assumes "cache_exact c m" "permission_status_in_cache m p = Some s" "p \<notin> being m"
  shows "(s = permission_satisfied) \<longleftrightarrow> grants c p"
proof (cases s)
  case being_evaluated
  have "fm_find (permission_level (actor p) 0) m = Some being_evaluated"
    using assms(2,3) being_evaluated by (auto simp: permission_status_in_cache_def being_def split: option.splits)
  with assms(1) show ?thesis
    by (auto simp: cache_exact_def cache_sound_def)
next
  case permission_unsatisfied
  show ?thesis
  proof (cases "fm_find p m")
    case None
    with assms(1,2) permission_unsatisfied show ?thesis
      by (auto simp: permission_status_in_cache_def cache_exact_def cache_sound_def)
  next
    case (Some x)
    with assms(1,2) permission_unsatisfied show ?thesis
      by (auto simp: permission_status_in_cache_def cache_exact_def)
  qed
next
  case permission_satisfied
  then show ?thesis
    using status_sound [of c m p] assms(1,2) by (simp add: cache_exact_def)
qed

lemma status_None_not_provided:
  assumes "cache_exact c m" "permission_status_in_cache m p = None"
  shows "\<not> permission_provided c p" and "p \<notin> set (provided_permissions c)"
  using assms by (auto simp: permission_status_in_cache_def cache_exact_def permission_provided_def split: option.splits)

text \<open>The permission is evaluated, one level deeper, with itself marked in the cache.\<close>

lemma evaluate_exact:
  assumes "empty_name_unknown c" "delegation_ranked c rank" "rank (plw_permission p) < n"
    and "check_exact c rank (rank (plw_permission p)) f" "permission_to_authority c (plw_permission p) = Inr a"
    and "cache_exact c (cs_cache st)" "\<forall>q \<in> being (cs_cache st). n \<le> rank q"
    and "permission_status_in_cache (cs_cache st) (plw_permission p) = None"
  shows "\<exists>st'. visit_permission c (Some f) p (t, st)
      = Inr (if grants c (plw_permission p) then t + ucast (plw_weight p) else t, st')
    \<and> cache_exact c (cs_cache st') \<and> being (cs_cache st') = being (cs_cache st)"
proof -
  let ?q = "plw_permission p"
  note not_provided = status_None_not_provided [OF assms(6,8)]
  have g: "grants c ?q \<longleftrightarrow> authority_granted c a"
    using assms(5) not_provided(1) by (simp add: grants_iff [of c ?q])
  define m where "m = fm_assign ?q being_evaluated (cs_cache st)"
  have m: "cache_exact c m"
    unfolding m_def by (rule cache_exact_assign [OF assms(6,1,5) not_provided(2)]) simp_all
  have "fm_wf (cs_cache st)" using assms(6) by (simp add: cache_exact_def cache_sound_def)
  then have being_m: "being m = insert ?q (being (cs_cache st))"
    by (simp add: m_def being_assign)
  have "authority_ranked c rank (rank ?q) a"
    using assms(2,5) by (simp add: delegation_ranked_def)
  moreover have "\<forall>x \<in> being m. rank ?q \<le> rank x"
    using assms(3,7) by (force simp: being_m)
  ultimately obtain mid where mid: "f a (st\<lparr>cs_cache := m\<rparr>) = Inr (authority_granted c a, mid)"
    "cache_exact c (cs_cache mid)" "being (cs_cache mid) = being m"
    using assms(4) [unfolded check_exact_def, rule_format, of a "st\<lparr>cs_cache := m\<rparr>"] m by auto
  define s where "s = (if authority_granted c a then permission_satisfied else permission_unsatisfied)"
  have exact: "cache_exact c (fm_assign ?q s (cs_cache mid))"
    by (rule cache_exact_assign [OF mid(2) assms(1,5) not_provided(2)]) (simp_all add: s_def g split: if_splits)
  have "fm_wf (cs_cache mid)" using mid(2) by (simp add: cache_exact_def cache_sound_def)
  moreover have "?q \<notin> being (cs_cache st)" using status_None [OF assms(8)] by (simp add: being_def)
  ultimately have being_s: "being (fm_assign ?q s (cs_cache mid)) = being (cs_cache st)"
    by (simp add: s_def being_assign mid(3) being_m)
  have "visit_permission c (Some f) p (t, st)
      = Inr (if grants c ?q then t + ucast (plw_weight p) else t, mid\<lparr>cs_cache := fm_assign ?q s (cs_cache mid)\<rparr>)"
    using mid(1) by (simp add: visit_permission_def assms(5,8) emplace_eq_assign [OF status_None [OF assms(8)]] m_def [symmetric] g s_def)
  then show ?thesis
    using exact being_s by (intro exI conjI) (assumption, simp_all)
qed

lemma visit_permission_exact:
  assumes "empty_name_unknown c" "delegation_ranked c rank" "rank (plw_permission p) < n" "\<not> refused c (plw_permission p)"
    and "\<And>k. k < n \<Longrightarrow> \<exists>f. sat = Some f \<and> check_exact c rank k f"
    and "cache_exact c (cs_cache st)" "\<forall>q \<in> being (cs_cache st). n \<le> rank q"
  shows "\<exists>st'. visit_permission c sat p (t, st)
      = Inr (if grants c (plw_permission p) then t + ucast (plw_weight p) else t, st')
    \<and> cache_exact c (cs_cache st') \<and> being (cs_cache st') = being (cs_cache st)"
proof (cases "permission_status_in_cache (cs_cache st) (plw_permission p)")
  case (Some s)
  have "plw_permission p \<notin> being (cs_cache st)" using assms(3,7) by force
  from status_exact [OF assms(6) Some this] Some assms(6) show ?thesis
    by (auto simp: visit_permission_def)
next
  case None
  from assms(5) [OF assms(3)] obtain f where f: "sat = Some f" "check_exact c rank (rank (plw_permission p)) f" by blast
  show ?thesis
  proof (cases "permission_to_authority c (plw_permission p)")
    case (Inl e)
    then have "e = permission_query_exception" using assms(4) by (auto simp: refused_def)
    moreover have "\<not> grants c (plw_permission p)"
      using Inl status_None_not_provided(1) [OF assms(6) None] by (simp add: grants_iff [of c "plw_permission p"])
    ultimately show ?thesis
      using assms(6) by (auto simp: visit_permission_def None f(1) Inl)
  next
    case (Inr a)
    show ?thesis
      unfolding f(1) by (rule evaluate_exact [OF assms(1-3) f(2) Inr assms(6,7) None])
  qed
qed

lemma visit_exact:
  assumes "empty_name_unknown c" "delegation_ranked c rank"
    and "\<And>x. m = Meta_account x \<Longrightarrow> rank (plw_permission x) < n \<and> \<not> refused c (plw_permission x)"
    and "\<And>k. k < n \<Longrightarrow> \<exists>f. sat = Some f \<and> check_exact c rank k f"
    and "cache_exact c (cs_cache st)" "\<forall>q \<in> being (cs_cache st). n \<le> rank q"
  shows "\<exists>st'. visit c sat m (t, st) = Inr (if fulfilled c m then t + ucast (meta_weight m) else t, st')
    \<and> cache_exact c (cs_cache st') \<and> being (cs_cache st') = being (cs_cache st)"
proof (cases m)
  case (Meta_account p)
  then have "rank (plw_permission p) < n" "\<not> refused c (plw_permission p)" using assms(3) by blast+
  from visit_permission_exact [OF assms(1,2) this assms(4-6), of t] show ?thesis
    unfolding Meta_account visit.simps fulfilled.simps meta_weight.simps .
next
  case (Meta_key k)
  with assms(5) find_key_None [of "kw_key k" "provided_keys c"] find_key_Some [of "kw_key k" "provided_keys c"] show ?thesis
    by (cases "find_key (kw_key k) (provided_keys c)") (auto simp: visit_key_def key_provided_def)
next
  case (Meta_wait w)
  with assms(5) show ?thesis by (simp add: visit_wait_def wait_over_def)
qed

lemma unat_add_weight_exact:
  assumes "unat (t :: u32) + unat (w :: u16) < 2 ^ 32"
  shows "unat (t + ucast w) = unat t + unat w"
proof -
  have "unat (ucast w :: u32) = unat w"
    by (simp add: unsigned_ucast_eq take_bit_nat_eq_self_iff less_le_trans [OF unat_u16_less])
  with assms show ?thesis
    by (simp add: unat_add_lem [THEN iffD1])
qed

lemma tally_exact:
  assumes "empty_name_unknown c" "delegation_ranked c rank" "\<And>k. k < n \<Longrightarrow> \<exists>f. sat = Some f \<and> check_exact c rank k f"
  shows "\<lbrakk>\<forall>x. Meta_account x \<in> set ms \<longrightarrow> rank (plw_permission x) < n \<and> \<not> refused c (plw_permission x);
     unat t + sum_list (map factor_weight ms) < 2 ^ 32; t < thr; cache_exact c (cs_cache st); \<forall>q \<in> being (cs_cache st). n \<le> rank q\<rbrakk>
    \<Longrightarrow> \<exists>st'. tally (visit c sat) thr ms (t, st)
         = Inr (unat thr \<le> unat t + sum_list (map factor_weight (filter (fulfilled c) ms)), st')
       \<and> cache_exact c (cs_cache st') \<and> being (cs_cache st') = being (cs_cache st)"
proof (induction ms arbitrary: t st)
  case Nil
  then show ?case by (auto simp: word_less_nat_alt)
next
  case (Cons m ms)
  define t' where "t' = (if fulfilled c m then t + ucast (meta_weight m) else t)"
  have "\<And>x. m = Meta_account x \<Longrightarrow> rank (plw_permission x) < n \<and> \<not> refused c (plw_permission x)"
    using Cons.prems(1) by auto
  from visit_exact [OF assms(1,2) this assms(3) Cons.prems(4,5), of m t] obtain mid where
        v: "visit c sat m (t, st) = Inr (t', mid)"
    and mid: "cache_exact c (cs_cache mid)" "being (cs_cache mid) = being (cs_cache st)"
    unfolding t'_def by blast
  have t'_nat: "unat t' = unat t + (if fulfilled c m then factor_weight m else 0)"
    using Cons.prems(2) unat_add_weight_exact [of t "meta_weight m"] by (simp add: t'_def factor_weight_def)
  show ?case
  proof (cases "t' \<ge> thr")
    case True
    then have "unat thr \<le> unat t + sum_list (map factor_weight (filter (fulfilled c) (m # ms)))"
      using t'_nat by (auto simp: word_le_nat_alt)
    with True v mid show ?thesis by auto
  next
    case False
    have "unat t' + sum_list (map factor_weight ms) < 2 ^ 32"
      using Cons.prems(2) t'_nat by (auto split: if_splits)
    with Cons.IH [of t' mid] Cons.prems(1,5) False mid obtain st' where
      "tally (visit c sat) thr ms (t', mid) = Inr (unat thr \<le> unat t' + sum_list (map factor_weight (filter (fulfilled c) ms)), st')"
      "cache_exact c (cs_cache st')" "being (cs_cache st') = being (cs_cache st)" by (auto simp: not_le)
    moreover have "unat t' + sum_list (map factor_weight (filter (fulfilled c) ms))
        = unat t + sum_list (map factor_weight (filter (fulfilled c) (m # ms)))"
      by (simp add: t'_nat)
    ultimately show ?thesis
      using v False by (auto)
  qed
qed

lemma body_exact:
  assumes "empty_name_unknown c" "delegation_ranked c rank" "\<And>k. k < n \<Longrightarrow> \<exists>f. sat = Some f \<and> check_exact c rank k f"
  shows "check_exact c rank n (satisfied_body c sat)"
  unfolding check_exact_def
proof (intro allI impI)
  fix a and st :: checker_state
  assume a: "authority_ranked c rank n a" and st: "cache_exact c (cs_cache st)" "\<forall>p \<in> being (cs_cache st). n \<le> rank p"
  have "\<forall>x. Meta_account x \<in> set (meta_permissions a) \<longrightarrow> rank (plw_permission x) < n \<and> \<not> refused c (plw_permission x)"
    using a by (auto simp: authority_ranked_def meta_permissions_def factors_def)
  moreover have "unat (0 :: u32) + sum_list (map factor_weight (meta_permissions a)) < 2 ^ 32"
    using a sum_meta_permissions [of "\<lambda>_. True" a] by (simp add: authority_ranked_def)
  moreover have "0 < auth_threshold a" using a by (simp add: authority_ranked_def)
  ultimately obtain mid where
    "tally (visit c sat) (auth_threshold a) (meta_permissions a) (0, st) = Inr (authority_granted c a, mid)"
    "cache_exact c (cs_cache mid)" "being (cs_cache mid) = being (cs_cache st)"
    using tally_exact [where n = n, OF assms, where ms = "meta_permissions a" and t = 0 and thr = "auth_threshold a" and st = st] st
    by (auto simp: authority_granted_def sum_meta_permissions)
  then show "\<exists>st'. satisfied_body c sat a st = Inr (authority_granted c a, st') \<and> cache_exact c (cs_cache st')
      \<and> being (cs_cache st') = being (cs_cache st)"
    by (cases "authority_granted c a") (simp_all add: satisfied_body_def)
qed

lemma satisfied_at_exact:
  "\<lbrakk>empty_name_unknown c; delegation_ranked c rank; n \<le> unat (recursion_depth_limit c) - unat depth\<rbrakk>
    \<Longrightarrow> check_exact c rank n (satisfied_at c depth)"
proof (induction c depth arbitrary: n rule: satisfied_at.induct)
  case (1 c depth)
  have "\<exists>f. (if depth < recursion_depth_limit c then Some (satisfied_at c (depth + 1)) else None) = Some f \<and> check_exact c rank k f"
    if "k < n" for k
  proof -
    have less: "depth < recursion_depth_limit c" using that 1(4) by (simp add: word_less_nat_alt)
    have "k \<le> unat (recursion_depth_limit c) - unat (depth + 1)"
      using that 1(4) unat_next_depth [OF less] by linarith
    from 1(1) [OF less 1(2,3) this] less show ?thesis by simp
  qed
  from body_exact [OF 1(2,3) this] show ?case
    unfolding satisfied_at.simps [of c depth] .
qed

lemma initial_cache_exact:
  assumes "fs_wf (provided_permissions c)"
  shows "cache_exact c (initialize_permission_cache c)" and "being (initialize_permission_cache c) = {}"
proof -
  have wf: "fm_wf (initialize_permission_cache c)"
    using initial_cache_sound [OF assms] by (simp add: cache_sound_def)
  have find: "fm_find p (initialize_permission_cache c) = Some s \<longleftrightarrow> p \<in> set (provided_permissions c) \<and> s = permission_satisfied" for p s
    unfolding fm_find_eq_Some_iff [OF wf] by (auto simp: initialize_permission_cache_def)
  show "cache_exact c (initialize_permission_cache c)"
    using initial_cache_sound [OF assms] by (simp add: cache_exact_def find)
  show "being (initialize_permission_cache c) = {}"
    by (simp add: being_def find)
qed

lemma satisfied_permission_exact:
  assumes "empty_name_unknown c" "fs_wf (provided_permissions c)" "delegation_ranked c rank"
    and "rank p < unat (recursion_depth_limit c)" "\<not> refused c p"
  shows "\<exists>st. satisfied_permission c p None used = Inr (grants c p, st)"
proof -
  let ?n = "unat (recursion_depth_limit c)" and ?p = "\<lparr>plw_permission = p, plw_weight = 1\<rparr>"
  let ?st = "\<lparr>cs_used_keys = used, cs_cache = initialize_permission_cache c\<rparr>"
  have pos: "0 < recursion_depth_limit c" using assms(4) by (simp add: word_less_nat_alt)
  have "\<exists>f. Some (satisfied_at c 1) = Some f \<and> check_exact c rank k f" if "k < ?n" for k
    using satisfied_at_exact [OF assms(1,3), of k 1] that by simp
  then have "\<exists>st'. visit_permission c (Some (satisfied_at c 1)) ?p (0, ?st)
      = Inr (if grants c (plw_permission ?p) then 0 + ucast (plw_weight ?p) else 0, st')
    \<and> cache_exact c (cs_cache st') \<and> being (cs_cache st') = being (cs_cache ?st)"
    by (intro visit_permission_exact [where n = ?n, OF assms(1,3)]) (use assms(4,5) initial_cache_exact [OF assms(2)] in simp_all)
  then obtain st where "visit_permission c (Some (satisfied_at c 1)) ?p (0, ?st) = Inr (if grants c p then 1 else 0, st)"
    by auto
  then show ?thesis
    using pos by (cases "grants c p") (simp_all add: satisfied_permission_def cache_or_initial_def)
qed

section \<open>The keys that are used\<close>

abbreviation used_more :: "bool list \<Rightarrow> bool list \<Rightarrow> bool" where
  "used_more \<equiv> list_all2 (\<longrightarrow>)"

lemma used_more_refl: "used_more u u"
  by (simp add: list_all2_refl)

lemma used_more_trans: "used_more u v \<Longrightarrow> used_more v w \<Longrightarrow> used_more u w"
  by (rule list_all2_trans [where ?P1.0 = "(\<longrightarrow>)" and ?P2.0 = "(\<longrightarrow>)"]) auto

lemma used_more_set: "used_more u (u[i := True])"
  unfolding list_all2_conv_all_nth by (auto, metis nth_list_update_eq nth_list_update_neq)

definition check_tracks :: "authority_check \<Rightarrow> bool" where
  "check_tracks f \<longleftrightarrow> (\<forall>a st r st'. f a st = Inr (r, st') \<longrightarrow> used_more (cs_used_keys st) (cs_used_keys st')
     \<and> (\<not> r \<longrightarrow> cs_used_keys st' = cs_used_keys st))"

lemma visit_permission_tracks:
  assumes "\<And>f. sat = Some f \<Longrightarrow> check_tracks f" "visit_permission c sat p (t, st) = Inr (t', st')"
  shows "used_more (cs_used_keys st) (cs_used_keys st')"
    and "t' = t \<Longrightarrow> ucast (plw_weight p) \<noteq> (0 :: u32) \<Longrightarrow> cs_used_keys st' = cs_used_keys st"
proof -
  consider (same) "cs_used_keys st' = cs_used_keys st"
    | (eval) f a m r mid where "sat = Some f" "f a (st\<lparr>cs_cache := m\<rparr>) = Inr (r, mid)"
        "cs_used_keys st' = cs_used_keys mid" "t' = (if r then t + ucast (plw_weight p) else t)"
    using assms(2) by (auto simp: visit_permission_def ebind_Inr_iff Let_def split: option.splits sum.splits if_split_asm)
  then have "used_more (cs_used_keys st) (cs_used_keys st')
      \<and> (t' = t \<longrightarrow> ucast (plw_weight p) \<noteq> (0 :: u32) \<longrightarrow> cs_used_keys st' = cs_used_keys st)"
  proof cases
    case same
    then show ?thesis by (simp add: used_more_refl)
  next
    case eval
    have "used_more (cs_used_keys st) (cs_used_keys mid) \<and> (\<not> r \<longrightarrow> cs_used_keys mid = cs_used_keys st)"
      using assms(1) [OF eval(1)] eval(2) unfolding check_tracks_def by fastforce
    with eval(3,4) show ?thesis by (cases r) auto
  qed
  then show "used_more (cs_used_keys st) (cs_used_keys st')"
    "t' = t \<Longrightarrow> ucast (plw_weight p) \<noteq> (0 :: u32) \<Longrightarrow> cs_used_keys st' = cs_used_keys st" by blast+
qed

lemma visit_tracks:
  assumes "\<And>f. sat = Some f \<Longrightarrow> check_tracks f" "visit c sat m ts = Inr ts'"
  shows "used_more (cs_used_keys (snd ts)) (cs_used_keys (snd ts'))"
proof (cases m)
  case (Meta_account p)
  with assms(2) show ?thesis
    by (intro visit_permission_tracks(1) [OF assms(1), of sat c p "fst ts" _ "fst ts'"]) simp_all
next
  case (Meta_key k)
  with assms(2) show ?thesis
    by (auto simp: visit_key_def case_prod_unfold used_more_set used_more_refl split: option.splits)
next
  case (Meta_wait w)
  with assms(2) show ?thesis by (auto simp: used_more_refl)
qed

lemma tally_tracks:
  assumes "\<And>f. sat = Some f \<Longrightarrow> check_tracks f"
  shows "tally (visit c sat) thr ms ts = Inr (r, st') \<Longrightarrow> used_more (cs_used_keys (snd ts)) (cs_used_keys st')"
proof (induction ms arbitrary: ts)
  case Nil
  then show ?case by (simp add: used_more_refl)
next
  case (Cons m ms)
  from Cons.prems obtain ts' where v: "visit c sat m ts = Inr ts'"
    and rest: "(if fst ts' \<ge> thr then Inr (True, snd ts') else tally (visit c sat) thr ms ts') = Inr (r, st')"
    by (auto simp: ebind_Inr_iff)
  have "used_more (cs_used_keys (snd ts')) (cs_used_keys st')"
    using rest Cons.IH [of ts'] by (cases "fst ts' \<ge> thr") (auto simp: used_more_refl)
  with visit_tracks [OF assms v] show ?case by (rule used_more_trans)
qed

lemma satisfied_at_tracks: "check_tracks (satisfied_at c depth)"
proof (induction c depth rule: satisfied_at.induct)
  case (1 c depth)
  define sat where "sat = (if depth < recursion_depth_limit c then Some (satisfied_at c (depth + 1)) else None)"
  have sat: "check_tracks f" if "sat = Some f" for f
    using that 1 by (auto simp: sat_def split: if_splits)
  show ?case
    unfolding satisfied_at.simps [of c depth] sat_def [symmetric] check_tracks_def
  proof (intro allI impI)
    fix a st r st'
    assume "satisfied_body c sat a st = Inr (r, st')"
    then obtain mid where mid: "tally (visit c sat) (auth_threshold a) (meta_permissions a) (0, st) = Inr (r, mid)"
      and "cs_used_keys st' = (if r then cs_used_keys mid else cs_used_keys st)"
      by (auto simp: satisfied_body_def ebind_Inr_iff split: if_split_asm)
    with tally_tracks [OF sat mid] show "used_more (cs_used_keys st) (cs_used_keys st')
        \<and> (\<not> r \<longrightarrow> cs_used_keys st' = cs_used_keys st)"
      by (simp add: used_more_refl)
  qed
qed

text \<open>C28. A check of a permission that fails leaves the marks of the used keys as they were, whatever was evaluated on the way,
  and one that succeeds only adds marks: none is ever taken back.\<close>

theorem used_keys_tracked:
  assumes "satisfied_permission c p cached used = Inr (r, st)"
  shows "list_all2 (\<longrightarrow>) used (cs_used_keys st) \<and> (\<not> r \<longrightarrow> cs_used_keys st = used)"
proof -
  define sat where "sat = (if 0 < recursion_depth_limit c then Some (satisfied_at c 1) else None)"
  have sat: "check_tracks f" if "sat = Some f" for f
    using that satisfied_at_tracks by (auto simp: sat_def split: if_splits)
  from assms obtain t where t: "visit_permission c sat \<lparr>plw_permission = p, plw_weight = 1\<rparr>
      (0, \<lparr>cs_used_keys = used, cs_cache = cache_or_initial c cached\<rparr>) = Inr (t, st)" "r = (t > 0)"
    by (auto simp: satisfied_permission_def sat_def ebind_Inr_iff)
  show ?thesis
    using visit_permission_tracks [OF sat t(1)] t(2) by (auto simp: word_gt_0)
qed

section \<open>The authorization manager\<close>

abbreviation manager_checker ::
  "permission_rows \<Rightarrow> u16 \<Rightarrow> u32 \<Rightarrow> public_key_type list \<Rightarrow> permission_level list \<Rightarrow> microseconds \<Rightarrow> authority_checker" where
  "manager_checker db depth max_delay keys permissions delay \<equiv>
     fst (make_auth_checker (get_permission db) depth keys permissions (effective_delay max_delay delay))"

lemma manager_empty_name: "empty_name_unknown (manager_checker db depth max_delay keys permissions delay)"
  by (auto simp: empty_name_unknown_def make_auth_checker_def get_permission_def)

text \<open>C3. What the authorization manager accepts is granted: when a permission passes the check with certain keys, permissions and
  a delay, it is provided, or enough of the factors of its authority are fulfilled by the keys, the delay and
  permissions that are granted themselves, whatever circles the delegation has and whatever the cache has kept.\<close>

theorem check_authorization_sound:
  assumes "fs_wf permissions"
    and "check_authorization db depth max_delay level keys permissions delay allow_unused_keys = Inr ()"
  shows "grants (fst (make_auth_checker (get_permission db) depth keys permissions (effective_delay max_delay delay))) level"
proof -
  let ?c = "manager_checker db depth max_delay keys permissions delay"
  from assms(2) obtain st where "satisfied_permission ?c level None (replicate (length keys) False) = Inr (True, st)"
    by (auto simp: check_authorization_def make_auth_checker_def Let_def ebind_Inr_iff)
  moreover have "fs_wf (provided_permissions ?c)"
    using assms(1) by (simp add: make_auth_checker_def)
  ultimately show ?thesis
    using satisfied_permission_sound [OF manager_empty_name] by blast
qed

text \<open>C4. Where permissions delegate without circles, at most as deep as the limit, the thresholds are positive, the weights of an
  authority add up to a 32-bit number and no permission named has an empty account or permission name, the
  authorization manager decides exactly: a permission that is not granted is rejected as unsatisfied; one
  that is granted is accepted when unused keys are allowed or the check has marked every key as used, and
  rejected for an irrelevant signature otherwise. Neither the order of evaluation, nor the early end of the count, nor
  what the cache has kept makes a difference to what is granted.\<close>

theorem check_authorization_exact:
  assumes c_def: "c = fst (make_auth_checker (get_permission db) depth keys permissions (effective_delay max_delay delay))"
    and "fs_wf permissions" "delegation_ranked c rank" "rank level < unat depth" "actor level \<noteq> 0" "permission level \<noteq> 0"
  shows "\<exists>st. satisfied_permission c level None (replicate (length keys) False) = Inr (grants c level, st) \<and>
    check_authorization db depth max_delay level keys permissions delay allow_unused_keys =
      (if \<not> grants c level then Inl unsatisfied_authorization
       else if allow_unused_keys \<or> (\<forall>used \<in> set (cs_used_keys st). used) then Inr ()
       else Inl tx_irrelevant_sig)"
proof -
  have "fs_wf (provided_permissions c)" "rank level < unat (recursion_depth_limit c)"
    using assms(2,4) by (simp_all add: c_def make_auth_checker_def)
  moreover have "\<not> refused c level"
    using assms(5,6) by (auto simp: refused_def c_def make_auth_checker_def get_permission_def split: option.splits)
  ultimately obtain st where "satisfied_permission c level None (replicate (length keys) False) = Inr (grants c level, st)"
    using satisfied_permission_exact [OF _ _ assms(3)] manager_empty_name unfolding c_def by metis
  moreover have "snd (make_auth_checker (get_permission db) depth keys permissions (effective_delay max_delay delay))
    = replicate (length keys) False" by (simp add: make_auth_checker_def)
  ultimately show ?thesis
    by (simp add: check_authorization_def Let_def case_prod_unfold c_def [symmetric] all_keys_used_def list_all_iff sys_assert_def)
      blast
qed

text \<open>
  Two permissions of one account that delegate to a third, on which the theorems are instantiated: 1@2 needs a key and 3@4,
  which needs another key.
\<close>

definition example_permissions :: permission_rows where
  "example_permissions =
     [(permission_level 1 2, \<lparr>auth_threshold = 2, auth_keys = [\<lparr>kw_key = K1_key [1], kw_weight = 1\<rparr>],
         auth_accounts = [\<lparr>plw_permission = permission_level 3 4, plw_weight = 1\<rparr>], auth_waits = []\<rparr>),
      (permission_level 3 4, \<lparr>auth_threshold = 1, auth_keys = [\<lparr>kw_key = K1_key [2], kw_weight = 1\<rparr>],
         auth_accounts = [], auth_waits = []\<rparr>)]"

theorem check_authorization_sound_witness:
  "check_authorization example_permissions 6 3600 (permission_level 1 2) [K1_key [1], K1_key [2]] [] 0 False = Inr ()
   \<and> grants (fst (make_auth_checker (get_permission example_permissions) 6 [K1_key [1], K1_key [2]] [] (effective_delay 3600 0)))
       (permission_level 1 2)"
proof -
  have ok: "check_authorization example_permissions 6 3600 (permission_level 1 2) [K1_key [1], K1_key [2]] [] 0 False = Inr ()"
    by code_simp
  have "fs_wf ([] :: permission_level list)" by simp
  from check_authorization_sound [OF this ok] ok show ?thesis by blast
qed

theorem check_authorization_exact_witness:
  "\<exists>st. satisfied_permission (manager_checker example_permissions 6 3600 [K1_key [1], K1_key [2], K1_key [3]] [] 0)
         (permission_level 1 2) None (replicate (length [K1_key [1], K1_key [2], K1_key [3]]) False)
       = Inr (grants (manager_checker example_permissions 6 3600 [K1_key [1], K1_key [2], K1_key [3]] [] 0) (permission_level 1 2), st) \<and>
    check_authorization example_permissions 6 3600 (permission_level 1 2) [K1_key [1], K1_key [2], K1_key [3]] [] 0 False =
      (if \<not> grants (manager_checker example_permissions 6 3600 [K1_key [1], K1_key [2], K1_key [3]] [] 0) (permission_level 1 2)
       then Inl unsatisfied_authorization
       else if False \<or> (\<forall>used \<in> set (cs_used_keys st). used) then Inr () else Inl tx_irrelevant_sig)"
proof (rule check_authorization_exact [OF refl, where rank = "\<lambda>p. if p = permission_level 1 2 then 1 else 0"])
  show "delegation_ranked (manager_checker example_permissions 6 3600 [K1_key [1], K1_key [2], K1_key [3]] [] 0)
      (\<lambda>p. if p = permission_level 1 2 then 1 else 0)"
    by (auto simp: delegation_ranked_def authority_ranked_def make_auth_checker_def get_permission_def example_permissions_def
        factors_def factor_weight_def refused_def split: if_splits option.splits)
qed simp_all

theorem used_keys_tracked_witness:
  "\<exists>r st. satisfied_permission (manager_checker example_permissions 6 3600 [K1_key [2]] [] 0) (permission_level 1 2) None [False] = Inr (r, st)
    \<and> list_all2 (\<longrightarrow>) [False] (cs_used_keys st) \<and> (\<not> r \<longrightarrow> cs_used_keys st = [False])"
proof -
  have "\<not> isl (satisfied_permission (manager_checker example_permissions 6 3600 [K1_key [2]] [] 0) (permission_level 1 2) None [False])"
    by code_simp
  then obtain r st where
    "satisfied_permission (manager_checker example_permissions 6 3600 [K1_key [2]] [] 0) (permission_level 1 2) None [False] = Inr (r, st)"
    by (cases "satisfied_permission (manager_checker example_permissions 6 3600 [K1_key [2]] [] 0) (permission_level 1 2) None [False]") auto
  with used_keys_tracked [OF this] show ?thesis by blast
qed

text \<open>Permissions in which 2@9 fails after it has found 3@9 satisfied, and 1@9 then takes 3@9 from the cache.\<close>

definition cached_permissions_example :: permission_rows where
  "cached_permissions_example =
     [(permission_level 1 9, \<lparr>auth_threshold = 1, auth_keys = [],
         auth_accounts = [\<lparr>plw_permission = permission_level 2 9, plw_weight = 2\<rparr>,
                          \<lparr>plw_permission = permission_level 3 9, plw_weight = 1\<rparr>], auth_waits = []\<rparr>),
      (permission_level 2 9, \<lparr>auth_threshold = 2, auth_keys = [\<lparr>kw_key = K1_key [2], kw_weight = 1\<rparr>],
         auth_accounts = [\<lparr>plw_permission = permission_level 3 9, plw_weight = 1\<rparr>], auth_waits = []\<rparr>),
      (permission_level 3 9, \<lparr>auth_threshold = 1, auth_keys = [\<lparr>kw_key = K1_key [1], kw_weight = 1\<rparr>],
         auth_accounts = [], auth_waits = []\<rparr>)]"

lemma cached_permissions_valid: "list_all (validate \<circ> snd) cached_permissions_example"
  by (simp add: cached_permissions_example_def validate_def less_permission_level_def less_eq_permission_level_def permission_level_less_def)

text \<open>The keys that are reported as required can be too few. The cache keeps a permission that was satisfied inside an
  authority that then failed, while the keys used for it are restored to unused. In this example, with valid authorities,
  the only key is not reported as required, although the check fails without it, and with it fails for an
  irrelevant key.\<close>

lemma required_keys_incomplete:
  "get_required_keys cached_permissions_example 6 [[permission_level 1 9]] [K1_key [1]] 0 = Inr []
   \<and> check_authorization cached_permissions_example 6 3600 (permission_level 1 9) [] [] 0 False = Inl unsatisfied_authorization
   \<and> check_authorization cached_permissions_example 6 3600 (permission_level 1 9) [K1_key [1]] [] 0 False = Inl tx_irrelevant_sig
   \<and> check_authorization cached_permissions_example 6 3600 (permission_level 1 9) [K1_key [1]] [] 0 True = Inr ()"
  by (intro conjI; code_simp)

end
