(* ===== verification/Spec2Isabelle.thy ===== *)
theory Spec2Isabelle
  imports Header_Validation Fork_Switch Resource_Accounts Authority_Grants
begin

text \<open>
  A verification development for the consensus core of a blockchain node: the library
  \<^verbatim>\<open>src/libraries/chain\<close> and the parts of \<^verbatim>\<open>src/libraries/libfc\<close> it rests on.

  \<^bold>\<open>The program.\<close> A node receives signed blocks. A block's header is checked against the header state of
  its parent (\<^verbatim>\<open>block_header_state.cpp\<close>): the producer scheduled for its time slot must have signed it,
  a new producer schedule or newly activated protocol features must be well formed, and the delegated
  proof of stake counters are advanced, which yields the last irreversible block. Accepted blocks are
  kept in the fork database (\<^verbatim>\<open>fork_database.cpp\<close>), a tree over the last irreversible block, which
  picks the head among the valid blocks and drops the branches that do not build on a new root. The
  transactions of a block are billed to accounts, whose use of CPU, network and memory is limited
  (\<^verbatim>\<open>resource_limits.cpp\<close>).

  \<^bold>\<open>The theories.\<close> Each follows its source files in order: data first, then one definition for each
  operation, then the lemmas, then the properties.

  \<^item> \<^verbatim>\<open>Chain_Prelude\<close>: the errors the code throws, the result type \<^verbatim>\<open>chain_error + 'a\<close> with its sequencing
    \<^verbatim>\<open>ebind\<close>, little-endian bytes, digests, and the sorted maps and sets that stand for
    \<^verbatim>\<open>flat_map\<close> and \<^verbatim>\<open>flat_set\<close>.
  \<^item> \<^verbatim>\<open>Chain_Name\<close>: account names (\<^verbatim>\<open>name.hpp\<close>, \<^verbatim>\<open>name.cpp\<close>), thirteen characters packed into 64 bits.
    Printing and parsing are inverse, and the accepted strings are characterised.
  \<^item> \<^verbatim>\<open>Merkle\<close>: the batch root (\<^verbatim>\<open>merkle.cpp\<close>) and the incremental tree (\<^verbatim>\<open>incremental_merkle.hpp\<close>) with its
    bit tricks; the two agree on every sequence of digests.
  \<^item> \<^verbatim>\<open>Raw_Pack\<close>: the binary format (\<^verbatim>\<open>fc/io/raw.hpp\<close>). The locale \<^verbatim>\<open>raw_codec\<close> states that unpacking what
    was packed gives the value and the rest of the stream; it is interpreted for every packed type.
  \<^item> \<^verbatim>\<open>Authority\<close>: authorities, their shared form and their validation (\<^verbatim>\<open>authority.hpp\<close>).
  \<^item> \<^verbatim>\<open>Authority_Checker\<close>: the checker that decides whether keys, permissions and a delay satisfy an authority
    (\<^verbatim>\<open>authority_checker.hpp\<close>), with its cache and its limit of depth, and the functions of \<^verbatim>\<open>authorization_manager.cpp\<close>
    that check one permission or collect the keys a transaction requires.
  \<^item> \<^verbatim>\<open>Authority_Grants\<close>: what the checker accepts is granted by a specification without cache, order or limit; without
    circles in the delegation it accepts exactly that. An example shows that the keys it reports as used can be too few.
  \<^item> \<^verbatim>\<open>Producer_Schedule\<close>: schedules and block signing authorities (\<^verbatim>\<open>producer_schedule.hpp\<close>).
  \<^item> \<^verbatim>\<open>Protocol_Features\<close>: the set of known features, the manager of activated ones with its linked list
    of builtin activations, and the activation sets of the headers (\<^verbatim>\<open>protocol_feature_manager.cpp\<close>,
    \<^verbatim>\<open>protocol_feature_activation.cpp\<close>).
  \<^item> \<^verbatim>\<open>Block_Time\<close>: slots and times (\<^verbatim>\<open>block_timestamp.hpp\<close>).
  \<^item> \<^verbatim>\<open>Block_Header\<close>: headers, signed blocks, their ids and extensions (\<^verbatim>\<open>block_header.cpp\<close>, \<^verbatim>\<open>block.cpp\<close>).
  \<^item> \<^verbatim>\<open>Header_State\<close>: the header state and its transitions (\<^verbatim>\<open>block_header_state.cpp\<close>, \<^verbatim>\<open>block_state.cpp\<close>) and
    the genesis state (\<^verbatim>\<open>initialize_blockchain_state\<close> in \<^verbatim>\<open>controller.cpp\<close>).
  \<^item> \<^verbatim>\<open>Dpos\<close>: what a chain of accepted headers guarantees. The invariant of the header states, the exact
    meaning of the irreversible block, that it does not move back, and that the block root of a header
    is the Merkle root of the ids of the chain, which joins \<^verbatim>\<open>Merkle\<close> with \<^verbatim>\<open>Header_State\<close>.
  \<^item> \<^verbatim>\<open>Header_Validation\<close>: a header made here passes the checks made on received headers, and the exact
    condition under which signatures are accepted.
  \<^item> \<^verbatim>\<open>Fork_Database\<close>: the operations of the fork database, and the invariant that they keep.
  \<^item> \<^verbatim>\<open>Fork_Tree\<close>: removal, advancing the root and walking branches, described by the tree; the loops of the
    source end; the states a node can reach.
  \<^item> \<^verbatim>\<open>Fork_Switch\<close>: the controller around the fork database (\<^verbatim>\<open>controller.cpp\<close>: \<^verbatim>\<open>push_block\<close>,
    \<^verbatim>\<open>maybe_switch_forks\<close>, \<^verbatim>\<open>apply_block\<close>, \<^verbatim>\<open>pop_block\<close>, \<^verbatim>\<open>log_irreversible\<close>). Steps change the state also when they throw.
    A block applied in an undo session is applied or leaves no trace, a switch of forks is all or nothing, and irreversible
    blocks go to the log in order. The laws of undo and commit of the database, and that a block executes again with
    the same result, are named hypotheses on the parameters; that the old branch can be restored is derived from
    how it was applied. This joins the fork database, the protocol features and the header states.
  \<^item> \<^verbatim>\<open>Resource_Limits\<close>: the limits on CPU, network and memory (\<^verbatim>\<open>resource_limits.cpp\<close>, \<^verbatim>\<open>resource_limits_private.hpp\<close>):
    the accumulators of usage, the elastic limits of a block, the limits and the usage of the accounts. The rows of
    the database are a record of maps by owner, and every operation of the manager is a function on it.
  \<^item> \<^verbatim>\<open>Resource_Usage\<close>: what the accumulators and the limits compute in unbounded arithmetic. The moving average stays
    below its largest input and its overflow checks never fire for such inputs; an account can spend what it is told
    is available.
  \<^item> \<^verbatim>\<open>Resource_Accounts\<close>: sequences of operations of the manager, with the locale \<^verbatim>\<open>op_simulation\<close> for the
    refinement of a sequence by a specification. Pending and actual limits refine one map, the totals are the sums of
    the weights, the rows fit together, a block can always be finished, and a billed account is within its share.

  \<^bold>\<open>Conventions.\<close> Machine integers are words of their width, so that \<open>+\<close> wraps as in the source. Exceptions
  are the left values of the result type; behaviour that the language leaves undefined, such as
  dereferencing a null pointer, is the error \<^verbatim>\<open>undefined_behaviour\<close>. Loops with no structural bound are
  \<^verbatim>\<open>partial_function (option)\<close>, where \<open>None\<close> is a loop that does not end, and theorems show that it does
  not occur. No fuel is used. Code outside the repository is a parameter: the hash function \<^verbatim>\<open>sha\<close>, the
  recovery of a public key from a signature \<^verbatim>\<open>recover\<close>, the signer, and the validator of protocol
  features that the controller passes in. Transactions inside a block are a type parameter.

  \<^bold>\<open>Not modelled.\<close> The chainbase database itself, beyond the rows of the resource limits, and with it the execution
  of transactions, the WebAssembly machine, the network, the plugins, the block log and the snapshots; locks, logging, signals to plugins
  and the conversion to JSON. In \<^verbatim>\<open>fork_database.cpp\<close> the file is modelled as the sequence of records
  written, not as bytes.
\<close>

end
